(* ===== verification/Prelude.thy ===== *)
theory Prelude
  imports Main "HOL-Library.Word" "HOL-Library.Code_Target_Nat"
begin

text \<open>
  Shared vocabulary of the development: machine-integer conventions, association lists as the
  code uses \<open>Vec<(u64, _)>\<close>, contiguous index ranges, and majorities.

  \<open>u64\<close> terms, log indices, node ids, rounds and instants are natural numbers. The code's plain
  \<open>+ 1\<close> on them is written as is; \<open>saturating_add\<close> and \<open>saturating_sub\<close> are written out
  with the width's maximum. Payload bytes are \<open>8 word\<close>.
\<close>

named_theorems frame \<open>which fields an operation leaves unchanged\<close>
named_theorems log_simps \<open>reading a well-formed log\<close>
named_theorems node_defs \<open>unfolding of node operations\<close>

type_synonym byte = "8 word"
type_synonym u64 = nat
type_synonym node_id = nat
type_synonym instant = nat
type_synonym duration = nat

definition u64_max :: nat where
  "u64_max = 2 ^ 64 - 1"

definition u32_max :: nat where
  "u32_max = 2 ^ 32 - 1"

definition sat_add_u64 :: "nat \<Rightarrow> nat \<Rightarrow> nat" where
  "sat_add_u64 a b = min (a + b) u64_max"

definition wrap_add_u64 :: "nat \<Rightarrow> nat \<Rightarrow> nat" where
  "wrap_add_u64 a b = (a + b) mod 2 ^ 64"

definition sat_add_u32 :: "nat \<Rightarrow> nat \<Rightarrow> nat" where
  "sat_add_u32 a b = min (a + b) u32_max"

lemma wrap_add_u64_code [code]: "wrap_add_u64 a b = nat ((int a + int b) mod 18446744073709551616)"
  by (simp add: wrap_add_u64_def nat_mod_distrib nat_int_add)

lemma wrap_add_u64_small: "a + b \<le> u64_max \<Longrightarrow> wrap_add_u64 a b = a + b"
  by (simp add: wrap_add_u64_def u64_max_def)

lemma wrap_add_u64_max: "wrap_add_u64 u64_max 1 = 0"
  by (simp add: wrap_add_u64_def u64_max_def)

section \<open>Association lists with first-match update\<close>

text \<open>
  \<open>iter().find(|e| e.0 == k).map(|e| e.1)\<close> is \<open>map_of xs k\<close>; an update through
  \<open>iter_mut().find\<close> changes the first match only and adds nothing.
\<close>

fun assoc_modify :: "'k \<Rightarrow> ('v \<Rightarrow> 'v) \<Rightarrow> ('k \<times> 'v) list \<Rightarrow> ('k \<times> 'v) list" where
  "assoc_modify k f [] = []"
| "assoc_modify k f ((a, v) # xs) = (if a = k then (a, f v) # xs else (a, v) # assoc_modify k f xs)"

definition get_or :: "'v \<Rightarrow> ('k \<times> 'v) list \<Rightarrow> 'k \<Rightarrow> 'v" where
  "get_or d xs k = (case map_of xs k of Some v \<Rightarrow> v | None \<Rightarrow> d)"

lemma map_fst_assoc_modify [simp]: "map fst (assoc_modify k f xs) = map fst xs"
  by (induction k f xs rule: assoc_modify.induct) auto

lemma map_of_assoc_modify:
  "map_of (assoc_modify k f xs) = (\<lambda>q. if q = k then map_option f (map_of xs q) else map_of xs q)"
  by (induction k f xs rule: assoc_modify.induct) (auto simp: fun_eq_iff)

lemma get_or_assoc_modify [simp]:
  "get_or d (assoc_modify k f xs) q =
     (if q = k \<and> k \<in> fst ` set xs then f (get_or d xs k) else get_or d xs q)"
  by (cases "map_of xs k") (auto simp: get_or_def map_of_assoc_modify map_of_eq_None_iff
      dest: map_of_SomeD intro: rev_image_eqI split: option.splits)

lemma get_or_map_const [simp]: "get_or d (map (\<lambda>i. (i, c)) ks) k = (if k \<in> set ks then c else d)"
  by (induction ks) (auto simp: get_or_def)

lemma map_of_filter_key:
  "map_of (filter (\<lambda>(i, _). i \<noteq> k) xs) q = (if q = k then None else map_of xs q)"
  by (induction xs) auto

section \<open>Contiguous index ranges\<close>

lemma map_nth_upt: "map f xs = [a..<b] \<Longrightarrow> i < length xs \<Longrightarrow> f (xs ! i) = a + i"
  by (metis length_map nth_map nth_upt length_upt less_diff_conv add.commute)

lemma upt_filter_gt: "filter (\<lambda>i. k < i) [a..<b] = [max a (Suc k)..<b]"
proof (induction b)
  case 0
  then show ?case by simp
next
  case (Suc b)
  then show ?case by (cases "a \<le> b"; cases "k < b") (auto simp: max_def)
qed

lemma upt_filter_lt: "filter (\<lambda>i. i < k) [a..<b] = [a..<min b k]"
proof (induction b)
  case 0
  then show ?case by simp
next
  case (Suc b)
  then show ?case by (cases "a \<le> b"; cases "b < k") (auto simp: min_def)
qed

lemma map_filter_image: "map f (filter (\<lambda>x. P (f x)) xs) = filter P (map f xs)"
  by (induction xs) auto

lemma find_Some_set: "find P xs = Some x \<Longrightarrow> x \<in> set xs \<and> P x"
  by (induction xs) (auto split: if_splits)

lemma find_rev_upt_max:
  assumes "find P (rev [a..<b]) = Some n" and "a \<le> m" and "m < b" and "P m"
  shows "m \<le> n"
  using assms
proof (induction b)
  case 0
  then show ?case by simp
next
  case (Suc b)
  then show ?case
    by (cases "m = b") (auto split: if_splits dest: find_Some_set)
qed

section \<open>Majorities\<close>

text \<open>
  An interface for vote counting: a family of quorums over a voter set, any two of which share a
  member. Majorities provide it.
\<close>

locale quorum_family =
  fixes is_quorum :: "'a set \<Rightarrow> 'a set \<Rightarrow> bool"
  assumes quorum_subset: "is_quorum V Q \<Longrightarrow> Q \<subseteq> V"
    and quorum_meet: "finite V \<Longrightarrow> is_quorum V Q \<Longrightarrow> is_quorum V R \<Longrightarrow> \<exists>v. v \<in> Q \<and> v \<in> R"
begin

lemma unique_choice:
  assumes "finite V" and "is_quorum V Q" and "is_quorum V R"
    and "\<forall>v\<in>Q. choice v = Some c" and "\<forall>v\<in>R. choice v = Some d"
  shows "c = d"
  using quorum_meet [OF assms(1-3)] assms(4,5) by force

end

definition majority :: "'a set \<Rightarrow> 'a set \<Rightarrow> bool" where
  "majority V Q \<longleftrightarrow> Q \<subseteq> V \<and> card V div 2 + 1 \<le> card Q"

lemma card_sum_meet:
  assumes "finite V" and "Q \<subseteq> V" and "R \<subseteq> V" and "card V < card Q + card R"
  shows "\<exists>v. v \<in> Q \<and> v \<in> R"
proof (rule ccontr)
  assume "\<not> ?thesis"
  then have "Q \<inter> R = {}" by auto
  moreover have "finite Q" "finite R" using assms(1-3) finite_subset by blast+
  ultimately have "card (Q \<union> R) = card Q + card R" by (simp add: card_Un_disjoint)
  moreover have "card (Q \<union> R) \<le> card V" using assms(1-3) by (intro card_mono) auto
  ultimately show False using assms(4) by simp
qed

lemma card_ge_2_other: "2 \<le> card Q \<Longrightarrow> \<exists>v\<in>Q. v \<noteq> i"
proof (rule ccontr)
  assume "2 \<le> card Q" and "\<not> (\<exists>v\<in>Q. v \<noteq> i)"
  then show False using card_mono [of "{i}" Q] by auto
qed

lemma card_ge_2: "finite V \<Longrightarrow> i \<in> V \<Longrightarrow> V \<noteq> {i} \<Longrightarrow> 2 \<le> card V"
  using card_le_Suc0_iff_eq [of V] by fastforce

interpretation majorities: quorum_family majority
proof
  fix V Q R :: "'a set"
  show "majority V Q \<Longrightarrow> Q \<subseteq> V" by (simp add: majority_def)
  assume "finite V" and "majority V Q" and "majority V R"
  then show "\<exists>v. v \<in> Q \<and> v \<in> R"
    by (intro card_sum_meet) (auto simp: majority_def)
qed

end
