(* ===== verification/Raft_Types.thy ===== *)
theory Raft_Types
  imports Prelude
begin

text \<open>
  The data of one Raft group (\<open>nodedb-raft/src/message.rs\<close>, \<open>state.rs\<close>, \<open>error.rs\<close>,
  \<open>node/config.rs\<close>): log entries, RPC messages, persistent and volatile node state, the error
  enum and the group configuration with its quorum arithmetic. The group id field is kept: it
  routes a message to its group and no handler of a group reads it.
\<close>

section \<open>Log entries and messages (message.rs)\<close>

record log_entry =
  le_term :: u64
  le_index :: u64
  le_data :: "byte list"

datatype replica_state = Whole | WantsSnapshot | AwaitingSnapshot

record append_entries_request =
  ae_term :: u64
  ae_leader_id :: node_id
  ae_prev_log_index :: u64
  ae_prev_log_term :: u64
  ae_entries :: "log_entry list"
  ae_leader_commit :: u64
  ae_group_id :: u64
  ae_round :: u64
  ae_replicated_floor :: u64

record append_entries_response =
  aer_term :: u64
  aer_success :: bool
  aer_last_log_index :: u64
  aer_round :: u64
  aer_replica :: replica_state

record request_vote_request =
  rv_term :: u64
  rv_candidate_id :: node_id
  rv_last_log_index :: u64
  rv_last_log_term :: u64
  rv_group_id :: u64
  rv_transfer :: bool

record request_vote_response =
  rvr_term :: u64
  rvr_vote_granted :: bool

record pre_vote_request =
  pv_term :: u64
  pv_candidate_id :: node_id
  pv_last_log_index :: u64
  pv_last_log_term :: u64
  pv_group_id :: u64

record pre_vote_response =
  pvr_term :: u64
  pvr_vote_granted :: bool

record timeout_now_request =
  tn_term :: u64
  tn_leader_id :: node_id
  tn_group_id :: u64

record install_snapshot_request =
  is_term :: u64
  is_leader_id :: node_id
  is_last_included_index :: u64
  is_last_included_term :: u64
  is_offset :: u64
  is_data :: "byte list"
  is_done :: bool
  is_group_id :: u64
  is_total_size :: u64
  is_voters :: "node_id list"
  is_learners :: "node_id list"

record install_snapshot_response =
  isr_term :: u64

section \<open>Errors (error.rs)\<close>

datatype raft_error =
    NotLeader "node_id option" u64
  | LogCompacted u64 u64
  | CompactionAheadOfApplied u64 u64
  | ProposalRejected string
  | InvalidTransferTarget node_id
  | LeadershipTransferInProgress
  | GroupNotFound u64
  | Transport string
  | Storage string
  | Serialization string
  | SnapshotFormat string
  | Shutdown

type_synonym 'a result = "raft_error + 'a"

section \<open>Node state (state.rs)\<close>

record hard_state =
  current_term :: u64
  voted_for :: node_id

definition hard_state_new :: hard_state where
  "hard_state_new = \<lparr>current_term = 0, voted_for = 0\<rparr>"

datatype node_role = Follower | Candidate | Leader | Learner | Observer

text \<open>The derived order of the enum: by discriminant, least strict first.\<close>

fun replica_rank :: "replica_state \<Rightarrow> nat" where
  "replica_rank Whole = 0"
| "replica_rank WantsSnapshot = 1"
| "replica_rank AwaitingSnapshot = 2"

lemma replica_rank_inject [simp]: "replica_rank a = replica_rank b \<longleftrightarrow> a = b"
  by (cases a; cases b) auto

instantiation replica_state :: linorder
begin

definition less_eq_replica_state :: "replica_state \<Rightarrow> replica_state \<Rightarrow> bool" where
  "less_eq_replica_state a b \<longleftrightarrow> replica_rank a \<le> replica_rank b"

definition less_replica_state :: "replica_state \<Rightarrow> replica_state \<Rightarrow> bool" where
  "less_replica_state a b \<longleftrightarrow> replica_rank a < replica_rank b"

instance
  by standard (auto simp: less_eq_replica_state_def less_replica_state_def)

end

definition raised_to :: "replica_state \<Rightarrow> replica_state \<Rightarrow> replica_state" where
  "raised_to a b = max a b"

fun wants_snapshot :: "replica_state \<Rightarrow> bool" where
  "wants_snapshot Whole = False"
| "wants_snapshot WantsSnapshot = True"
| "wants_snapshot AwaitingSnapshot = True"

fun may_lead :: "replica_state \<Rightarrow> bool" where
  "may_lead Whole = True"
| "may_lead WantsSnapshot = True"
| "may_lead AwaitingSnapshot = False"

record volatile_state =
  commit_index :: u64
  last_applied :: u64

definition volatile_state_new :: volatile_state where
  "volatile_state_new = \<lparr>commit_index = 0, last_applied = 0\<rparr>"

definition volatile_state_restored :: "u64 \<Rightarrow> volatile_state" where
  "volatile_state_restored applied_index =
     \<lparr>commit_index = applied_index, last_applied = applied_index\<rparr>"

record leadership_transfer =
  lt_target :: node_id
  lt_emitted :: bool
  lt_deadline :: instant

record pre_vote_round =
  pvd_term :: u64
  pvd_granted :: "node_id set"

section \<open>Configuration (node/config.rs)\<close>

record raft_config =
  node_id :: node_id
  group_id :: u64
  peers :: "node_id list"
  learners :: "node_id list"
  observers :: "node_id list"
  starts_as_learner :: bool
  starts_as_observer :: bool
  election_timeout_min :: duration
  election_timeout_max :: duration
  heartbeat_interval :: duration
  log_compaction_threshold :: "u64 option"

definition cluster_size :: "raft_config \<Rightarrow> nat" where
  "cluster_size c = length (peers c) + 1"

definition quorum :: "raft_config \<Rightarrow> nat" where
  "quorum c = cluster_size c div 2 + 1"

text \<open>
  \<open>Duration::mul_f64(MAX_CLOCK_DRIFT_RATIO)\<close> is a floating-point operation. It is the parameter
  \<open>drift\<close>: the margin for a given election timeout.
\<close>

definition lease_drift_margin :: "(duration \<Rightarrow> duration) \<Rightarrow> raft_config \<Rightarrow> duration" where
  "lease_drift_margin drift c = drift (election_timeout_min c)"

definition lease_duration :: "(duration \<Rightarrow> duration) \<Rightarrow> raft_config \<Rightarrow> duration" where
  "lease_duration drift c = election_timeout_min c - lease_drift_margin drift c"

text \<open>The voter set of a configuration: this node and its voting peers.\<close>

definition voter_set :: "raft_config \<Rightarrow> node_id set" where
  "voter_set c = insert (node_id c) (set (peers c))"

definition config_wf :: "raft_config \<Rightarrow> bool" where
  "config_wf c \<longleftrightarrow> distinct (peers c) \<and> node_id c \<notin> set (peers c) \<and>
     distinct (learners c) \<and> node_id c \<notin> set (learners c) \<and> set (peers c) \<inter> set (learners c) = {}"

lemma card_voter_set: "config_wf c \<Longrightarrow> card (voter_set c) = cluster_size c"
  by (simp add: voter_set_def cluster_size_def config_wf_def distinct_card)

lemma quorum_majority:
  assumes "config_wf c" and "Q \<subseteq> voter_set c" and "quorum c \<le> card Q"
  shows "majority (voter_set c) Q"
  using assms by (simp add: majority_def card_voter_set quorum_def)

lemma lease_duration_le: "lease_duration drift c \<le> election_timeout_min c"
  by (simp add: lease_duration_def)

end
