(* ===== verification/Raft_Storage.thy ===== *)
theory Raft_Storage
  imports Raft_Types
begin

text \<open>
  The storage interface of the Raft log (\<open>nodedb-raft/src/storage.rs\<close>). The trait
  \<open>LogStorage\<close> is a record of its methods; code generic over \<open>S: LogStorage\<close> takes that record
  as its first argument. A \<open>&mut self\<close> method returns the result and the new storage, so that a
  failing write is an ordinary value. \<open>MemStorage\<close>, the implementation of the same file, is
  modelled in full and provides the locale \<open>log_storage\<close>, which states what the log relies on.
\<close>

section \<open>The trait\<close>

record 's storage_ops =
  so_append :: "'s \<Rightarrow> log_entry list \<Rightarrow> unit result \<times> 's"
  so_truncate :: "'s \<Rightarrow> u64 \<Rightarrow> unit result \<times> 's"
  so_load_entries_after :: "'s \<Rightarrow> u64 \<Rightarrow> log_entry list result"
  so_compact :: "'s \<Rightarrow> u64 \<Rightarrow> u64 \<Rightarrow> unit result \<times> 's"
  so_snapshot_metadata :: "'s \<Rightarrow> u64 \<times> u64"
  so_save_hard_state :: "'s \<Rightarrow> hard_state \<Rightarrow> unit result \<times> 's"
  so_load_hard_state :: "'s \<Rightarrow> hard_state result"
  so_save_applied_index :: "'s \<Rightarrow> u64 \<Rightarrow> unit result \<times> 's"
  so_load_applied_index :: "'s \<Rightarrow> u64 result"
  so_stable_through :: "'s \<Rightarrow> (u64 \<times> u64) option"

section \<open>MemStorage\<close>

record mem_storage =
  ms_entries :: "log_entry list"
  ms_hard_state :: hard_state
  ms_snapshot_index :: u64
  ms_snapshot_term :: u64
  ms_applied_index :: u64

definition mem_storage_new :: mem_storage where
  "mem_storage_new = \<lparr>ms_entries = [], ms_hard_state = hard_state_new,
     ms_snapshot_index = 0, ms_snapshot_term = 0, ms_applied_index = 0\<rparr>"

text \<open>One turn of the append loop: overwrite the first entry with the index, or push.\<close>

fun mem_put :: "log_entry \<Rightarrow> log_entry list \<Rightarrow> log_entry list" where
  "mem_put x [] = [x]"
| "mem_put x (e # es) = (if le_index e = le_index x then x # es else e # mem_put x es)"

definition mem_append :: "mem_storage \<Rightarrow> log_entry list \<Rightarrow> unit result \<times> mem_storage" where
  "mem_append s es = (Inr (), s\<lparr>ms_entries := fold mem_put es (ms_entries s)\<rparr>)"

definition mem_truncate :: "mem_storage \<Rightarrow> u64 \<Rightarrow> unit result \<times> mem_storage" where
  "mem_truncate s index = (Inr (), s\<lparr>ms_entries := filter (\<lambda>e. le_index e < index) (ms_entries s)\<rparr>)"

definition mem_load_entries_after :: "mem_storage \<Rightarrow> u64 \<Rightarrow> log_entry list result" where
  "mem_load_entries_after s snapshot_index =
     Inr (filter (\<lambda>e. le_index e > snapshot_index) (ms_entries s))"

definition mem_compact :: "mem_storage \<Rightarrow> u64 \<Rightarrow> u64 \<Rightarrow> unit result \<times> mem_storage" where
  "mem_compact s index t = (Inr (), s\<lparr>ms_entries := filter (\<lambda>e. le_index e > index) (ms_entries s),
     ms_snapshot_index := index, ms_snapshot_term := t\<rparr>)"

definition mem_snapshot_metadata :: "mem_storage \<Rightarrow> u64 \<times> u64" where
  "mem_snapshot_metadata s = (ms_snapshot_index s, ms_snapshot_term s)"

definition mem_save_hard_state :: "mem_storage \<Rightarrow> hard_state \<Rightarrow> unit result \<times> mem_storage" where
  "mem_save_hard_state s h = (Inr (), s\<lparr>ms_hard_state := h\<rparr>)"

definition mem_load_hard_state :: "mem_storage \<Rightarrow> hard_state result" where
  "mem_load_hard_state s = Inr (ms_hard_state s)"

definition mem_save_applied_index :: "mem_storage \<Rightarrow> u64 \<Rightarrow> unit result \<times> mem_storage" where
  "mem_save_applied_index s index = (Inr (), s\<lparr>ms_applied_index := index\<rparr>)"

definition mem_load_applied_index :: "mem_storage \<Rightarrow> u64 result" where
  "mem_load_applied_index s = Inr (ms_applied_index s)"

definition mem_ops :: "mem_storage storage_ops" where
  "mem_ops = \<lparr>so_append = mem_append, so_truncate = mem_truncate,
     so_load_entries_after = mem_load_entries_after, so_compact = mem_compact,
     so_snapshot_metadata = mem_snapshot_metadata, so_save_hard_state = mem_save_hard_state,
     so_load_hard_state = mem_load_hard_state, so_save_applied_index = mem_save_applied_index,
     so_load_applied_index = mem_load_applied_index, so_stable_through = (\<lambda>_. None)\<rparr>"

section \<open>What the log relies on\<close>

text \<open>
  \<open>held\<close> is the log suffix the storage holds. A write of entries at new indices adds them at the
  end; a truncation and a compaction drop exactly the named range; a failed write changes nothing
  a later load can see; the three kinds of state (entries and boundary, hard state, applied index)
  do not disturb each other.
\<close>

definition fresh_indices :: "log_entry list \<Rightarrow> log_entry list \<Rightarrow> bool" where
  "fresh_indices held es \<longleftrightarrow> distinct (map le_index es) \<and>
     le_index ` set es \<inter> le_index ` set held = {}"

locale log_storage =
  fixes ops :: "'s storage_ops" and held :: "'s \<Rightarrow> log_entry list"
  assumes load_held: "so_load_entries_after ops s k = Inr es \<Longrightarrow>
      es = filter (\<lambda>e. k < le_index e) (held s)"
    and append_held: "so_append ops s es = (Inr u, s') \<Longrightarrow> fresh_indices (held s) es \<Longrightarrow>
      held s' = held s @ es"
    and append_keeps: "so_append ops s es = (r, s') \<Longrightarrow>
      so_snapshot_metadata ops s' = so_snapshot_metadata ops s \<and>
      so_load_hard_state ops s' = so_load_hard_state ops s \<and>
      so_load_applied_index ops s' = so_load_applied_index ops s"
    and append_failed: "so_append ops s es = (Inl e, s') \<Longrightarrow> held s' = held s"
    and truncate_held: "so_truncate ops s i = (Inr u, s') \<Longrightarrow>
      held s' = filter (\<lambda>e. le_index e < i) (held s)"
    and truncate_keeps: "so_truncate ops s i = (r, s') \<Longrightarrow>
      so_snapshot_metadata ops s' = so_snapshot_metadata ops s \<and>
      so_load_hard_state ops s' = so_load_hard_state ops s \<and>
      so_load_applied_index ops s' = so_load_applied_index ops s"
    and truncate_failed: "so_truncate ops s i = (Inl e, s') \<Longrightarrow> held s' = held s"
    and compact_held: "so_compact ops s i t = (Inr u, s') \<Longrightarrow>
      held s' = filter (\<lambda>e. i < le_index e) (held s) \<and> so_snapshot_metadata ops s' = (i, t)"
    and compact_keeps: "so_compact ops s i t = (r, s') \<Longrightarrow>
      so_load_hard_state ops s' = so_load_hard_state ops s \<and>
      so_load_applied_index ops s' = so_load_applied_index ops s"
    and compact_failed: "so_compact ops s i t = (Inl e, s') \<Longrightarrow>
      held s' = held s \<and> so_snapshot_metadata ops s' = so_snapshot_metadata ops s"
    and save_hard_state: "so_save_hard_state ops s h = (Inr u, s') \<Longrightarrow>
      so_load_hard_state ops s' = Inr h"
    and save_hard_state_keeps: "so_save_hard_state ops s h = (r, s') \<Longrightarrow>
      held s' = held s \<and> so_snapshot_metadata ops s' = so_snapshot_metadata ops s \<and>
      so_load_applied_index ops s' = so_load_applied_index ops s"
    and save_hard_state_failed: "so_save_hard_state ops s h = (Inl e, s') \<Longrightarrow>
      so_load_hard_state ops s' = so_load_hard_state ops s"
    and save_applied: "so_save_applied_index ops s i = (Inr u, s') \<Longrightarrow>
      so_load_applied_index ops s' = Inr i"
    and save_applied_keeps: "so_save_applied_index ops s i = (r, s') \<Longrightarrow>
      held s' = held s \<and> so_snapshot_metadata ops s' = so_snapshot_metadata ops s \<and>
      so_load_hard_state ops s' = so_load_hard_state ops s"
    and save_applied_failed: "so_save_applied_index ops s i = (Inl e, s') \<Longrightarrow>
      so_load_applied_index ops s' = so_load_applied_index ops s"

section \<open>MemStorage provides the interface\<close>

lemma mem_put_fresh: "le_index x \<notin> le_index ` set es \<Longrightarrow> mem_put x es = es @ [x]"
  by (induction x es rule: mem_put.induct) auto

lemma fold_mem_put_fresh: "fresh_indices held es \<Longrightarrow> fold mem_put es held = held @ es"
proof (induction es arbitrary: held)
  case Nil
  then show ?case by simp
next
  case (Cons e es)
  then have "le_index e \<notin> le_index ` set held" and "fresh_indices (held @ [e]) es"
    by (auto simp: fresh_indices_def image_iff)
  then show ?case using Cons.IH [of "held @ [e]"] by (simp add: mem_put_fresh)
qed

lemmas mem_defs = mem_ops_def mem_append_def mem_truncate_def mem_load_entries_after_def
  mem_compact_def mem_snapshot_metadata_def mem_save_hard_state_def mem_load_hard_state_def
  mem_save_applied_index_def mem_load_applied_index_def

interpretation mem: log_storage mem_ops ms_entries
  by unfold_locales (auto simp: mem_defs fold_mem_put_fresh)

end
