(* ===== verification/Raft_Log.thy ===== *)
theory Raft_Log
  imports Raft_Storage
begin

text \<open>
  The in-memory Raft log over a pluggable storage (\<open>nodedb-raft/src/log.rs\<close>). The log is
  1-indexed; entries up to \<open>snapshot_index\<close> are gone, the rest is a contiguous run. Shown here:
  every operation keeps the run contiguous, \<open>append_entries\<close> implements the overwrite rule of
  Raft 5.3 and is idempotent, a batch respects its byte budget, and memory and storage agree after
  every operation, failed ones included, so a restart rebuilds the same log.
\<close>

section \<open>The log\<close>

definition MAX_APPEND_BATCH_BYTES :: nat where
  "MAX_APPEND_BATCH_BYTES = 32 * 1024 * 1024"

record 's raft_log =
  rl_entries :: "log_entry list"
  snapshot_index :: u64
  snapshot_term :: u64
  rl_storage :: 's

definition raft_log_new :: "'s \<Rightarrow> 's raft_log" where
  "raft_log_new s = \<lparr>rl_entries = [], snapshot_index = 0, snapshot_term = 0, rl_storage = s\<rparr>"

definition raft_log_restore :: "'s storage_ops \<Rightarrow> 's raft_log \<Rightarrow> unit result \<times> 's raft_log" where
  "raft_log_restore ops l =
     (let (snap_index, snap_term) = so_snapshot_metadata ops (rl_storage l);
          l1 = l\<lparr>snapshot_index := snap_index, snapshot_term := snap_term\<rparr>
      in case so_load_entries_after ops (rl_storage l) snap_index of
           Inl e \<Rightarrow> (Inl e, l1)
         | Inr es \<Rightarrow> (Inr (), l1\<lparr>rl_entries := es\<rparr>))"

definition last_index :: "'s raft_log \<Rightarrow> u64" where
  "last_index l = (if rl_entries l = [] then snapshot_index l else le_index (last (rl_entries l)))"

definition last_term :: "'s raft_log \<Rightarrow> u64" where
  "last_term l = (if rl_entries l = [] then snapshot_term l else le_term (last (rl_entries l)))"

definition entry_at :: "'s raft_log \<Rightarrow> u64 \<Rightarrow> log_entry option" where
  "entry_at l index =
     (if index \<le> snapshot_index l \<or> index > last_index l then None
      else let offset = index - snapshot_index l - 1
           in if offset < length (rl_entries l) then Some (rl_entries l ! offset) else None)"

definition term_at :: "'s raft_log \<Rightarrow> u64 \<Rightarrow> u64 option" where
  "term_at l index =
     (if index = 0 then Some 0
      else if index = snapshot_index l then Some (snapshot_term l)
      else if index < snapshot_index l then None
      else map_option le_term (entry_at l index))"

text \<open>
  The slice \<open>entries[start..end]\<close> is in range whenever the log is contiguous
  (\<open>log_wf\<close> below), so the panic of an out-of-range slice is not a branch.
\<close>

definition entries_range :: "'s raft_log \<Rightarrow> u64 \<Rightarrow> u64 \<Rightarrow> log_entry list result" where
  "entries_range l lo hi =
     (if lo \<le> snapshot_index l then Inl (LogCompacted lo (snapshot_index l + 1))
      else if lo > hi \<or> lo > last_index l then Inr []
      else let start = lo - snapshot_index l - 1;
               stop = (min hi (last_index l) - snapshot_index l - 1) + 1
           in Inr (drop start (take stop (rl_entries l))))"

text \<open>The counting loop of \<open>entries_within\<close>: \<open>tot\<close> bytes so far, \<open>n\<close> entries taken.\<close>

fun within_count :: "nat \<Rightarrow> nat \<Rightarrow> nat \<Rightarrow> log_entry list \<Rightarrow> nat" where
  "within_count max_bytes tot n [] = n"
| "within_count max_bytes tot n (e # es) =
     (let tot' = sat_add_u64 tot (length (le_data e))
      in if n > 0 \<and> tot' > max_bytes then n else within_count max_bytes tot' (n + 1) es)"

definition entries_within :: "'s raft_log \<Rightarrow> u64 \<Rightarrow> u64 \<Rightarrow> nat \<Rightarrow> log_entry list result" where
  "entries_within l lo hi max_bytes =
     (case entries_range l lo hi of
        Inl e \<Rightarrow> Inl e
      | Inr es \<Rightarrow> Inr (take (within_count max_bytes 0 0 es) es))"

definition truncate_from :: "'s storage_ops \<Rightarrow> 's raft_log \<Rightarrow> u64 \<Rightarrow> unit result \<times> 's raft_log" where
  "truncate_from ops l index =
     (if index \<le> snapshot_index l then (Inr (), l)
      else case so_truncate ops (rl_storage l) index of
             (Inl e, s) \<Rightarrow> (Inl e, l\<lparr>rl_storage := s\<rparr>)
           | (Inr _, s) \<Rightarrow> (Inr (), l\<lparr>rl_storage := s,
               rl_entries := take (index - snapshot_index l - 1) (rl_entries l)\<rparr>))"

text \<open>The predicate of \<open>position\<close> in \<open>append_entries\<close>: not held at the same term.\<close>

definition not_held :: "'s raft_log \<Rightarrow> log_entry \<Rightarrow> bool" where
  "not_held l e \<longleftrightarrow> le_index e > snapshot_index l \<and>
     (case entry_at l (le_index e) of None \<Rightarrow> True | Some x \<Rightarrow> le_term x \<noteq> le_term e)"

definition append_entries ::
  "'s storage_ops \<Rightarrow> 's raft_log \<Rightarrow> u64 \<Rightarrow> log_entry list \<Rightarrow> bool result \<times> 's raft_log" where
  "append_entries ops l prev_index es =
     (case dropWhile (\<lambda>e. \<not> not_held l e) es of
        [] \<Rightarrow> (Inr False, l)
      | e # rest \<Rightarrow>
          let new = e # rest;
              (r, l1) = (if entry_at l (le_index e) \<noteq> None then truncate_from ops l (le_index e)
                         else (Inr (), l))
          in case r of
               Inl err \<Rightarrow> (Inl err, l1)
             | Inr _ \<Rightarrow>
                 (case so_append ops (rl_storage l1) new of
                    (Inl err, s) \<Rightarrow> (Inl err, l1\<lparr>rl_storage := s\<rparr>)
                  | (Inr _, s) \<Rightarrow>
                      (Inr True, l1\<lparr>rl_storage := s, rl_entries := rl_entries l1 @ new\<rparr>)))"

definition log_append :: "'s storage_ops \<Rightarrow> 's raft_log \<Rightarrow> log_entry \<Rightarrow> unit result \<times> 's raft_log" where
  "log_append ops l entry =
     (case so_append ops (rl_storage l) [entry] of
        (Inl err, s) \<Rightarrow> (Inl err, l\<lparr>rl_storage := s\<rparr>)
      | (Inr _, s) \<Rightarrow> (Inr (), l\<lparr>rl_storage := s, rl_entries := rl_entries l @ [entry]\<rparr>))"

definition apply_snapshot ::
  "'s storage_ops \<Rightarrow> 's raft_log \<Rightarrow> u64 \<Rightarrow> u64 \<Rightarrow> unit result \<times> 's raft_log" where
  "apply_snapshot ops l last_included_index last_included_term =
     (if last_included_index \<le> snapshot_index l then (Inr (), l)
      else case so_compact ops (rl_storage l) last_included_index last_included_term of
             (Inl err, s) \<Rightarrow> (Inl err, l\<lparr>rl_storage := s\<rparr>)
           | (Inr _, s) \<Rightarrow>
               let new_start = last_included_index + 1
               in (Inr (), l\<lparr>rl_storage := s,
                     rl_entries := filter (\<lambda>e. le_index e \<ge> new_start) (rl_entries l),
                     snapshot_index := last_included_index,
                     snapshot_term := last_included_term\<rparr>))"

definition stable_index :: "'s storage_ops \<Rightarrow> 's raft_log \<Rightarrow> u64" where
  "stable_index ops l =
     (case so_stable_through ops (rl_storage l) of
        None \<Rightarrow> last_index l
      | Some (index, t) \<Rightarrow>
          if index \<le> last_index l \<and> term_at l index = Some t then index
          else min index (snapshot_index l))"

section \<open>Well-formed logs\<close>

definition log_wf :: "'s raft_log \<Rightarrow> bool" where
  "log_wf l \<longleftrightarrow> map le_index (rl_entries l) =
     [Suc (snapshot_index l)..<Suc (snapshot_index l) + length (rl_entries l)]"

text \<open>A batch that follows index \<open>p\<close>.\<close>

definition batch_after :: "u64 \<Rightarrow> log_entry list \<Rightarrow> bool" where
  "batch_after p es \<longleftrightarrow> map le_index es = [Suc p..<Suc p + length es]"

lemma batch_after_nth: "batch_after p es \<Longrightarrow> i < length es \<Longrightarrow> le_index (es ! i) = Suc p + i"
  unfolding batch_after_def by (rule map_nth_upt)

lemma batch_after_Nil [simp]: "batch_after p []"
  by (simp add: batch_after_def)

lemma batch_after_Cons: "batch_after p (e # es) \<longleftrightarrow> le_index e = Suc p \<and> batch_after (Suc p) es"
  by (auto simp: batch_after_def upt_conv_Cons simp del: upt_Suc)

lemma batch_after_append:
  "batch_after p (xs @ ys) \<longleftrightarrow> batch_after p xs \<and> batch_after (p + length xs) ys"
  by (induction xs arbitrary: p) (auto simp: batch_after_Cons)

lemma batch_after_take: "batch_after p es \<Longrightarrow> batch_after p (take k es)"
  by (metis append_take_drop_id batch_after_append)

lemma batch_after_drop: "batch_after p es \<Longrightarrow> k \<le> length es \<Longrightarrow> batch_after (p + k) (drop k es)"
  by (metis append_take_drop_id batch_after_append length_take min.absorb2)

lemma batch_after_set:
  "batch_after p es \<Longrightarrow> e \<in> set es \<Longrightarrow> p < le_index e \<and> le_index e \<le> p + length es"
  by (auto simp: in_set_conv_nth batch_after_nth)

lemma batch_after_filter_gt:
  "batch_after p es \<Longrightarrow> p \<le> k \<Longrightarrow> filter (\<lambda>e. k < le_index e) es = drop (k - p) es"
proof (induction es arbitrary: p)
  case Nil
  then show ?case by simp
next
  case (Cons e es)
  then have e: "le_index e = Suc p" and b: "batch_after (Suc p) es" by (auto simp: batch_after_Cons)
  show ?case
  proof (cases "p = k")
    case True
    have "\<forall>x\<in>set es. k < le_index x" using batch_after_set [OF b] True by fastforce
    then show ?thesis using True e by simp
  next
    case False
    with Cons.prems have "Suc p \<le> k" by simp
    moreover from this have "k - p = Suc (k - Suc p)" by simp
    ultimately show ?thesis using Cons.IH [OF b] e by simp
  qed
qed

lemma batch_after_filter_lt:
  "batch_after p es \<Longrightarrow> filter (\<lambda>e. le_index e < k) es = take (k - Suc p) es"
proof (induction es arbitrary: p)
  case Nil
  then show ?case by simp
next
  case (Cons e es)
  then have e: "le_index e = Suc p" and b: "batch_after (Suc p) es" by (auto simp: batch_after_Cons)
  show ?case
  proof (cases "Suc p < k")
    case True
    then have "k - Suc p = Suc (k - Suc (Suc p))" by simp
    with Cons.IH [OF b] e True show ?thesis by simp
  next
    case False
    have "\<forall>x\<in>set es. \<not> le_index x < k" using batch_after_set [OF b] False by fastforce
    then show ?thesis using False e by simp
  qed
qed

lemma batch_after_distinct: "batch_after p es \<Longrightarrow> distinct (map le_index es)"
  by (simp add: batch_after_def)

lemma storage_update_views [simp]:
  "last_index (l\<lparr>rl_storage := s\<rparr>) = last_index l" "last_term (l\<lparr>rl_storage := s\<rparr>) = last_term l"
  "entry_at (l\<lparr>rl_storage := s\<rparr>) i = entry_at l i" "term_at (l\<lparr>rl_storage := s\<rparr>) i = term_at l i"
  "log_wf (l\<lparr>rl_storage := s\<rparr>) = log_wf l"
  by (simp_all add: last_index_def last_term_def entry_at_def term_at_def log_wf_def Let_def)

lemma log_wf_batch: "log_wf l \<longleftrightarrow> batch_after (snapshot_index l) (rl_entries l)"
  by (simp add: log_wf_def batch_after_def)

lemma last_index_wf [log_simps]: "log_wf l \<Longrightarrow> last_index l = snapshot_index l + length (rl_entries l)"
  by (auto simp: last_index_def log_wf_batch last_conv_nth batch_after_nth)

lemma entry_at_wf [log_simps]:
  "log_wf l \<Longrightarrow> entry_at l i =
     (if snapshot_index l < i \<and> i \<le> snapshot_index l + length (rl_entries l)
      then Some (rl_entries l ! (i - snapshot_index l - 1)) else None)"
  by (auto simp: entry_at_def last_index_wf Let_def)

lemma entry_at_index: "log_wf l \<Longrightarrow> entry_at l i = Some e \<Longrightarrow> le_index e = i"
  by (auto simp: entry_at_wf log_wf_batch batch_after_nth split: if_splits)

lemma term_at_None_iff:
  "log_wf l \<Longrightarrow> term_at l i = None \<longleftrightarrow> i \<noteq> 0 \<and> (i < snapshot_index l \<or> i > last_index l)"
  by (auto simp: term_at_def entry_at_wf last_index_wf split: if_splits)

lemma term_at_last: "log_wf l \<Longrightarrow> last_index l \<noteq> 0 \<Longrightarrow> term_at l (last_index l) = Some (last_term l)"
  by (auto simp: term_at_def entry_at_wf last_index_wf last_term_def last_conv_nth)

section \<open>Operations keep the log well formed\<close>

lemma log_wf_new: "log_wf (raft_log_new s)"
  by (simp add: log_wf_def raft_log_new_def)

lemma truncate_from_wf: "log_wf l \<Longrightarrow> truncate_from ops l i = (r, l') \<Longrightarrow> log_wf l'"
  by (auto simp: truncate_from_def log_wf_batch batch_after_take split: if_splits sum.splits prod.splits)

lemma truncate_from_snapshot:
  "truncate_from ops l i = (r, l') \<Longrightarrow>
     snapshot_index l' = snapshot_index l \<and> snapshot_term l' = snapshot_term l"
  by (auto simp: truncate_from_def split: if_splits sum.splits prod.splits)

lemma truncate_from_entries:
  "truncate_from ops l i = (r, l') \<Longrightarrow>
     rl_entries l' = rl_entries l \<or>
     (r = Inr () \<and> rl_entries l' = take (i - snapshot_index l - 1) (rl_entries l))"
  by (auto simp: truncate_from_def split: if_splits sum.splits prod.splits)

lemma log_append_wf:
  "log_wf l \<Longrightarrow> le_index e = Suc (last_index l) \<Longrightarrow> log_append ops l e = (r, l') \<Longrightarrow> log_wf l'"
  by (auto simp: log_append_def last_index_wf log_wf_batch batch_after_append batch_after_Cons
      split: sum.splits prod.splits)

lemma log_append_entries:
  "log_append ops l e = (r, l') \<Longrightarrow> rl_entries l' = rl_entries l @ (case r of Inl _ \<Rightarrow> [] | Inr _ \<Rightarrow> [e])"
  by (auto simp: log_append_def split: sum.splits prod.splits)

lemma log_append_snapshot:
  "log_append ops l e = (r, l') \<Longrightarrow>
     snapshot_index l' = snapshot_index l \<and> snapshot_term l' = snapshot_term l"
  by (auto simp: log_append_def split: sum.splits prod.splits)

lemma apply_snapshot_wf:
  assumes "log_wf l" and "apply_snapshot ops l i t = (r, l')"
  shows "log_wf l'"
proof (cases "\<exists>u s. so_compact ops (rl_storage l) i t = (Inr u, s) \<and> snapshot_index l < i")
  case True
  then obtain s where c: "so_compact ops (rl_storage l) i t = (Inr (), s)" and i: "snapshot_index l < i"
    by auto
  have f: "filter (\<lambda>e. Suc i \<le> le_index e) (rl_entries l) = drop (i - snapshot_index l) (rl_entries l)"
    using batch_after_filter_gt [of "snapshot_index l" "rl_entries l" i] assms(1) i
    by (simp add: log_wf_batch Suc_le_eq)
  have b: "batch_after i (drop (i - snapshot_index l) (rl_entries l))"
    using batch_after_drop [of "snapshot_index l" "rl_entries l" "i - snapshot_index l"] assms(1) i
    by (cases "i - snapshot_index l \<le> length (rl_entries l)") (auto simp: log_wf_batch)
  show ?thesis using assms(2) c i f b by (auto simp: apply_snapshot_def log_wf_batch)
next
  case False
  then show ?thesis using assms
    by (auto simp: apply_snapshot_def log_wf_def split: if_splits sum.splits prod.splits)
qed

lemma apply_snapshot_boundary:
  "apply_snapshot ops l i t = (Inr u, l') \<Longrightarrow>
     snapshot_index l' = max i (snapshot_index l) \<and>
     snapshot_term l' = (if snapshot_index l < i then t else snapshot_term l)"
  by (auto simp: apply_snapshot_def split: if_splits sum.splits prod.splits)

lemma apply_snapshot_failed:
  "apply_snapshot ops l i t = (Inl e, l') \<Longrightarrow>
     rl_entries l' = rl_entries l \<and> snapshot_index l' = snapshot_index l \<and> snapshot_term l' = snapshot_term l"
  by (auto simp: apply_snapshot_def split: if_splits sum.splits prod.splits)

text \<open>What \<open>apply_snapshot\<close> keeps: every entry above the boundary.\<close>

lemma apply_snapshot_entry_at:
  assumes "log_wf l" and "apply_snapshot ops l i t = (r, l')" and "i < j"
  shows "entry_at l' j = entry_at l j"
proof (cases "\<exists>u s. so_compact ops (rl_storage l) i t = (Inr u, s) \<and> snapshot_index l < i")
  case True
  then obtain s where c: "so_compact ops (rl_storage l) i t = (Inr (), s)" and i: "snapshot_index l < i"
    by auto
  have "rl_entries l' = drop (i - snapshot_index l) (rl_entries l)" "snapshot_index l' = i"
    using batch_after_filter_gt [of "snapshot_index l" "rl_entries l" i] assms(1,2) c i
    by (auto simp: apply_snapshot_def log_wf_batch Suc_le_eq)
  then show ?thesis using apply_snapshot_wf [OF assms(1,2)] assms(1,3) i
    by (auto simp: entry_at_wf)
next
  case False
  then show ?thesis using assms
    by (auto simp: apply_snapshot_def split: if_splits sum.splits prod.splits)
qed

section \<open>The overwrite rule\<close>

lemma not_held_wf:
  "log_wf l \<Longrightarrow> \<not> not_held l e \<Longrightarrow> le_index e \<le> snapshot_index l \<or>
     (\<exists>x. entry_at l (le_index e) = Some x \<and> le_term x = le_term e)"
  by (auto simp: not_held_def split: option.splits)

text \<open>The first entry not held follows the last one that is, so it never leaves a gap.\<close>

lemma first_not_held_index:
  assumes wf: "log_wf l" and b: "batch_after p es" and p: "p \<le> last_index l"
    and d: "dropWhile (\<lambda>e. \<not> not_held l e) es = e # rest"
  shows "snapshot_index l < le_index e \<and> le_index e \<le> Suc (last_index l)"
proof -
  have nh: "not_held l e" using d by (metis hd_dropWhile list.distinct(1) list.sel(1))
  define pre where "pre = takeWhile (\<lambda>e. \<not> not_held l e) es"
  have es: "es = pre @ e # rest" using d by (metis pre_def takeWhile_dropWhile_id)
  have idx: "le_index e = Suc (p + length pre)"
    using b by (simp add: es batch_after_append batch_after_Cons)
  have "p + length pre \<le> last_index l"
  proof (cases pre rule: rev_cases)
    case Nil
    with p show ?thesis by simp
  next
    case (snoc ys y)
    then have "\<not> not_held l y"
      using pre_def by (metis in_set_conv_decomp set_takeWhileD)
    moreover have "le_index y = p + length pre"
      using b by (simp add: es snoc batch_after_append batch_after_Cons)
    ultimately show ?thesis using not_held_wf [OF wf, of y] wf
      by (auto simp: entry_at_wf last_index_wf split: if_splits)
  qed
  then show ?thesis using nh idx by (auto simp: not_held_def)
qed

lemma append_entries_True:
  assumes wf: "log_wf l" and b: "batch_after p es" and p: "p \<le> last_index l"
    and a: "append_entries ops l q es = (Inr True, l')"
  shows "\<exists>e rest. dropWhile (\<lambda>e. \<not> not_held l e) es = e # rest \<and>
     rl_entries l' = take (le_index e - Suc (snapshot_index l)) (rl_entries l) @ e # rest \<and>
     snapshot_index l' = snapshot_index l \<and> snapshot_term l' = snapshot_term l"
proof -
  obtain e rest where d: "dropWhile (\<lambda>e. \<not> not_held l e) es = e # rest"
    using a by (auto simp: append_entries_def split: list.splits)
  note f = first_not_held_index [OF wf b p d]
  have "entry_at l (le_index e) = None \<Longrightarrow>
      take (le_index e - Suc (snapshot_index l)) (rl_entries l) = rl_entries l"
    using f wf by (auto simp: entry_at_wf last_index_wf split: if_splits)
  then show ?thesis using a f
    by (auto simp: append_entries_def d Let_def truncate_from_def split: if_splits sum.splits prod.splits)
qed

lemma append_entries_False:
  "append_entries ops l q es = (Inr False, l') \<Longrightarrow> l' = l \<and> (\<forall>e\<in>set es. \<not> not_held l e)"
  by (auto simp: append_entries_def Let_def dropWhile_eq_Nil_conv
      split: list.splits if_splits sum.splits prod.splits)

lemma append_entries_wf:
  assumes wf: "log_wf l" and b: "batch_after p es" and p: "p \<le> last_index l"
    and a: "append_entries ops l q es = (r, l')"
  shows "log_wf l'"
proof -
  consider "r = Inr False" | "r = Inr True" | err where "r = Inl err" by (cases r) auto
  then show ?thesis
  proof cases
    case 1
    with append_entries_False a wf show ?thesis by blast
  next
    case 2
    then obtain e rest where d: "dropWhile (\<lambda>e. \<not> not_held l e) es = e # rest"
      and en: "rl_entries l' = take (le_index e - Suc (snapshot_index l)) (rl_entries l) @ e # rest"
      and si: "snapshot_index l' = snapshot_index l"
      using append_entries_True [OF wf b p] a by blast
    note f = first_not_held_index [OF wf b p d]
    have "batch_after (le_index e - 1) (e # rest)"
      using b takeWhile_dropWhile_id [of "\<lambda>e. \<not> not_held l e" es]
      by (metis d batch_after_append batch_after_Cons diff_Suc_1)
    moreover have "snapshot_index l + length (take (le_index e - Suc (snapshot_index l)) (rl_entries l))
        = le_index e - 1"
      using f by (auto simp: last_index_wf [OF wf])
    ultimately show ?thesis using wf batch_after_take [of "snapshot_index l" "rl_entries l"]
      by (simp only: log_wf_batch en si batch_after_append)
  next
    case 3
    then show ?thesis using a wf truncate_from_wf [OF wf]
      by (fastforce simp: append_entries_def Let_def
          split: list.splits if_splits sum.splits prod.splits)
  qed
qed

text \<open>
  The written form of the overwrite rule: below the first entry not held nothing moves, from it on
  the log is the batch.
\<close>

lemma append_entries_True_entry_at:
  assumes wf: "log_wf l" and b: "batch_after p es" and p: "p \<le> last_index l"
    and a: "append_entries ops l q es = (Inr True, l')"
    and d: "dropWhile (\<lambda>e. \<not> not_held l e) es = e # rest"
  shows "i < le_index e \<Longrightarrow> entry_at l' i = entry_at l i"
    and "x \<in> set (e # rest) \<Longrightarrow> entry_at l' (le_index x) = Some x"
    and "last_index l' = p + length es"
proof -
  from append_entries_True [OF wf b p a] d
  have en: "rl_entries l' = take (le_index e - Suc (snapshot_index l)) (rl_entries l) @ e # rest"
    and si: "snapshot_index l' = snapshot_index l" by auto
  note f = first_not_held_index [OF wf b p d]
  note wf' = append_entries_wf [OF wf b p a]
  have k: "length (take (le_index e - Suc (snapshot_index l)) (rl_entries l)) = le_index e - Suc (snapshot_index l)"
    using f by (auto simp: last_index_wf [OF wf])
  show "i < le_index e \<Longrightarrow> entry_at l' i = entry_at l i"
    using f k by (auto simp: entry_at_wf [OF wf] entry_at_wf [OF wf'] en si nth_append last_index_wf [OF wf])
  have bn: "batch_after (le_index e - 1) (e # rest)"
    using b takeWhile_dropWhile_id [of "\<lambda>e. \<not> not_held l e" es]
    by (metis d batch_after_append batch_after_Cons diff_Suc_1)
  show "entry_at l' (le_index x) = Some x" if "x \<in> set (e # rest)"
  proof -
    from that obtain j where j: "j < length (e # rest)" "x = (e # rest) ! j"
      unfolding in_set_conv_nth by blast
    then have "le_index x = le_index e + j"
      using batch_after_nth [OF bn] f by fastforce
    then show ?thesis using f j k
      by (auto simp: entry_at_wf [OF wf'] en si nth_append)
  qed
  have "es = takeWhile (\<lambda>e. \<not> not_held l e) es @ e # rest"
    using d by (metis takeWhile_dropWhile_id)
  then have "le_index e = Suc (p + length (takeWhile (\<lambda>e. \<not> not_held l e) es))"
    and "length es = length (takeWhile (\<lambda>e. \<not> not_held l e) es) + Suc (length rest)"
    using b by (metis batch_after_append batch_after_Cons, metis length_append length_Cons)
  then show "last_index l' = p + length es"
    using f k by (simp add: last_index_wf [OF wf'] en si)
qed

lemma append_entries_held_after:
  assumes wf: "log_wf l" and b: "batch_after p es" and p: "p \<le> last_index l"
    and a: "append_entries ops l q es = (Inr w, l')" and x: "x \<in> set es"
    and gt: "snapshot_index l < le_index x"
  shows "\<exists>y. entry_at l' (le_index x) = Some y \<and> le_term y = le_term x"
proof (cases w)
  case False
  then show ?thesis using append_entries_False a not_held_wf [OF wf, of x] x gt by fastforce
next
  case True
  with a have a': "append_entries ops l q es = (Inr True, l')" by simp
  then obtain e rest where d: "dropWhile (\<lambda>e. \<not> not_held l e) es = e # rest"
    using append_entries_True [OF wf b p] by blast
  have es: "es = takeWhile (\<lambda>e. \<not> not_held l e) es @ e # rest"
    using d by (metis takeWhile_dropWhile_id)
  show ?thesis
  proof (cases "x \<in> set (e # rest)")
    case True
    then show ?thesis using append_entries_True_entry_at(2) [OF wf b p a' d] by blast
  next
    case False
    then have x': "x \<in> set (takeWhile (\<lambda>e. \<not> not_held l e) es)" using x es
      by (metis Un_iff set_append)
    then have "\<not> not_held l x" by (auto dest: set_takeWhileD)
    then obtain y where "entry_at l (le_index x) = Some y" "le_term y = le_term x"
      using not_held_wf [OF wf] gt by fastforce
    moreover have "le_index x < le_index e"
    proof -
      have "batch_after p (takeWhile (\<lambda>e. \<not> not_held l e) es)"
        and "le_index e = Suc (p + length (takeWhile (\<lambda>e. \<not> not_held l e) es))"
        using b es by (metis batch_after_append, metis batch_after_append batch_after_Cons)
      then show ?thesis using batch_after_set x' by fastforce
    qed
    ultimately show ?thesis using append_entries_True_entry_at(1) [OF wf b p a' d] by simp
  qed
qed

lemma dropWhile_empty_iff: "dropWhile (\<lambda>x. \<not> P x) xs = [] \<longleftrightarrow> (\<forall>x\<in>set xs. \<not> P x)"
  by (induction xs) auto

lemma append_entries_result_iff:
  assumes "append_entries ops l q es = (Inr w, l')"
  shows "w \<longleftrightarrow> (\<exists>e\<in>set es. not_held l e)"
proof -
  have "w \<longleftrightarrow> dropWhile (\<lambda>e. \<not> not_held l e) es \<noteq> []"
    using assms by (auto simp: append_entries_def Let_def simp del: dropWhile_eq_Nil_conv
        split: list.splits if_splits sum.splits prod.splits)
  then show ?thesis by (simp only: dropWhile_empty_iff) blast
qed

lemma append_entries_again:
  assumes wf: "log_wf l" and b: "batch_after p es" and p: "p \<le> last_index l"
    and a: "append_entries ops l q es = (Inr w, l')"
  shows "append_entries ops l' q es = (Inr False, l')"
proof -
  have si: "snapshot_index l' = snapshot_index l"
    using a append_entries_False [of ops l q es l'] append_entries_True [OF wf b p, of ops q l'] by (cases w) auto
  have "\<not> not_held l' x" if "x \<in> set es" for x
  proof (cases "snapshot_index l < le_index x")
    case True
    then show ?thesis using append_entries_held_after [OF wf b p a that] si by (auto simp: not_held_def)
  next
    case False
    then show ?thesis by (simp add: not_held_def si)
  qed
  then have "dropWhile (\<lambda>e. \<not> not_held l' e) es = []" by (simp only: dropWhile_empty_iff) blast
  then show ?thesis unfolding append_entries_def by (simp only: list.case)
qed

section \<open>Batches\<close>

lemma entries_range_slice:
  assumes "snapshot_index l < lo" and "lo \<le> hi" and "lo \<le> last_index l"
  shows "entries_range l lo hi =
     Inr (drop (lo - snapshot_index l - 1) (take (min hi (last_index l) - snapshot_index l) (rl_entries l)))"
proof -
  have "Suc (min hi (last_index l) - snapshot_index l - 1) = min hi (last_index l) - snapshot_index l"
    using assms by auto
  then show ?thesis using assms by (simp add: entries_range_def Let_def)
qed

lemma entries_range_wf:
  assumes "log_wf l" and "entries_range l lo hi = Inr es"
  shows "es = filter (\<lambda>e. lo \<le> le_index e \<and> le_index e \<le> hi) (rl_entries l)"
proof -
  let ?E = "rl_entries l" and ?si = "snapshot_index l"
  have lo: "?si < lo" using assms(2) by (auto simp: entries_range_def split: if_splits)
  have b: "batch_after ?si ?E" using assms(1) by (simp add: log_wf_batch)
  have "filter (\<lambda>e. lo \<le> le_index e \<and> le_index e \<le> hi) ?E
      = filter (\<lambda>e. le_index e < Suc hi) (filter (\<lambda>e. lo - 1 < le_index e) ?E)"
    using lo by (auto simp: less_Suc_eq_le intro!: filter_cong)
  also have "\<dots> = filter (\<lambda>e. le_index e < Suc hi) (drop (lo - 1 - ?si) ?E)"
    using batch_after_filter_gt [OF b, of "lo - 1"] lo by simp
  also have "\<dots> = take (hi + 1 - lo) (drop (lo - 1 - ?si) ?E)"
  proof (cases "lo - 1 - ?si \<le> length ?E")
    case True
    then show ?thesis using batch_after_filter_lt [OF batch_after_drop [OF b True], of "Suc hi"] lo by simp
  next
    case False
    then show ?thesis by simp
  qed
  finally have f: "filter (\<lambda>e. lo \<le> le_index e \<and> le_index e \<le> hi) ?E
      = take (hi + 1 - lo) (drop (lo - 1 - ?si) ?E)" .
  show ?thesis
  proof (cases "lo > hi \<or> lo > last_index l")
    case True
    then have "es = []" using assms(2) lo by (auto simp: entries_range_def split: if_splits)
    then show ?thesis using f True lo by (auto simp: last_index_wf [OF assms(1)])
  next
    case False
    then have "es = drop (lo - ?si - 1) (take (min hi (last_index l) - ?si) ?E)"
      using assms(2) lo entries_range_slice [of l lo hi] by auto
    also have "\<dots> = take (min hi (last_index l) - ?si - (lo - ?si - 1)) (drop (lo - ?si - 1) ?E)"
      by (simp add: drop_take)
    also have "\<dots> = take (hi + 1 - lo) (drop (lo - 1 - ?si) ?E)"
      using False lo by (auto simp: last_index_wf [OF assms(1)] min_def intro!: take_all)
    finally show ?thesis using f by simp
  qed
qed

lemma entries_range_batch:
  assumes "log_wf l" and "entries_range l lo hi = Inr es"
  shows "batch_after (lo - 1) es"
proof (cases "lo > hi \<or> lo > last_index l")
  case True
  then show ?thesis using assms by (auto simp: entries_range_def split: if_splits)
next
  case False
  have lo: "snapshot_index l < lo" using assms(2) by (auto simp: entries_range_def split: if_splits)
  have "batch_after (snapshot_index l + (lo - snapshot_index l - 1))
      (drop (lo - snapshot_index l - 1) (take (min hi (last_index l) - snapshot_index l) (rl_entries l)))"
    using False lo assms(1)
    by (intro batch_after_drop batch_after_take) (auto simp: log_wf_batch last_index_wf [OF assms(1)])
  then show ?thesis using False lo assms(2) entries_range_slice [of l lo hi] by auto
qed

lemma entries_range_length:
  assumes "log_wf l" and "snapshot_index l < lo" and "hi \<le> last_index l" and "entries_range l lo hi = Inr es"
  shows "length es = Suc hi - lo"
  using assms by (auto simp: entries_range_def Let_def last_index_wf [OF assms(1)] split: if_splits)

lemma within_count_bounds:
  "n \<le> within_count m t n es \<and> within_count m t n es \<le> n + length es"
  by (induction m t n es rule: within_count.induct) (auto simp: Let_def)

lemma within_count_pos: "es \<noteq> [] \<Longrightarrow> 0 < within_count m t 0 es"
  using within_count_bounds [of "Suc 0" m _ "tl es"] by (cases es) (auto simp: Let_def Suc_le_eq)

text \<open>Total payload bytes, saturating as the code's \<open>usize\<close> sum does.\<close>

definition batch_bytes :: "log_entry list \<Rightarrow> nat" where
  "batch_bytes es = sum_list (map (\<lambda>e. length (le_data e)) es)"

lemma within_count_budget:
  assumes "m < u64_max" and "tot \<le> m" and "within_count m tot n es = n + k" and "n > 0"
  shows "tot + batch_bytes (take k es) \<le> m \<and> (k < length es \<longrightarrow> m < tot + batch_bytes (take (Suc k) es))"
  using assms
proof (induction m tot n es arbitrary: k rule: within_count.induct)
  case (1 m tot n)
  then show ?case by (simp add: batch_bytes_def)
next
  case (2 m tot n e es)
  show ?case
  proof (cases "m < sat_add_u64 tot (length (le_data e))")
    case True
    then have "k = 0" using 2 by (simp add: Let_def)
    then show ?thesis using True 2 by (auto simp: batch_bytes_def sat_add_u64_def)
  next
    case False
    then have s: "sat_add_u64 tot (length (le_data e)) = tot + length (le_data e)"
      using 2 by (auto simp: sat_add_u64_def min_def split: if_splits)
    then have w: "within_count m (tot + length (le_data e)) (n + 1) es = n + k"
      using False 2 by (simp add: Let_def)
    then obtain j where "k = Suc j"
      using within_count_bounds [of "n + 1" m "tot + length (le_data e)" es] by (cases k) auto
    then show ?thesis using 2(1) [OF refl, of j] False s w 2 by (simp add: batch_bytes_def add.assoc)
  qed
qed

lemma within_count_batch:
  assumes "m < u64_max" and "es \<noteq> []" and "\<forall>e\<in>set es. length (le_data e) < u64_max"
  shows "0 < within_count m 0 0 es \<and> within_count m 0 0 es \<le> length es \<and>
     (1 < within_count m 0 0 es \<longrightarrow> batch_bytes (take (within_count m 0 0 es) es) \<le> m) \<and>
     (within_count m 0 0 es < length es \<longrightarrow> m < batch_bytes (take (Suc (within_count m 0 0 es)) es))"
proof -
  obtain e xs where es: "es = e # xs" using assms(2) by (cases es) auto
  let ?d = "length (le_data e)" and ?k = "within_count m (sat_add_u64 0 (length (le_data e))) 1 xs"
  have s: "sat_add_u64 0 ?d = ?d" using assms(3) by (simp add: es sat_add_u64_def)
  have w: "within_count m 0 0 es = ?k" by (simp add: es)
  have b: "1 \<le> ?k" "?k \<le> 1 + length xs" using within_count_bounds [of 1 m _ xs] by auto
  show ?thesis
  proof (cases "?d \<le> m")
    case True
    then show ?thesis using within_count_budget [OF assms(1) True, of 1 xs "?k - 1"] b s w
      by (cases ?k) (auto simp: es batch_bytes_def)
  next
    case False
    then have "?k = 1" using assms(1) by (cases xs) (auto simp: s sat_add_u64_def min_def)
    then show ?thesis using False w by (cases xs) (auto simp: es batch_bytes_def)
  qed
qed

section \<open>Memory and storage agree\<close>

text \<open>
  \<open>log_synced\<close>: storage holds exactly the entries and boundary that memory claims. Every log
  operation keeps it, whether the storage call succeeds or fails.
\<close>

definition log_synced :: "'s storage_ops \<Rightarrow> ('s \<Rightarrow> log_entry list) \<Rightarrow> 's raft_log \<Rightarrow> bool" where
  "log_synced ops held l \<longleftrightarrow> held (rl_storage l) = rl_entries l \<and>
     so_snapshot_metadata ops (rl_storage l) = (snapshot_index l, snapshot_term l)"

context log_storage
begin

lemma synced_truncate:
  assumes "log_wf l" and "log_synced ops held l" and "truncate_from ops l i = (r, l')"
  shows "log_synced ops held l'"
proof -
  have "filter (\<lambda>e. le_index e < i) (rl_entries l) = take (i - snapshot_index l - 1) (rl_entries l)"
    using batch_after_filter_lt [of "snapshot_index l" "rl_entries l" i] assms(1) by (simp add: log_wf_batch)
  then show ?thesis using assms(2,3)
    by (auto simp: truncate_from_def log_synced_def
        dest: truncate_held truncate_keeps truncate_failed split: if_splits sum.splits prod.splits)
qed

lemma synced_append_new:
  assumes "log_synced ops held l" and "fresh_indices (rl_entries l) es"
    and "so_append ops (rl_storage l) es = (r, s)"
  shows "log_synced ops held (l\<lparr>rl_storage := s,
           rl_entries := rl_entries l @ (case r of Inl _ \<Rightarrow> [] | Inr _ \<Rightarrow> es)\<rparr>)"
  using assms append_keeps [OF assms(3)]
  by (auto simp: log_synced_def dest: append_held append_failed split: sum.splits)

lemma synced_log_append:
  assumes "log_wf l" and "log_synced ops held l" and "le_index e = Suc (last_index l)"
    and "log_append ops l e = (r, l')"
  shows "log_synced ops held l'"
proof -
  have "fresh_indices (rl_entries l) [e]"
    using assms(1,3) batch_after_set [of "snapshot_index l" "rl_entries l"]
    by (fastforce simp: fresh_indices_def log_wf_batch last_index_wf [OF assms(1)])
  moreover obtain r' s where "so_append ops (rl_storage l) [e] = (r', s)" by fastforce
  ultimately show ?thesis using synced_append_new [OF assms(2), of "[e]"] assms(4)
    by (auto simp: log_append_def split: sum.splits)
qed

lemma synced_apply_snapshot:
  assumes "log_synced ops held l" and "apply_snapshot ops l i t = (r, l')"
  shows "log_synced ops held l'"
  using assms by (auto simp: apply_snapshot_def log_synced_def Suc_le_eq
      dest: compact_held compact_failed split: if_splits sum.splits prod.splits)

lemma synced_append_entries:
  assumes wf: "log_wf l" and sy: "log_synced ops held l" and b: "batch_after p es" and p: "p \<le> last_index l"
    and a: "append_entries ops l q es = (r, l')"
  shows "log_synced ops held l'"
proof (cases "dropWhile (\<lambda>e. \<not> not_held l e) es")
  case Nil
  then show ?thesis using a sy unfolding append_entries_def by (simp only: Nil list.case prod.inject)
next
  case (Cons e rest)
  define t where "t = (if entry_at l (le_index e) \<noteq> None then truncate_from ops l (le_index e) else (Inr (), l))"
  obtain rt l1 where t1: "t = (rt, l1)" by fastforce
  have sy1: "log_synced ops held l1" and wf1: "log_wf l1"
    using t1 wf sy synced_truncate [OF wf sy] truncate_from_wf [OF wf]
    by (auto simp: t_def split: if_splits)
  note f = first_not_held_index [OF wf b p Cons]
  have fr: "fresh_indices (rl_entries l1) (e # rest)" if "rt = Inr ()"
  proof -
    have bn: "batch_after (le_index e - 1) (e # rest)"
      using b takeWhile_dropWhile_id [of "\<lambda>e. \<not> not_held l e" es]
      by (metis Cons batch_after_append batch_after_Cons diff_Suc_1)
    have si1: "snapshot_index l1 = snapshot_index l"
      using t1 truncate_from_snapshot [of ops l "le_index e"] by (auto simp: t_def split: if_splits)
    have len: "snapshot_index l + length (rl_entries l1) < le_index e"
      using t1 that f wf
      by (auto simp: t_def truncate_from_def entry_at_wf last_index_wf split: if_splits sum.splits prod.splits)
    have "\<forall>x\<in>set (rl_entries l1). le_index x < le_index e"
      using batch_after_set [of "snapshot_index l1" "rl_entries l1"] wf1 si1 len by (fastforce simp: log_wf_batch)
    moreover have "\<forall>x\<in>set (e # rest). le_index e \<le> le_index x"
      using batch_after_set [OF bn] f by (metis Suc_leI Suc_pred' gr_zeroI not_less0)
    ultimately show ?thesis using batch_after_distinct [OF bn] by (fastforce simp: fresh_indices_def)
  qed
  obtain ra s where ap: "so_append ops (rl_storage l1) (e # rest) = (ra, s)" by fastforce
  show ?thesis
  proof (cases rt)
    case (Inl err)
    then show ?thesis using a sy1 t1 unfolding append_entries_def t_def by (simp add: Cons)
  next
    case (Inr u)
    then have "log_synced ops held (l1\<lparr>rl_storage := s,
        rl_entries := rl_entries l1 @ (case ra of Inl _ \<Rightarrow> [] | Inr _ \<Rightarrow> e # rest)\<rparr>)"
      using synced_append_new [OF sy1 fr ap] by simp
    then show ?thesis using a t1 Inr ap unfolding append_entries_def t_def
      by (auto simp: Cons Let_def split: sum.splits)
  qed
qed

text \<open>A restart after a crash rebuilds the log memory had.\<close>

lemma restore_synced:
  assumes "log_wf l" and "log_synced ops held l"
    and "raft_log_restore ops (raft_log_new (rl_storage l)) = (Inr u, l')"
  shows "l' = l"
proof -
  have "filter (\<lambda>e. snapshot_index l < le_index e) (rl_entries l) = rl_entries l"
    using batch_after_filter_gt [of "snapshot_index l" "rl_entries l" "snapshot_index l"] assms(1)
    by (simp add: log_wf_batch)
  then show ?thesis using assms(2,3)
    by (auto simp: raft_log_restore_def raft_log_new_def log_synced_def Let_def
        dest!: load_held split: sum.splits)
qed

end

end
