(* ===== verification/Raft_Leader_State.thy ===== *)
theory Raft_Leader_State
  imports Raft_Types
begin

text \<open>
  The leader's per-peer replication tracking (\<open>LeaderState\<close> and \<open>ObserverState\<close> of
  \<open>nodedb-raft/src/state.rs\<close>). The vectors are association lists in insertion order; lookups read
  the first match and updates never add a peer. Shown here: lookups after updates, and that the
  three per-peer vectors always track the same peers.
\<close>

record observer_state =
  os_next_index :: u64
  os_match_index :: u64
  pending_count :: nat

definition MAX_PENDING :: nat where
  "MAX_PENDING = 256"

record leader_state =
  next_index :: "(node_id \<times> u64) list"
  match_index :: "(node_id \<times> u64) list"
  observer_states :: "(node_id \<times> observer_state) list"
  ack_count :: "(node_id \<times> u64) list"
  peer_states :: "node_id \<rightharpoonup> replica_state"

definition observer_state_init :: "u64 \<Rightarrow> observer_state" where
  "observer_state_init last_log_index =
     \<lparr>os_next_index = last_log_index + 1, os_match_index = 0, pending_count = 0\<rparr>"

definition leader_state_new :: "node_id list \<Rightarrow> node_id list \<Rightarrow> u64 \<Rightarrow> leader_state" where
  "leader_state_new ps obs last_log_index =
     \<lparr>next_index = map (\<lambda>i. (i, last_log_index + 1)) ps,
      match_index = map (\<lambda>i. (i, 0)) ps,
      observer_states = map (\<lambda>i. (i, observer_state_init last_log_index)) obs,
      ack_count = map (\<lambda>i. (i, 0)) ps,
      peer_states = Map.empty\<rparr>"

definition next_index_for :: "leader_state \<Rightarrow> node_id \<Rightarrow> u64" where
  "next_index_for ls peer = get_or 1 (next_index ls) peer"

definition set_next_index :: "node_id \<Rightarrow> u64 \<Rightarrow> leader_state \<Rightarrow> leader_state" where
  "set_next_index peer index ls = ls\<lparr>next_index := assoc_modify peer (\<lambda>_. index) (next_index ls)\<rparr>"

definition ls_match_index_for :: "leader_state \<Rightarrow> node_id \<Rightarrow> u64" where
  "ls_match_index_for ls peer = get_or 0 (match_index ls) peer"

definition set_match_index :: "node_id \<Rightarrow> u64 \<Rightarrow> leader_state \<Rightarrow> leader_state" where
  "set_match_index peer index ls = ls\<lparr>match_index := assoc_modify peer (\<lambda>_. index) (match_index ls)\<rparr>"

definition ls_add_peer :: "node_id \<Rightarrow> u64 \<Rightarrow> leader_state \<Rightarrow> leader_state" where
  "ls_add_peer peer last_log_index ls =
     (if peer \<in> fst ` set (next_index ls) then ls
      else ls\<lparr>next_index := next_index ls @ [(peer, last_log_index + 1)],
              match_index := match_index ls @ [(peer, 0)],
              ack_count := ack_count ls @ [(peer, 0)]\<rparr>)"

definition ls_remove_peer :: "node_id \<Rightarrow> leader_state \<Rightarrow> leader_state" where
  "ls_remove_peer peer ls =
     ls\<lparr>next_index := filter (\<lambda>(i, _). i \<noteq> peer) (next_index ls),
        match_index := filter (\<lambda>(i, _). i \<noteq> peer) (match_index ls),
        ack_count := filter (\<lambda>(i, _). i \<noteq> peer) (ack_count ls),
        peer_states := (peer_states ls)(peer := None)\<rparr>"

definition ack_count_for :: "leader_state \<Rightarrow> node_id \<Rightarrow> u64" where
  "ack_count_for ls peer = get_or 0 (ack_count ls) peer"

definition record_ack :: "node_id \<Rightarrow> leader_state \<Rightarrow> leader_state" where
  "record_ack peer ls = ls\<lparr>ack_count := assoc_modify peer (\<lambda>n. sat_add_u64 n 1) (ack_count ls)\<rparr>"

definition ls_peers :: "leader_state \<Rightarrow> node_id list" where
  "ls_peers ls = map fst (next_index ls)"

definition add_observer :: "node_id \<Rightarrow> u64 \<Rightarrow> leader_state \<Rightarrow> leader_state" where
  "add_observer obs last_log_index ls =
     (if obs \<in> fst ` set (observer_states ls) then ls
      else ls\<lparr>observer_states := observer_states ls @ [(obs, observer_state_init last_log_index)]\<rparr>)"

definition remove_observer :: "node_id \<Rightarrow> leader_state \<Rightarrow> leader_state" where
  "remove_observer obs ls = ls\<lparr>observer_states := filter (\<lambda>(i, _). i \<noteq> obs) (observer_states ls)\<rparr>"

text \<open>Writing through \<open>observer_state_mut\<close>.\<close>

definition observer_state_mut ::
  "node_id \<Rightarrow> (observer_state \<Rightarrow> observer_state) \<Rightarrow> leader_state \<Rightarrow> leader_state" where
  "observer_state_mut obs f ls = ls\<lparr>observer_states := assoc_modify obs f (observer_states ls)\<rparr>"

definition observer_can_receive :: "leader_state \<Rightarrow> node_id \<Rightarrow> bool" where
  "observer_can_receive ls obs =
     (case map_of (observer_states ls) obs of None \<Rightarrow> False | Some st \<Rightarrow> pending_count st < MAX_PENDING)"

section \<open>Reads after writes\<close>

definition tracking_wf :: "leader_state \<Rightarrow> bool" where
  "tracking_wf ls \<longleftrightarrow> distinct (map fst (next_index ls)) \<and>
     map fst (match_index ls) = map fst (next_index ls) \<and> map fst (ack_count ls) = map fst (next_index ls)"

lemma tracking_wf_same_keys:
  "tracking_wf ls \<Longrightarrow> fst ` set (match_index ls) = set (ls_peers ls) \<and>
     fst ` set (ack_count ls) = set (ls_peers ls) \<and> fst ` set (next_index ls) = set (ls_peers ls)"
  unfolding tracking_wf_def ls_peers_def by (metis list.set_map)

lemma tracking_wf_new: "distinct ps \<Longrightarrow> tracking_wf (leader_state_new ps obs n)"
  by (simp add: tracking_wf_def leader_state_new_def o_def)

lemma map_fst_filter_key: "map fst (filter (\<lambda>(i, _). i \<noteq> k) xs) = filter (\<lambda>i. i \<noteq> k) (map fst xs)"
  by (induction xs) auto

lemma tracking_wf_updates [simp]:
  "tracking_wf (set_next_index p i ls) = tracking_wf ls"
  "tracking_wf (set_match_index p i ls) = tracking_wf ls"
  "tracking_wf (record_ack p ls) = tracking_wf ls"
  "tracking_wf (observer_state_mut p f ls) = tracking_wf ls"
  "tracking_wf (ls\<lparr>peer_states := m\<rparr>) = tracking_wf ls"
  by (simp_all add: tracking_wf_def set_next_index_def set_match_index_def record_ack_def observer_state_mut_def)

lemma tracking_wf_add: "tracking_wf ls \<Longrightarrow> tracking_wf (ls_add_peer p n ls)"
  by (auto simp: tracking_wf_def ls_add_peer_def image_iff)

lemma tracking_wf_remove: "tracking_wf ls \<Longrightarrow> tracking_wf (ls_remove_peer p ls)"
  by (simp add: tracking_wf_def ls_remove_peer_def map_fst_filter_key)

lemma ls_peers_updates [simp]:
  "ls_peers (set_next_index p i ls) = ls_peers ls"
  "ls_peers (set_match_index p i ls) = ls_peers ls"
  "ls_peers (record_ack p ls) = ls_peers ls"
  "ls_peers (observer_state_mut p f ls) = ls_peers ls"
  "ls_peers (ls\<lparr>peer_states := m\<rparr>) = ls_peers ls"
  "ls_peers (leader_state_new ps obs n) = ps"
  by (simp_all add: ls_peers_def set_next_index_def set_match_index_def record_ack_def
      observer_state_mut_def leader_state_new_def o_def)

lemma set_ls_peers_add [simp]: "set (ls_peers (ls_add_peer p n ls)) = insert p (set (ls_peers ls))"
  by (auto simp: ls_peers_def ls_add_peer_def)

lemma set_ls_peers_remove [simp]: "set (ls_peers (ls_remove_peer p ls)) = set (ls_peers ls) - {p}"
  by (auto simp: ls_peers_def ls_remove_peer_def map_fst_filter_key simp del: list.set_map)

lemma match_index_set [simp]:
  "tracking_wf ls \<Longrightarrow> ls_match_index_for (set_match_index p i ls) q =
     (if q = p \<and> p \<in> set (ls_peers ls) then i else ls_match_index_for ls q)"
  using tracking_wf_same_keys [of ls] by (simp add: ls_match_index_for_def set_match_index_def)

lemma next_index_set [simp]:
  "next_index_for (set_next_index p i ls) q =
     (if q = p \<and> p \<in> set (ls_peers ls) then i else next_index_for ls q)"
  by (simp add: next_index_for_def set_next_index_def ls_peers_def)

lemma index_frames [simp]:
  "ls_match_index_for (set_next_index p i ls) q = ls_match_index_for ls q"
  "ls_match_index_for (record_ack p ls) q = ls_match_index_for ls q"
  "ls_match_index_for (observer_state_mut p f ls) q = ls_match_index_for ls q"
  "ls_match_index_for (ls\<lparr>peer_states := m\<rparr>) q = ls_match_index_for ls q"
  "next_index_for (set_match_index p i ls) q = next_index_for ls q"
  "next_index_for (record_ack p ls) q = next_index_for ls q"
  "next_index_for (observer_state_mut p f ls) q = next_index_for ls q"
  "next_index_for (ls\<lparr>peer_states := m\<rparr>) q = next_index_for ls q"
  by (simp_all add: ls_match_index_for_def next_index_for_def set_match_index_def set_next_index_def
      record_ack_def observer_state_mut_def)

lemma match_index_new [simp]: "ls_match_index_for (leader_state_new ps obs n) q = 0"
  by (simp add: ls_match_index_for_def leader_state_new_def)

lemma next_index_new:
  "next_index_for (leader_state_new ps obs n) q = (if q \<in> set ps then n + 1 else 1)"
  by (simp add: next_index_for_def leader_state_new_def)

lemma match_index_add: "ls_match_index_for (ls_add_peer p n ls) q = ls_match_index_for ls q"
  by (auto simp: ls_match_index_for_def ls_add_peer_def get_or_def map_add_def split: option.splits)

lemma match_index_remove:
  "ls_match_index_for (ls_remove_peer p ls) q = (if q = p then 0 else ls_match_index_for ls q)"
  by (simp add: ls_match_index_for_def ls_remove_peer_def get_or_def map_of_filter_key)

end
