(* ===== verification/Raft_Lease.thy ===== *)
theory Raft_Lease
  imports Raft_Types
begin

text \<open>
  Lease rounds and the lease anchor (\<open>LeaseState\<close> of
  \<open>nodedb-raft/src/node/leader_lease.rs\<close>). Each \<open>AppendEntries\<close> carries a round; \<open>sent\<close>
  remembers the send time of every round no quorum has covered yet. Shown here: the pending rounds
  are strictly ascending and belong to the current term, and the anchor is always the send time of
  a round that was settled, never a later instant.
\<close>

definition UNTRACKED_ROUND :: u64 where
  "UNTRACKED_ROUND = 0"

definition MAX_PENDING_ROUNDS :: nat where
  "MAX_PENDING_ROUNDS = 4096"

record lease_state =
  next_round :: u64
  term_first_round :: u64
  sent :: "(u64 \<times> instant) list"
  anchor :: "instant option"
  revoked :: bool

definition lease_new :: lease_state where
  "lease_new = \<lparr>next_round = UNTRACKED_ROUND + 1, term_first_round = UNTRACKED_ROUND + 1,
     sent = [], anchor = None, revoked = False\<rparr>"

definition begin_term :: "lease_state \<Rightarrow> lease_state" where
  "begin_term s = s\<lparr>term_first_round := next_round s, sent := [], anchor := None, revoked := False\<rparr>"

definition stamp :: "instant \<Rightarrow> lease_state \<Rightarrow> u64 \<times> lease_state" where
  "stamp now s =
     (let round = next_round s;
          s1 = s\<lparr>next_round := sat_add_u64 (next_round s) 1\<rparr>;
          pending = (if length (sent s1) \<ge> MAX_PENDING_ROUNDS then tl (sent s1) else sent s1)
      in (round, s1\<lparr>sent := pending @ [(round, now)]\<rparr>))"

definition is_current :: "lease_state \<Rightarrow> u64 \<Rightarrow> bool" where
  "is_current s round \<longleftrightarrow> round \<ge> term_first_round s \<and> round < next_round s"

text \<open>
  \<open>binary_search_by_key\<close> on \<open>sent\<close>, whose rounds are strictly ascending (\<open>lease_wf\<close>):
  the entry with the round, if any, and what follows it.
\<close>

definition search_round :: "u64 \<Rightarrow> (u64 \<times> instant) list \<Rightarrow> (instant \<times> (u64 \<times> instant) list) option" where
  "search_round round xs =
     (case dropWhile (\<lambda>(r, _). r \<noteq> round) xs of [] \<Rightarrow> None | (_, at) # rest \<Rightarrow> Some (at, rest))"

definition settle :: "u64 \<Rightarrow> lease_state \<Rightarrow> instant option \<times> lease_state" where
  "settle round s =
     (case search_round round (sent s) of
        None \<Rightarrow> (anchor s, s)
      | Some (sent_at, rest) \<Rightarrow>
          let a = (case anchor s of None \<Rightarrow> Some sent_at
                   | Some old \<Rightarrow> if sent_at > old then Some sent_at else Some old)
          in (a, s\<lparr>anchor := a, sent := rest\<rparr>))"

definition revoke :: "lease_state \<Rightarrow> lease_state" where
  "revoke s = s\<lparr>revoked := True\<rparr>"

definition clear_anchor :: "lease_state \<Rightarrow> lease_state" where
  "clear_anchor s = s\<lparr>anchor := None\<rparr>"

definition expires_at :: "lease_state \<Rightarrow> duration \<Rightarrow> instant option" where
  "expires_at s d = (if revoked s then None else map_option (\<lambda>a. a + d) (anchor s))"

section \<open>Rounds\<close>

definition lease_wf :: "lease_state \<Rightarrow> bool" where
  "lease_wf s \<longleftrightarrow> UNTRACKED_ROUND < term_first_round s \<and> term_first_round s \<le> next_round s \<and>
     sorted_wrt (<) (map fst (sent s)) \<and> (\<forall>(r, _)\<in>set (sent s). is_current s r)"

lemma lease_wf_new: "lease_wf lease_new"
  by (simp add: lease_wf_def lease_new_def UNTRACKED_ROUND_def)

lemma lease_wf_begin_term: "lease_wf s \<Longrightarrow> lease_wf (begin_term s)"
  by (auto simp: lease_wf_def begin_term_def)

lemma sorted_wrt_tl: "sorted_wrt R xs \<Longrightarrow> sorted_wrt R (tl xs)"
  by (cases xs) auto

lemma lease_wf_stamp:
  assumes "lease_wf s" and "next_round s < u64_max" and "stamp now s = (r, s')"
  shows "lease_wf s' \<and> r = next_round s \<and> is_current s' r"
proof -
  define pending where "pending = (if length (sent s) \<ge> MAX_PENDING_ROUNDS then tl (sent s) else sent s)"
  have sub: "set pending \<subseteq> set (sent s)" by (cases "sent s") (auto simp: pending_def)
  have srt: "sorted_wrt (<) (map fst pending)"
    using assms(1) by (simp add: pending_def lease_wf_def map_tl sorted_wrt_tl)
  have lt: "\<forall>(q, _)\<in>set pending. term_first_round s \<le> q \<and> q < next_round s"
    using assms(1) sub by (auto simp: lease_wf_def is_current_def)
  have s': "s' = s\<lparr>next_round := Suc (next_round s), sent := pending @ [(next_round s, now)]\<rparr>"
    and r: "r = next_round s"
    using assms(2,3) by (auto simp: stamp_def Let_def pending_def sat_add_u64_def min_def)
  have "sorted_wrt (<) (map fst (pending @ [(next_round s, now)]))"
    using srt lt by (auto simp: sorted_wrt_append)
  then show ?thesis using assms(1) lt
    by (fastforce simp: s' r lease_wf_def is_current_def)
qed

lemma search_round_Some:
  assumes "search_round r xs = Some (at, rest)"
  shows "\<exists>pre. xs = pre @ (r, at) # rest \<and> r \<notin> fst ` set pre"
proof -
  let ?P = "\<lambda>(q, _). q \<noteq> r"
  from assms obtain q where d: "dropWhile ?P xs = (q, at) # rest"
    by (auto simp: search_round_def split: list.splits)
  then have "q = r" using hd_dropWhile [of ?P xs] by simp
  then have "xs = takeWhile ?P xs @ (r, at) # rest" using d by (metis takeWhile_dropWhile_id)
  moreover have "r \<notin> fst ` set (takeWhile ?P xs)" by (auto dest: set_takeWhileD)
  ultimately show ?thesis by blast
qed

lemma lease_wf_settle: "lease_wf s \<Longrightarrow> lease_wf (snd (settle r s))"
  by (auto simp: lease_wf_def settle_def is_current_def Let_def sorted_wrt_append
      dest!: search_round_Some split: option.splits)

lemma lease_wf_flags [simp]:
  "lease_wf (revoke s) = lease_wf s" "lease_wf (clear_anchor s) = lease_wf s"
  by (simp_all add: lease_wf_def revoke_def clear_anchor_def is_current_def)

text \<open>The anchor only ever moves to the send time of the settled round.\<close>

lemma settle_anchor:
  assumes "settle r s = (a, s')"
  shows "a = anchor s' \<and> (anchor s' = anchor s \<or> (\<exists>at. (r, at) \<in> set (sent s) \<and> anchor s' = Some at))"
  using assms
  by (auto simp: settle_def Let_def dest!: search_round_Some split: option.splits if_splits)

end
