(* ===== verification/Raft_Node.thy ===== *)
theory Raft_Node
  imports Raft_Log Raft_Leader_State Raft_Lease
begin

text \<open>
  One Raft group's node: the \<open>RaftNode\<close> and \<open>Ready\<close> structs with their constructor, restart and
  accessors (\<open>nodedb-raft/src/node/core.rs\<close>), contact tracking (\<open>quorum_contact.rs\<close>,
  \<open>peer_contact.rs\<close>, \<open>staleness.rs\<close>), the node half of the lease (\<open>leader_lease.rs\<close>), the state
  transitions and replication (\<open>internal.rs\<close>) and the watermarks (\<open>durability.rs\<close>).

  A \<open>&mut self\<close> method is a function from node to node. What the code reads from outside is an
  argument: \<open>env\<close> carries the instant \<open>Instant::now()\<close> returns during the step and the election
  timeout \<open>random_range\<close> draws; the log storage is the record \<open>ops\<close>. Logging has no model. The
  feature-gated fail point of \<open>try_advance_commit_index\<close> is off.
\<close>

section \<open>Structs (core.rs)\<close>

record step_env =
  env_now :: instant
  env_timeout :: duration

record ready =
  rd_hard_state :: "hard_state option"
  rd_messages :: "(node_id \<times> append_entries_request) list"
  rd_vote_requests :: "(node_id \<times> request_vote_request) list"
  rd_pre_vote_requests :: "(node_id \<times> pre_vote_request) list"
  rd_timeout_now :: "(node_id \<times> timeout_now_request) list"
  rd_committed_entries :: "log_entry list"
  rd_snapshots_needed :: "node_id list"
  rd_committed_read_error :: "raft_error option"

definition ready_default :: ready where
  "ready_default = \<lparr>rd_hard_state = None, rd_messages = [], rd_vote_requests = [],
     rd_pre_vote_requests = [], rd_timeout_now = [], rd_committed_entries = [],
     rd_snapshots_needed = [], rd_committed_read_error = None\<rparr>"

definition ready_is_empty :: "ready \<Rightarrow> bool" where
  "ready_is_empty r \<longleftrightarrow> rd_hard_state r = None \<and> rd_messages r = [] \<and> rd_vote_requests r = [] \<and>
     rd_pre_vote_requests r = [] \<and> rd_timeout_now r = [] \<and> rd_committed_entries r = [] \<and>
     rd_snapshots_needed r = [] \<and> rd_committed_read_error r = None"

record leader_contact =
  lc_leader_commit :: u64
  lc_at :: instant

record voter_ack =
  va_peer :: node_id
  va_round :: u64
  va_arrived :: instant

record 's raft_node =
  config :: raft_config
  role :: node_role
  hard :: hard_state
  volatile :: volatile_state
  leader_st :: "leader_state option"
  rlog :: "'s raft_log"
  election_deadline :: instant
  heartbeat_deadline :: instant
  votes_received :: "node_id set"
  pending_ready :: ready
  leader_id :: node_id
  transfer :: "leadership_transfer option"
  pre_vote :: "pre_vote_round option"
  durable_applied :: u64
  contact :: "leader_contact option"
  last_quorum_contact :: "instant option"
  quorum_window :: "voter_ack list"
  leader_since :: "instant option"
  term_start :: "u64 option"
  lease :: lease_state
  boot_vote_fence :: instant
  compaction_ceiling :: "u64 option"
  replica :: replica_state
  repl_floor :: u64

abbreviation term_of :: "'s raft_node \<Rightarrow> u64" where
  "term_of n \<equiv> current_term (hard n)"

abbreviation vote_of :: "'s raft_node \<Rightarrow> node_id" where
  "vote_of n \<equiv> voted_for (hard n)"

abbreviation commit_of :: "'s raft_node \<Rightarrow> u64" where
  "commit_of n \<equiv> commit_index (volatile n)"

abbreviation applied_of :: "'s raft_node \<Rightarrow> u64" where
  "applied_of n \<equiv> last_applied (volatile n)"

section \<open>Construction and restart (core.rs)\<close>

definition node_new :: "step_env \<Rightarrow> raft_config \<Rightarrow> 's \<Rightarrow> 's raft_node" where
  "node_new env cfg s =
     \<lparr>config = cfg,
      role = (if starts_as_observer cfg then Observer else if starts_as_learner cfg then Learner else Follower),
      hard = hard_state_new,
      volatile = volatile_state_new,
      leader_st = None,
      rlog = raft_log_new s,
      election_deadline = env_now env + election_timeout_max cfg,
      heartbeat_deadline = env_now env,
      votes_received = {},
      pending_ready = ready_default,
      leader_id = 0,
      transfer = None,
      pre_vote = None,
      durable_applied = 0,
      contact = None,
      last_quorum_contact = None,
      quorum_window = [],
      leader_since = None,
      term_start = None,
      lease = lease_new,
      boot_vote_fence = env_now env + election_timeout_max cfg,
      compaction_ceiling = None,
      replica = Whole,
      repl_floor = 0\<rparr>"

definition reset_election_timeout :: "step_env \<Rightarrow> 's raft_node \<Rightarrow> 's raft_node" where
  "reset_election_timeout env n = n\<lparr>election_deadline := env_now env + env_timeout env\<rparr>"

definition node_restore :: "'s storage_ops \<Rightarrow> step_env \<Rightarrow> 's raft_node \<Rightarrow> unit result \<times> 's raft_node" where
  "node_restore ops env n =
     (case so_load_hard_state ops (rl_storage (rlog n)) of
        Inl e \<Rightarrow> (Inl e, n)
      | Inr h \<Rightarrow>
          let n1 = n\<lparr>hard := h\<rparr>
          in case so_load_applied_index ops (rl_storage (rlog n1)) of
               Inl e \<Rightarrow> (Inl e, n1)
             | Inr a \<Rightarrow>
                 let n2 = n1\<lparr>durable_applied := a, volatile := volatile_state_restored a\<rparr>
                 in case raft_log_restore ops (rlog n2) of
                      (Inl e, l) \<Rightarrow> (Inl e, n2\<lparr>rlog := l\<rparr>)
                    | (Inr _, l) \<Rightarrow> (Inr (), reset_election_timeout env (n2\<lparr>rlog := l\<rparr>)))"

definition term_start_index :: "'s raft_node \<Rightarrow> u64 option" where
  "term_start_index n = (if role n \<noteq> Leader then None else term_start n)"

definition take_ready :: "'s raft_node \<Rightarrow> ready \<times> 's raft_node" where
  "take_ready n = (pending_ready n, n\<lparr>pending_ready := ready_default\<rparr>)"

definition persist_hard_state_if_dirty ::
  "'s storage_ops \<Rightarrow> 's raft_node \<Rightarrow> unit result \<times> 's raft_node" where
  "persist_hard_state_if_dirty ops n =
     (if rd_hard_state (pending_ready n) \<noteq> None then
        (case so_save_hard_state ops (rl_storage (rlog n)) (hard n) of
           (Inl e, s) \<Rightarrow> (Inl e, n\<lparr>rlog := (rlog n)\<lparr>rl_storage := s\<rparr>\<rparr>)
         | (Inr _, s) \<Rightarrow> (Inr (), n\<lparr>rlog := (rlog n)\<lparr>rl_storage := s\<rparr>,
               pending_ready := (pending_ready n)\<lparr>rd_hard_state := None\<rparr>\<rparr>))
      else (Inr (), n))"

definition match_index_for :: "'s raft_node \<Rightarrow> node_id \<Rightarrow> u64 option" where
  "match_index_for n peer = map_option (\<lambda>ls. ls_match_index_for ls peer) (leader_st n)"

definition log_entries_range :: "'s raft_node \<Rightarrow> u64 \<Rightarrow> u64 \<Rightarrow> log_entry list result" where
  "log_entries_range n lo hi = entries_range (rlog n) lo (min hi (commit_of n))"

section \<open>Contact tracking (quorum_contact.rs, peer_contact.rs, staleness.rs)\<close>

definition voter_ack_of :: "'s raft_node \<Rightarrow> node_id \<Rightarrow> voter_ack option" where
  "voter_ack_of n peer = find (\<lambda>a. va_peer a = peer) (quorum_window n)"

definition arm_quorum_window :: "instant \<Rightarrow> 's raft_node \<Rightarrow> 's raft_node" where
  "arm_quorum_window now n = n\<lparr>last_quorum_contact := Some now, leader_since := Some now,
     quorum_window := [], lease := begin_term (lease n)\<rparr>"

definition voter_heard_within_window :: "'s raft_node \<Rightarrow> node_id \<Rightarrow> instant \<Rightarrow> bool" where
  "voter_heard_within_window n peer now =
     (let last_seen = (case voter_ack_of n peer of Some a \<Rightarrow> Some (va_arrived a) | None \<Rightarrow> leader_since n)
      in case last_seen of None \<Rightarrow> False
         | Some seen \<Rightarrow> now - seen < election_timeout_max (config n))"

text \<open>\<open>sort_unstable_by\<close> in descending order, then \<open>get(k)\<close>.\<close>

definition nth_highest :: "nat \<Rightarrow> nat list \<Rightarrow> nat option" where
  "nth_highest k xs = (let ys = rev (sort xs) in if k < length ys then Some (ys ! k) else None)"

definition refresh_quorum_contact :: "instant \<Rightarrow> 's raft_node \<Rightarrow> 's raft_node" where
  "refresh_quorum_contact now n =
     (if role n \<noteq> Leader then n
      else let peers_needed = quorum (config n) - 1
           in if peers_needed = 0 then n\<lparr>last_quorum_contact := Some now\<rparr>
              else let arrivals = List.map_filter (\<lambda>peer. map_option va_arrived (voter_ack_of n peer)) (peers (config n))
                   in case nth_highest (peers_needed - 1) arrivals of
                        None \<Rightarrow> n
                      | Some c \<Rightarrow>
                          (case last_quorum_contact n of
                             None \<Rightarrow> n\<lparr>last_quorum_contact := Some c\<rparr>
                           | Some prev \<Rightarrow> if c > prev then n\<lparr>last_quorum_contact := Some c\<rparr> else n))"

definition quorum_contact_lost :: "'s raft_node \<Rightarrow> instant \<Rightarrow> bool" where
  "quorum_contact_lost n now =
     (if role n \<noteq> Leader then False
      else case last_quorum_contact n of None \<Rightarrow> False
           | Some prev \<Rightarrow> now - prev \<ge> election_timeout_max (config n))"

definition peer_ack_count :: "'s raft_node \<Rightarrow> node_id \<Rightarrow> u64 option" where
  "peer_ack_count n peer = map_option (\<lambda>ls. ack_count_for ls peer) (leader_st n)"

definition replicated_floor_at :: "'s raft_node \<Rightarrow> instant \<Rightarrow> u64" where
  "replicated_floor_at n now =
     (case leader_st n of
        None \<Rightarrow> repl_floor n
      | Some ls \<Rightarrow>
          let matches = map (ls_match_index_for ls)
                (filter (\<lambda>peer. voter_heard_within_window n peer now) (peers (config n)));
              lowest_live_voter = (if matches = [] then u64_max else Min (set matches))
          in max (repl_floor n) (min lowest_live_voter (commit_of n)))"

definition peer_replica_state :: "'s raft_node \<Rightarrow> node_id \<Rightarrow> replica_state option" where
  "peer_replica_state n peer = (case leader_st n of None \<Rightarrow> None | Some ls \<Rightarrow> peer_states ls peer)"

definition peer_answered_whole :: "'s raft_node \<Rightarrow> node_id \<Rightarrow> bool" where
  "peer_answered_whole n peer \<longleftrightarrow> peer_replica_state n peer = Some Whole"

definition live_leader :: "'s raft_node \<Rightarrow> instant \<Rightarrow> node_id" where
  "live_leader n now =
     (if role n = Leader then node_id (config n)
      else if leader_id n = 0 then 0
      else let fresh = (case contact n of None \<Rightarrow> False
                        | Some c \<Rightarrow> now - lc_at c < election_timeout_min (config n))
           in if fresh then leader_id n else 0)"

datatype staleness_verdict = Fresh | NoRecentContact | Behind u64 u64

definition staleness_verdict :: "instant \<Rightarrow> 's raft_node \<Rightarrow> duration \<Rightarrow> u64 \<Rightarrow> staleness_verdict" where
  "staleness_verdict now n max_staleness applied =
     (if role n = Leader then Fresh
      else case contact n of
             None \<Rightarrow> NoRecentContact
           | Some c \<Rightarrow>
               if now - lc_at c > max_staleness then NoRecentContact
               else if applied < lc_leader_commit c then Behind (lc_leader_commit c) applied
               else Fresh)"

definition within_staleness_bound :: "instant \<Rightarrow> 's raft_node \<Rightarrow> duration \<Rightarrow> u64 \<Rightarrow> bool" where
  "within_staleness_bound now n max_staleness applied \<longleftrightarrow>
     staleness_verdict now n max_staleness applied = Fresh"

definition leader_contact_within :: "instant \<Rightarrow> 's raft_node \<Rightarrow> duration \<Rightarrow> bool" where
  "leader_contact_within now n window =
     (if role n = Leader then True
      else case contact n of None \<Rightarrow> False | Some c \<Rightarrow> now - lc_at c \<le> window)"

section \<open>The node half of the lease (leader_lease.rs)\<close>

definition stamp_lease_round :: "step_env \<Rightarrow> 's raft_node \<Rightarrow> u64 \<times> 's raft_node" where
  "stamp_lease_round env n = (let (r, ls) = stamp (env_now env) (lease n) in (r, n\<lparr>lease := ls\<rparr>))"

fun update_ack :: "node_id \<Rightarrow> u64 \<Rightarrow> instant \<Rightarrow> voter_ack list \<Rightarrow> voter_ack list" where
  "update_ack peer round now [] = [\<lparr>va_peer = peer, va_round = round, va_arrived = now\<rparr>]"
| "update_ack peer round now (a # as) =
     (if va_peer a = peer
      then a\<lparr>va_round := max (va_round a) round, va_arrived := max (va_arrived a) now\<rparr> # as
      else a # update_ack peer round now as)"

definition record_lease_ack :: "node_id \<Rightarrow> u64 \<Rightarrow> instant \<Rightarrow> 's raft_node \<Rightarrow> 's raft_node" where
  "record_lease_ack peer round now n =
     (if \<not> is_current (lease n) round then n
      else n\<lparr>quorum_window := update_ack peer round now (quorum_window n)\<rparr>)"

definition acked_round :: "'s raft_node \<Rightarrow> node_id \<Rightarrow> u64" where
  "acked_round n peer = (case voter_ack_of n peer of None \<Rightarrow> UNTRACKED_ROUND | Some a \<Rightarrow> va_round a)"

definition settle_lease :: "'s raft_node \<Rightarrow> instant option \<times> 's raft_node" where
  "settle_lease n =
     (let peers_needed = quorum (config n) - 1
      in if peers_needed = 0 then (None, n)
         else case nth_highest (peers_needed - 1) (map (acked_round n) (peers (config n))) of
                None \<Rightarrow> (None, n)
              | Some quorum_round \<Rightarrow>
                  if quorum_round = UNTRACKED_ROUND then (anchor (lease n), n)
                  else let (a, ls) = settle quorum_round (lease n) in (a, n\<lparr>lease := ls\<rparr>))"

definition vote_refusal_active :: "'s raft_node \<Rightarrow> instant \<Rightarrow> bool" where
  "vote_refusal_active n now =
     (if now < boot_vote_fence n then True
      else case contact n of None \<Rightarrow> False | Some c \<Rightarrow> now - lc_at c < election_timeout_min (config n))"

section \<open>Watermarks (durability.rs)\<close>

definition advance_applied :: "u64 \<Rightarrow> 's raft_node \<Rightarrow> 's raft_node" where
  "advance_applied applied_to n =
     n\<lparr>volatile := (volatile n)\<lparr>last_applied := max (applied_of n) applied_to\<rparr>\<rparr>"

definition requeue_committed :: "log_entry list \<Rightarrow> 's raft_node \<Rightarrow> 's raft_node" where
  "requeue_committed batch n =
     (let applied = applied_of n;
          merged = filter (\<lambda>e. le_index e > applied) batch;
          through = (if merged = [] then applied else le_index (last merged));
          rest = filter (\<lambda>e. le_index e > through) (rd_committed_entries (pending_ready n))
      in n\<lparr>pending_ready := (pending_ready n)\<lparr>rd_committed_entries := merged @ rest\<rparr>\<rparr>)"

definition has_apply_gap :: "'s raft_node \<Rightarrow> bool" where
  "has_apply_gap n \<longleftrightarrow> applied_of n < snapshot_index (rlog n)"

definition first_available_index :: "'s raft_node \<Rightarrow> u64" where
  "first_available_index n = snapshot_index (rlog n) + 1"

definition save_durable_applied_index ::
  "'s storage_ops \<Rightarrow> u64 \<Rightarrow> 's raft_node \<Rightarrow> unit result \<times> 's raft_node" where
  "save_durable_applied_index ops index n =
     (if index \<le> durable_applied n then (Inr (), n)
      else case so_save_applied_index ops (rl_storage (rlog n)) index of
             (Inl e, s) \<Rightarrow> (Inl e, n\<lparr>rlog := (rlog n)\<lparr>rl_storage := s\<rparr>\<rparr>)
           | (Inr _, s) \<Rightarrow> (Inr (), n\<lparr>rlog := (rlog n)\<lparr>rl_storage := s\<rparr>, durable_applied := index\<rparr>))"

text \<open>
  The ceiling is a shared atomic that an archiver raises; the field holds the value a load returns.
\<close>

definition compact_log_up_to :: "'s storage_ops \<Rightarrow> u64 \<Rightarrow> 's raft_node \<Rightarrow> bool result \<times> 's raft_node" where
  "compact_log_up_to ops requested n =
     (let up_to_index = (case compaction_ceiling n of Some c \<Rightarrow> min requested c | None \<Rightarrow> requested)
      in if up_to_index \<le> snapshot_index (rlog n) then (Inr False, n)
         else let ceiling = min (durable_applied n) (applied_of n)
              in if up_to_index > ceiling then (Inl (CompactionAheadOfApplied up_to_index ceiling), n)
                 else case term_at (rlog n) up_to_index of
                        None \<Rightarrow> (Inl (LogCompacted up_to_index (snapshot_index (rlog n) + 1)), n)
                      | Some t \<Rightarrow>
                          (case apply_snapshot ops (rlog n) up_to_index t of
                             (Inl e, l) \<Rightarrow> (Inl e, n\<lparr>rlog := l\<rparr>)
                           | (Inr _, l) \<Rightarrow> (Inr True, n\<lparr>rlog := l\<rparr>)))"

definition set_compaction_ceiling :: "u64 \<Rightarrow> 's raft_node \<Rightarrow> 's raft_node" where
  "set_compaction_ceiling c n = n\<lparr>compaction_ceiling := Some c\<rparr>"

definition maybe_compact_log :: "'s storage_ops \<Rightarrow> u64 \<Rightarrow> 's raft_node \<Rightarrow> bool result \<times> 's raft_node" where
  "maybe_compact_log ops applied_index n =
     (case log_compaction_threshold (config n) of
        None \<Rightarrow> (Inr False, n)
      | Some threshold \<Rightarrow>
          let si = snapshot_index (rlog n)
          in if applied_index \<le> si then (Inr False, n)
             else if applied_index - si < threshold then (Inr False, n)
             else compact_log_up_to ops (min (min applied_index (durable_applied n)) (applied_of n)) n)"

section \<open>State transitions and replication (internal.rs)\<close>

definition persist_hard_state :: "'s raft_node \<Rightarrow> 's raft_node" where
  "persist_hard_state n = n\<lparr>pending_ready := (pending_ready n)\<lparr>rd_hard_state := Some (hard n)\<rparr>\<rparr>"

definition become_follower :: "step_env \<Rightarrow> u64 \<Rightarrow> 's raft_node \<Rightarrow> 's raft_node" where
  "become_follower env t n =
     (let r = (case role n of Learner \<Rightarrow> Learner | Observer \<Rightarrow> Observer | _ \<Rightarrow> Follower);
          v = (if t > term_of n then 0 else vote_of n)
      in reset_election_timeout env (persist_hard_state
           (n\<lparr>role := r, hard := \<lparr>current_term = t, voted_for = v\<rparr>, leader_id := 0, leader_st := None,
              votes_received := {}, transfer := None, pre_vote := None, last_quorum_contact := None,
              quorum_window := [], leader_since := None, term_start := None\<rparr>)))"

text \<open>Queue the committed range past everything applied or already queued.\<close>

definition queue_committed_entries :: "'s raft_node \<Rightarrow> unit result \<times> 's raft_node" where
  "queue_committed_entries n =
     (let queue = rd_committed_entries (pending_ready n);
          queued_through = (if queue = [] then 0 else le_index (last queue));
          from = max (applied_of n) queued_through + 1;
          to = commit_of n
      in if from > to then (Inr (), n)
         else case entries_range (rlog n) from to of
                Inl e \<Rightarrow> (Inl e, n)
              | Inr es \<Rightarrow> (Inr (), n\<lparr>pending_ready := (pending_ready n)\<lparr>rd_committed_entries := queue @ es\<rparr>\<rparr>))"

definition collect_committed_entries :: "'s raft_node \<Rightarrow> 's raft_node" where
  "collect_committed_entries n =
     (case queue_committed_entries n of
        (Inr _, n') \<Rightarrow> n'
      | (Inl e, n') \<Rightarrow> n'\<lparr>pending_ready := (pending_ready n')\<lparr>rd_committed_read_error := Some e\<rparr>\<rparr>)"

text \<open>How many voters acknowledge index \<open>i\<close>: peers by match index, this node by its stable log.\<close>

definition ack_total :: "'s storage_ops \<Rightarrow> 's raft_node \<Rightarrow> leader_state \<Rightarrow> u64 \<Rightarrow> nat" where
  "ack_total ops n ls i = (if stable_index ops (rlog n) \<ge> i then 1 else 0) +
     length (filter (\<lambda>peer. ls_match_index_for ls peer \<ge> i) (peers (config n)))"

definition can_commit :: "'s storage_ops \<Rightarrow> 's raft_node \<Rightarrow> leader_state \<Rightarrow> u64 \<Rightarrow> bool" where
  "can_commit ops n ls i \<longleftrightarrow> term_at (rlog n) i = Some (term_of n) \<and>
     ack_total ops n ls i \<ge> quorum (config n)"

definition try_advance_commit_index :: "'s storage_ops \<Rightarrow> 's raft_node \<Rightarrow> 's raft_node" where
  "try_advance_commit_index ops n =
     (case leader_st n of
        None \<Rightarrow> n
      | Some ls \<Rightarrow>
          (case find (can_commit ops n ls) (rev [commit_of n + 1..<last_index (rlog n) + 1]) of
             None \<Rightarrow> n
           | Some i \<Rightarrow> collect_committed_entries (n\<lparr>volatile := (volatile n)\<lparr>commit_index := i\<rparr>\<rparr>)))"

definition push_snapshot_needed :: "node_id \<Rightarrow> 's raft_node \<Rightarrow> 's raft_node" where
  "push_snapshot_needed peer n =
     n\<lparr>pending_ready := (pending_ready n)\<lparr>rd_snapshots_needed := rd_snapshots_needed (pending_ready n) @ [peer]\<rparr>\<rparr>"

definition push_message :: "node_id \<Rightarrow> append_entries_request \<Rightarrow> 's raft_node \<Rightarrow> 's raft_node" where
  "push_message peer req n =
     n\<lparr>pending_ready := (pending_ready n)\<lparr>rd_messages := rd_messages (pending_ready n) @ [(peer, req)]\<rparr>\<rparr>"

text \<open>
  The batch for a peer whose next index is \<open>next\<close>: \<open>None\<close> when the log no longer reaches back that
  far and the peer needs a snapshot. Both senders below share it.
\<close>

definition batch_for :: "'s raft_log \<Rightarrow> u64 \<Rightarrow> (u64 \<times> log_entry list) option" where
  "batch_for l next =
     (case term_at l (next - 1) of
        None \<Rightarrow> None
      | Some prev_term \<Rightarrow>
          if next \<le> last_index l then
            (case entries_within l next (last_index l) MAX_APPEND_BATCH_BYTES of
               Inr es \<Rightarrow> Some (prev_term, es)
             | Inl (LogCompacted _ _) \<Rightarrow> None
             | Inl _ \<Rightarrow> Some (prev_term, []))
          else Some (prev_term, []))"

definition append_request ::
  "step_env \<Rightarrow> 's raft_node \<Rightarrow> u64 \<Rightarrow> u64 \<Rightarrow> log_entry list \<Rightarrow> u64 \<Rightarrow> append_entries_request" where
  "append_request env n next prev_term es round =
     \<lparr>ae_term = term_of n, ae_leader_id = node_id (config n), ae_prev_log_index = next - 1,
      ae_prev_log_term = prev_term, ae_entries = es, ae_leader_commit = commit_of n,
      ae_group_id = group_id (config n), ae_round = round,
      ae_replicated_floor = replicated_floor_at n (env_now env)\<rparr>"

definition send_append_entries :: "step_env \<Rightarrow> node_id \<Rightarrow> 's raft_node \<Rightarrow> 's raft_node" where
  "send_append_entries env peer n =
     (case leader_st n of
        None \<Rightarrow> n
      | Some ls \<Rightarrow>
          let next = next_index_for ls peer
          in case batch_for (rlog n) next of
               None \<Rightarrow> push_snapshot_needed peer n
             | Some (prev_term, es) \<Rightarrow>
                 let (round, n1) = stamp_lease_round env n
                 in push_message peer (append_request env n1 next prev_term es round) n1)"

definition send_append_entries_to_observer :: "step_env \<Rightarrow> node_id \<Rightarrow> 's raft_node \<Rightarrow> 's raft_node" where
  "send_append_entries_to_observer env obs n =
     (case leader_st n of
        None \<Rightarrow> n
      | Some ls \<Rightarrow>
          if \<not> observer_can_receive ls obs then n
          else case map_of (observer_states ls) obs of
                 None \<Rightarrow> n
               | Some st \<Rightarrow>
                   let next = os_next_index st
                   in case batch_for (rlog n) next of
                        None \<Rightarrow> push_snapshot_needed obs n
                      | Some (prev_term, es) \<Rightarrow>
                          let n1 = push_message obs (append_request env n next prev_term es UNTRACKED_ROUND) n
                          in n1\<lparr>leader_st := Some (observer_state_mut obs
                               (\<lambda>st. st\<lparr>pending_count := sat_add_u32 (pending_count st) (max (length es mod 2 ^ 32) 1)\<rparr>) ls)\<rparr>)"

definition replicate_to_all :: "step_env \<Rightarrow> 's raft_node \<Rightarrow> 's raft_node" where
  "replicate_to_all env n =
     (let n1 = fold (send_append_entries env) (peers (config n) @ learners (config n)) n
      in fold (send_append_entries_to_observer env) (observers (config n1)) n1)"

text \<open>
  Taking over: the tracking of every peer, the contact window and the no-op entry of the new term.
  The result of appending the no-op is ignored.
\<close>

definition leader_state_for :: "raft_config \<Rightarrow> u64 \<Rightarrow> leader_state" where
  "leader_state_for c li =
     fold (\<lambda>learner. ls_add_peer learner li) (learners c) (leader_state_new (peers c) (observers c) li)"

definition take_lead :: "'s storage_ops \<Rightarrow> step_env \<Rightarrow> 's raft_node \<Rightarrow> 's raft_node" where
  "take_lead ops env n =
     (let n1 = arm_quorum_window (env_now env)
                 (n\<lparr>role := Leader, leader_id := node_id (config n),
                    leader_st := Some (leader_state_for (config n) (last_index (rlog n)))\<rparr>);
          noop = \<lparr>le_term = term_of n1, le_index = last_index (rlog n1) + 1, le_data = []\<rparr>
      in n1\<lparr>rlog := snd (log_append ops (rlog n1) noop), term_start := Some (le_index noop)\<rparr>)"

definition become_leader :: "'s storage_ops \<Rightarrow> step_env \<Rightarrow> 's raft_node \<Rightarrow> 's raft_node" where
  "become_leader ops env n =
     (let n1 = take_lead ops env n
      in replicate_to_all env
           (if cluster_size (config n1) = 1 then try_advance_commit_index ops n1 else n1))"

section \<open>What each helper leaves alone\<close>

lemma reset_election_timeout_frame [frame, simp]:
  "config (reset_election_timeout env n) = config n" "role (reset_election_timeout env n) = role n"
  "hard (reset_election_timeout env n) = hard n"
  "volatile (reset_election_timeout env n) = volatile n"
  "leader_st (reset_election_timeout env n) = leader_st n"
  "rlog (reset_election_timeout env n) = rlog n"
  "heartbeat_deadline (reset_election_timeout env n) = heartbeat_deadline n"
  "votes_received (reset_election_timeout env n) = votes_received n"
  "pending_ready (reset_election_timeout env n) = pending_ready n"
  "leader_id (reset_election_timeout env n) = leader_id n"
  "transfer (reset_election_timeout env n) = transfer n"
  "pre_vote (reset_election_timeout env n) = pre_vote n"
  "durable_applied (reset_election_timeout env n) = durable_applied n"
  "contact (reset_election_timeout env n) = contact n"
  "last_quorum_contact (reset_election_timeout env n) = last_quorum_contact n"
  "quorum_window (reset_election_timeout env n) = quorum_window n"
  "leader_since (reset_election_timeout env n) = leader_since n"
  "term_start (reset_election_timeout env n) = term_start n"
  "lease (reset_election_timeout env n) = lease n"
  "boot_vote_fence (reset_election_timeout env n) = boot_vote_fence n"
  "compaction_ceiling (reset_election_timeout env n) = compaction_ceiling n"
  "replica (reset_election_timeout env n) = replica n"
  "repl_floor (reset_election_timeout env n) = repl_floor n"
  by (simp_all add: reset_election_timeout_def)

lemma persist_hard_state_frame [frame, simp]:
  "config (persist_hard_state n) = config n" "role (persist_hard_state n) = role n"
  "hard (persist_hard_state n) = hard n" "volatile (persist_hard_state n) = volatile n"
  "leader_st (persist_hard_state n) = leader_st n" "rlog (persist_hard_state n) = rlog n"
  "election_deadline (persist_hard_state n) = election_deadline n"
  "heartbeat_deadline (persist_hard_state n) = heartbeat_deadline n"
  "votes_received (persist_hard_state n) = votes_received n"
  "leader_id (persist_hard_state n) = leader_id n" "transfer (persist_hard_state n) = transfer n"
  "pre_vote (persist_hard_state n) = pre_vote n"
  "durable_applied (persist_hard_state n) = durable_applied n"
  "contact (persist_hard_state n) = contact n"
  "last_quorum_contact (persist_hard_state n) = last_quorum_contact n"
  "quorum_window (persist_hard_state n) = quorum_window n"
  "leader_since (persist_hard_state n) = leader_since n"
  "term_start (persist_hard_state n) = term_start n" "lease (persist_hard_state n) = lease n"
  "boot_vote_fence (persist_hard_state n) = boot_vote_fence n"
  "compaction_ceiling (persist_hard_state n) = compaction_ceiling n"
  "replica (persist_hard_state n) = replica n" "repl_floor (persist_hard_state n) = repl_floor n"
  by (simp_all add: persist_hard_state_def)

lemma push_snapshot_needed_frame [frame, simp]:
  "config (push_snapshot_needed p n) = config n" "role (push_snapshot_needed p n) = role n"
  "hard (push_snapshot_needed p n) = hard n" "volatile (push_snapshot_needed p n) = volatile n"
  "leader_st (push_snapshot_needed p n) = leader_st n" "rlog (push_snapshot_needed p n) = rlog n"
  "election_deadline (push_snapshot_needed p n) = election_deadline n"
  "heartbeat_deadline (push_snapshot_needed p n) = heartbeat_deadline n"
  "votes_received (push_snapshot_needed p n) = votes_received n"
  "leader_id (push_snapshot_needed p n) = leader_id n"
  "transfer (push_snapshot_needed p n) = transfer n"
  "pre_vote (push_snapshot_needed p n) = pre_vote n"
  "durable_applied (push_snapshot_needed p n) = durable_applied n"
  "contact (push_snapshot_needed p n) = contact n"
  "last_quorum_contact (push_snapshot_needed p n) = last_quorum_contact n"
  "quorum_window (push_snapshot_needed p n) = quorum_window n"
  "leader_since (push_snapshot_needed p n) = leader_since n"
  "term_start (push_snapshot_needed p n) = term_start n"
  "lease (push_snapshot_needed p n) = lease n"
  "boot_vote_fence (push_snapshot_needed p n) = boot_vote_fence n"
  "compaction_ceiling (push_snapshot_needed p n) = compaction_ceiling n"
  "replica (push_snapshot_needed p n) = replica n"
  "repl_floor (push_snapshot_needed p n) = repl_floor n"
  by (simp_all add: push_snapshot_needed_def)

lemma push_message_frame [frame, simp]:
  "config (push_message p req n) = config n" "role (push_message p req n) = role n"
  "hard (push_message p req n) = hard n" "volatile (push_message p req n) = volatile n"
  "leader_st (push_message p req n) = leader_st n" "rlog (push_message p req n) = rlog n"
  "election_deadline (push_message p req n) = election_deadline n"
  "heartbeat_deadline (push_message p req n) = heartbeat_deadline n"
  "votes_received (push_message p req n) = votes_received n"
  "leader_id (push_message p req n) = leader_id n" "transfer (push_message p req n) = transfer n"
  "pre_vote (push_message p req n) = pre_vote n"
  "durable_applied (push_message p req n) = durable_applied n"
  "contact (push_message p req n) = contact n"
  "last_quorum_contact (push_message p req n) = last_quorum_contact n"
  "quorum_window (push_message p req n) = quorum_window n"
  "leader_since (push_message p req n) = leader_since n"
  "term_start (push_message p req n) = term_start n" "lease (push_message p req n) = lease n"
  "boot_vote_fence (push_message p req n) = boot_vote_fence n"
  "compaction_ceiling (push_message p req n) = compaction_ceiling n"
  "replica (push_message p req n) = replica n" "repl_floor (push_message p req n) = repl_floor n"
  by (simp_all add: push_message_def)

lemma stamp_lease_round_frame [frame, simp]:
  "config (snd (stamp_lease_round env n)) = config n"
  "role (snd (stamp_lease_round env n)) = role n" "hard (snd (stamp_lease_round env n)) = hard n"
  "volatile (snd (stamp_lease_round env n)) = volatile n"
  "leader_st (snd (stamp_lease_round env n)) = leader_st n"
  "rlog (snd (stamp_lease_round env n)) = rlog n"
  "election_deadline (snd (stamp_lease_round env n)) = election_deadline n"
  "heartbeat_deadline (snd (stamp_lease_round env n)) = heartbeat_deadline n"
  "votes_received (snd (stamp_lease_round env n)) = votes_received n"
  "pending_ready (snd (stamp_lease_round env n)) = pending_ready n"
  "leader_id (snd (stamp_lease_round env n)) = leader_id n"
  "transfer (snd (stamp_lease_round env n)) = transfer n"
  "pre_vote (snd (stamp_lease_round env n)) = pre_vote n"
  "durable_applied (snd (stamp_lease_round env n)) = durable_applied n"
  "contact (snd (stamp_lease_round env n)) = contact n"
  "last_quorum_contact (snd (stamp_lease_round env n)) = last_quorum_contact n"
  "quorum_window (snd (stamp_lease_round env n)) = quorum_window n"
  "leader_since (snd (stamp_lease_round env n)) = leader_since n"
  "term_start (snd (stamp_lease_round env n)) = term_start n"
  "boot_vote_fence (snd (stamp_lease_round env n)) = boot_vote_fence n"
  "compaction_ceiling (snd (stamp_lease_round env n)) = compaction_ceiling n"
  "replica (snd (stamp_lease_round env n)) = replica n"
  "repl_floor (snd (stamp_lease_round env n)) = repl_floor n"
  by (simp_all add: stamp_lease_round_def split: prod.split)

lemma send_append_entries_frame [frame, simp]:
  "config (send_append_entries env p n) = config n" "role (send_append_entries env p n) = role n"
  "hard (send_append_entries env p n) = hard n"
  "volatile (send_append_entries env p n) = volatile n"
  "leader_st (send_append_entries env p n) = leader_st n"
  "rlog (send_append_entries env p n) = rlog n"
  "election_deadline (send_append_entries env p n) = election_deadline n"
  "heartbeat_deadline (send_append_entries env p n) = heartbeat_deadline n"
  "votes_received (send_append_entries env p n) = votes_received n"
  "leader_id (send_append_entries env p n) = leader_id n"
  "transfer (send_append_entries env p n) = transfer n"
  "pre_vote (send_append_entries env p n) = pre_vote n"
  "durable_applied (send_append_entries env p n) = durable_applied n"
  "contact (send_append_entries env p n) = contact n"
  "last_quorum_contact (send_append_entries env p n) = last_quorum_contact n"
  "quorum_window (send_append_entries env p n) = quorum_window n"
  "leader_since (send_append_entries env p n) = leader_since n"
  "term_start (send_append_entries env p n) = term_start n"
  "boot_vote_fence (send_append_entries env p n) = boot_vote_fence n"
  "compaction_ceiling (send_append_entries env p n) = compaction_ceiling n"
  "replica (send_append_entries env p n) = replica n"
  "repl_floor (send_append_entries env p n) = repl_floor n"
  by (simp_all add: send_append_entries_def stamp_lease_round_def Let_def split: option.split prod.split)

lemma send_append_entries_to_observer_frame [frame, simp]:
  "config (send_append_entries_to_observer env p n) = config n"
  "role (send_append_entries_to_observer env p n) = role n"
  "hard (send_append_entries_to_observer env p n) = hard n"
  "volatile (send_append_entries_to_observer env p n) = volatile n"
  "rlog (send_append_entries_to_observer env p n) = rlog n"
  "election_deadline (send_append_entries_to_observer env p n) = election_deadline n"
  "heartbeat_deadline (send_append_entries_to_observer env p n) = heartbeat_deadline n"
  "votes_received (send_append_entries_to_observer env p n) = votes_received n"
  "leader_id (send_append_entries_to_observer env p n) = leader_id n"
  "transfer (send_append_entries_to_observer env p n) = transfer n"
  "pre_vote (send_append_entries_to_observer env p n) = pre_vote n"
  "durable_applied (send_append_entries_to_observer env p n) = durable_applied n"
  "contact (send_append_entries_to_observer env p n) = contact n"
  "last_quorum_contact (send_append_entries_to_observer env p n) = last_quorum_contact n"
  "quorum_window (send_append_entries_to_observer env p n) = quorum_window n"
  "leader_since (send_append_entries_to_observer env p n) = leader_since n"
  "term_start (send_append_entries_to_observer env p n) = term_start n"
  "lease (send_append_entries_to_observer env p n) = lease n"
  "boot_vote_fence (send_append_entries_to_observer env p n) = boot_vote_fence n"
  "compaction_ceiling (send_append_entries_to_observer env p n) = compaction_ceiling n"
  "replica (send_append_entries_to_observer env p n) = replica n"
  "repl_floor (send_append_entries_to_observer env p n) = repl_floor n"
  by (simp_all add: send_append_entries_to_observer_def Let_def split: option.split)

lemma fold_send_frame [frame, simp]:
  "config (fold (send_append_entries env) ps n) = config n"
  "role (fold (send_append_entries env) ps n) = role n"
  "hard (fold (send_append_entries env) ps n) = hard n"
  "volatile (fold (send_append_entries env) ps n) = volatile n"
  "leader_st (fold (send_append_entries env) ps n) = leader_st n"
  "rlog (fold (send_append_entries env) ps n) = rlog n"
  "election_deadline (fold (send_append_entries env) ps n) = election_deadline n"
  "heartbeat_deadline (fold (send_append_entries env) ps n) = heartbeat_deadline n"
  "votes_received (fold (send_append_entries env) ps n) = votes_received n"
  "leader_id (fold (send_append_entries env) ps n) = leader_id n"
  "transfer (fold (send_append_entries env) ps n) = transfer n"
  "pre_vote (fold (send_append_entries env) ps n) = pre_vote n"
  "durable_applied (fold (send_append_entries env) ps n) = durable_applied n"
  "contact (fold (send_append_entries env) ps n) = contact n"
  "last_quorum_contact (fold (send_append_entries env) ps n) = last_quorum_contact n"
  "quorum_window (fold (send_append_entries env) ps n) = quorum_window n"
  "leader_since (fold (send_append_entries env) ps n) = leader_since n"
  "term_start (fold (send_append_entries env) ps n) = term_start n"
  "boot_vote_fence (fold (send_append_entries env) ps n) = boot_vote_fence n"
  "compaction_ceiling (fold (send_append_entries env) ps n) = compaction_ceiling n"
  "replica (fold (send_append_entries env) ps n) = replica n"
  "repl_floor (fold (send_append_entries env) ps n) = repl_floor n"
  by (induction ps arbitrary: n) simp_all

lemma fold_send_observer_frame [frame, simp]:
  "config (fold (send_append_entries_to_observer env) ps n) = config n"
  "role (fold (send_append_entries_to_observer env) ps n) = role n"
  "hard (fold (send_append_entries_to_observer env) ps n) = hard n"
  "volatile (fold (send_append_entries_to_observer env) ps n) = volatile n"
  "rlog (fold (send_append_entries_to_observer env) ps n) = rlog n"
  "election_deadline (fold (send_append_entries_to_observer env) ps n) = election_deadline n"
  "heartbeat_deadline (fold (send_append_entries_to_observer env) ps n) = heartbeat_deadline n"
  "votes_received (fold (send_append_entries_to_observer env) ps n) = votes_received n"
  "leader_id (fold (send_append_entries_to_observer env) ps n) = leader_id n"
  "transfer (fold (send_append_entries_to_observer env) ps n) = transfer n"
  "pre_vote (fold (send_append_entries_to_observer env) ps n) = pre_vote n"
  "durable_applied (fold (send_append_entries_to_observer env) ps n) = durable_applied n"
  "contact (fold (send_append_entries_to_observer env) ps n) = contact n"
  "last_quorum_contact (fold (send_append_entries_to_observer env) ps n) = last_quorum_contact n"
  "quorum_window (fold (send_append_entries_to_observer env) ps n) = quorum_window n"
  "leader_since (fold (send_append_entries_to_observer env) ps n) = leader_since n"
  "term_start (fold (send_append_entries_to_observer env) ps n) = term_start n"
  "lease (fold (send_append_entries_to_observer env) ps n) = lease n"
  "boot_vote_fence (fold (send_append_entries_to_observer env) ps n) = boot_vote_fence n"
  "compaction_ceiling (fold (send_append_entries_to_observer env) ps n) = compaction_ceiling n"
  "replica (fold (send_append_entries_to_observer env) ps n) = replica n"
  "repl_floor (fold (send_append_entries_to_observer env) ps n) = repl_floor n"
  by (induction ps arbitrary: n) simp_all

lemma replicate_to_all_frame [frame, simp]:
  "config (replicate_to_all env n) = config n" "role (replicate_to_all env n) = role n"
  "hard (replicate_to_all env n) = hard n" "volatile (replicate_to_all env n) = volatile n"
  "rlog (replicate_to_all env n) = rlog n"
  "election_deadline (replicate_to_all env n) = election_deadline n"
  "heartbeat_deadline (replicate_to_all env n) = heartbeat_deadline n"
  "votes_received (replicate_to_all env n) = votes_received n"
  "leader_id (replicate_to_all env n) = leader_id n"
  "transfer (replicate_to_all env n) = transfer n" "pre_vote (replicate_to_all env n) = pre_vote n"
  "durable_applied (replicate_to_all env n) = durable_applied n"
  "contact (replicate_to_all env n) = contact n"
  "last_quorum_contact (replicate_to_all env n) = last_quorum_contact n"
  "quorum_window (replicate_to_all env n) = quorum_window n"
  "leader_since (replicate_to_all env n) = leader_since n"
  "term_start (replicate_to_all env n) = term_start n"
  "boot_vote_fence (replicate_to_all env n) = boot_vote_fence n"
  "compaction_ceiling (replicate_to_all env n) = compaction_ceiling n"
  "replica (replicate_to_all env n) = replica n"
  "repl_floor (replicate_to_all env n) = repl_floor n"
  by (simp_all add: replicate_to_all_def Let_def)

lemma collect_committed_entries_frame [frame, simp]:
  "config (collect_committed_entries n) = config n" "role (collect_committed_entries n) = role n"
  "hard (collect_committed_entries n) = hard n"
  "volatile (collect_committed_entries n) = volatile n"
  "leader_st (collect_committed_entries n) = leader_st n"
  "rlog (collect_committed_entries n) = rlog n"
  "election_deadline (collect_committed_entries n) = election_deadline n"
  "heartbeat_deadline (collect_committed_entries n) = heartbeat_deadline n"
  "votes_received (collect_committed_entries n) = votes_received n"
  "leader_id (collect_committed_entries n) = leader_id n"
  "transfer (collect_committed_entries n) = transfer n"
  "pre_vote (collect_committed_entries n) = pre_vote n"
  "durable_applied (collect_committed_entries n) = durable_applied n"
  "contact (collect_committed_entries n) = contact n"
  "last_quorum_contact (collect_committed_entries n) = last_quorum_contact n"
  "quorum_window (collect_committed_entries n) = quorum_window n"
  "leader_since (collect_committed_entries n) = leader_since n"
  "term_start (collect_committed_entries n) = term_start n"
  "lease (collect_committed_entries n) = lease n"
  "boot_vote_fence (collect_committed_entries n) = boot_vote_fence n"
  "compaction_ceiling (collect_committed_entries n) = compaction_ceiling n"
  "replica (collect_committed_entries n) = replica n"
  "repl_floor (collect_committed_entries n) = repl_floor n"
  by (simp_all add: collect_committed_entries_def queue_committed_entries_def Let_def
      split: sum.split prod.split)

lemma try_advance_commit_index_frame [frame, simp]:
  "config (try_advance_commit_index ops n) = config n"
  "role (try_advance_commit_index ops n) = role n" "hard (try_advance_commit_index ops n) = hard n"
  "leader_st (try_advance_commit_index ops n) = leader_st n"
  "rlog (try_advance_commit_index ops n) = rlog n"
  "election_deadline (try_advance_commit_index ops n) = election_deadline n"
  "heartbeat_deadline (try_advance_commit_index ops n) = heartbeat_deadline n"
  "votes_received (try_advance_commit_index ops n) = votes_received n"
  "leader_id (try_advance_commit_index ops n) = leader_id n"
  "transfer (try_advance_commit_index ops n) = transfer n"
  "pre_vote (try_advance_commit_index ops n) = pre_vote n"
  "durable_applied (try_advance_commit_index ops n) = durable_applied n"
  "contact (try_advance_commit_index ops n) = contact n"
  "last_quorum_contact (try_advance_commit_index ops n) = last_quorum_contact n"
  "quorum_window (try_advance_commit_index ops n) = quorum_window n"
  "leader_since (try_advance_commit_index ops n) = leader_since n"
  "term_start (try_advance_commit_index ops n) = term_start n"
  "lease (try_advance_commit_index ops n) = lease n"
  "boot_vote_fence (try_advance_commit_index ops n) = boot_vote_fence n"
  "compaction_ceiling (try_advance_commit_index ops n) = compaction_ceiling n"
  "replica (try_advance_commit_index ops n) = replica n"
  "repl_floor (try_advance_commit_index ops n) = repl_floor n"
  by (simp_all add: try_advance_commit_index_def split: option.split)

lemma refresh_quorum_contact_frame [frame, simp]:
  "config (refresh_quorum_contact now n) = config n" "role (refresh_quorum_contact now n) = role n"
  "hard (refresh_quorum_contact now n) = hard n"
  "volatile (refresh_quorum_contact now n) = volatile n"
  "leader_st (refresh_quorum_contact now n) = leader_st n"
  "rlog (refresh_quorum_contact now n) = rlog n"
  "election_deadline (refresh_quorum_contact now n) = election_deadline n"
  "heartbeat_deadline (refresh_quorum_contact now n) = heartbeat_deadline n"
  "votes_received (refresh_quorum_contact now n) = votes_received n"
  "pending_ready (refresh_quorum_contact now n) = pending_ready n"
  "leader_id (refresh_quorum_contact now n) = leader_id n"
  "transfer (refresh_quorum_contact now n) = transfer n"
  "pre_vote (refresh_quorum_contact now n) = pre_vote n"
  "durable_applied (refresh_quorum_contact now n) = durable_applied n"
  "contact (refresh_quorum_contact now n) = contact n"
  "quorum_window (refresh_quorum_contact now n) = quorum_window n"
  "leader_since (refresh_quorum_contact now n) = leader_since n"
  "term_start (refresh_quorum_contact now n) = term_start n"
  "lease (refresh_quorum_contact now n) = lease n"
  "boot_vote_fence (refresh_quorum_contact now n) = boot_vote_fence n"
  "compaction_ceiling (refresh_quorum_contact now n) = compaction_ceiling n"
  "replica (refresh_quorum_contact now n) = replica n"
  "repl_floor (refresh_quorum_contact now n) = repl_floor n"
  by (simp_all add: refresh_quorum_contact_def Let_def split: option.split)

lemma settle_lease_frame [frame, simp]:
  "config (snd (settle_lease n)) = config n" "role (snd (settle_lease n)) = role n"
  "hard (snd (settle_lease n)) = hard n" "volatile (snd (settle_lease n)) = volatile n"
  "leader_st (snd (settle_lease n)) = leader_st n" "rlog (snd (settle_lease n)) = rlog n"
  "election_deadline (snd (settle_lease n)) = election_deadline n"
  "heartbeat_deadline (snd (settle_lease n)) = heartbeat_deadline n"
  "votes_received (snd (settle_lease n)) = votes_received n"
  "pending_ready (snd (settle_lease n)) = pending_ready n"
  "leader_id (snd (settle_lease n)) = leader_id n" "transfer (snd (settle_lease n)) = transfer n"
  "pre_vote (snd (settle_lease n)) = pre_vote n"
  "durable_applied (snd (settle_lease n)) = durable_applied n"
  "contact (snd (settle_lease n)) = contact n"
  "last_quorum_contact (snd (settle_lease n)) = last_quorum_contact n"
  "quorum_window (snd (settle_lease n)) = quorum_window n"
  "leader_since (snd (settle_lease n)) = leader_since n"
  "term_start (snd (settle_lease n)) = term_start n"
  "boot_vote_fence (snd (settle_lease n)) = boot_vote_fence n"
  "compaction_ceiling (snd (settle_lease n)) = compaction_ceiling n"
  "replica (snd (settle_lease n)) = replica n" "repl_floor (snd (settle_lease n)) = repl_floor n"
  by (simp_all add: settle_lease_def Let_def split: option.split prod.split)

lemma record_lease_ack_frame [frame, simp]:
  "config (record_lease_ack p r now n) = config n" "role (record_lease_ack p r now n) = role n"
  "hard (record_lease_ack p r now n) = hard n" "volatile (record_lease_ack p r now n) = volatile n"
  "leader_st (record_lease_ack p r now n) = leader_st n"
  "rlog (record_lease_ack p r now n) = rlog n"
  "election_deadline (record_lease_ack p r now n) = election_deadline n"
  "heartbeat_deadline (record_lease_ack p r now n) = heartbeat_deadline n"
  "votes_received (record_lease_ack p r now n) = votes_received n"
  "pending_ready (record_lease_ack p r now n) = pending_ready n"
  "leader_id (record_lease_ack p r now n) = leader_id n"
  "transfer (record_lease_ack p r now n) = transfer n"
  "pre_vote (record_lease_ack p r now n) = pre_vote n"
  "durable_applied (record_lease_ack p r now n) = durable_applied n"
  "contact (record_lease_ack p r now n) = contact n"
  "last_quorum_contact (record_lease_ack p r now n) = last_quorum_contact n"
  "leader_since (record_lease_ack p r now n) = leader_since n"
  "term_start (record_lease_ack p r now n) = term_start n"
  "lease (record_lease_ack p r now n) = lease n"
  "boot_vote_fence (record_lease_ack p r now n) = boot_vote_fence n"
  "compaction_ceiling (record_lease_ack p r now n) = compaction_ceiling n"
  "replica (record_lease_ack p r now n) = replica n"
  "repl_floor (record_lease_ack p r now n) = repl_floor n"
  by (simp_all add: record_lease_ack_def)

end
