(* ===== verification/Raft_Handlers.thy ===== *)
theory Raft_Handlers
  imports Raft_Node
begin

text \<open>
  The operations the driver calls on a node: elections (\<open>nodedb-raft/src/node/election.rs\<close>), the
  RPC handlers (\<open>rpc/*.rs\<close>), \<open>tick\<close> and \<open>propose\<close> (\<open>core.rs\<close>), membership and leadership
  transfer (\<open>membership.rs\<close>), snapshot debt (\<open>snapshot_debt.rs\<close>) and linearizable reads
  (\<open>read_index.rs\<close>, \<open>leader_lease.rs\<close>). A handler with a reply returns it beside the new node.
\<close>

section \<open>Elections (election.rs)\<close>

definition start_election :: "'s storage_ops \<Rightarrow> step_env \<Rightarrow> 's raft_node \<Rightarrow> 's raft_node" where
  "start_election ops env n =
     (if role n \<in> {Learner, Observer} then n
      else if \<not> may_lead (replica n) then n
      else let n1 = reset_election_timeout env (persist_hard_state
                 (n\<lparr>pre_vote := None,
                    hard := \<lparr>current_term = wrap_add_u64 (term_of n) 1, voted_for = node_id (config n)\<rparr>,
                    role := Candidate, votes_received := {}, leader_id := 0\<rparr>))
           in if peers (config n1) = [] then become_leader ops env n1
              else n1\<lparr>pending_ready := (pending_ready n1)\<lparr>rd_vote_requests :=
                     rd_vote_requests (pending_ready n1) @
                     map (\<lambda>peer. (peer, \<lparr>rv_term = term_of n1, rv_candidate_id = node_id (config n1),
                            rv_last_log_index = last_index (rlog n1), rv_last_log_term = last_term (rlog n1),
                            rv_group_id = group_id (config n1), rv_transfer = False\<rparr>)) (peers (config n1))\<rparr>\<rparr>)"

definition start_pre_election :: "'s storage_ops \<Rightarrow> step_env \<Rightarrow> 's raft_node \<Rightarrow> 's raft_node" where
  "start_pre_election ops env n =
     (if role n \<in> {Learner, Observer} then n
      else if \<not> may_lead (replica n) then n
      else if peers (config n) = [] then start_election ops env n
      else let n1 = reset_election_timeout env n;
               t = wrap_add_u64 (term_of n1) 1;
               n2 = n1\<lparr>pre_vote := Some \<lparr>pvd_term = t, pvd_granted = {}\<rparr>\<rparr>
           in n2\<lparr>pending_ready := (pending_ready n2)\<lparr>rd_pre_vote_requests :=
                rd_pre_vote_requests (pending_ready n2) @
                map (\<lambda>peer. (peer, \<lparr>pv_term = t, pv_candidate_id = node_id (config n2),
                       pv_last_log_index = last_index (rlog n2), pv_last_log_term = last_term (rlog n2),
                       pv_group_id = group_id (config n2)\<rparr>)) (peers (config n2))\<rparr>\<rparr>)"

section \<open>RequestVote (rpc/request_vote.rs)\<close>

text \<open>The up-to-date rule, the same expression in the vote and the pre-vote handler.\<close>

definition log_ok :: "'s raft_log \<Rightarrow> u64 \<Rightarrow> u64 \<Rightarrow> bool" where
  "log_ok l req_last_term req_last_index \<longleftrightarrow> req_last_term > last_term l \<or>
     (req_last_term = last_term l \<and> req_last_index \<ge> last_index l)"

definition handle_request_vote_at ::
  "step_env \<Rightarrow> request_vote_request \<Rightarrow> 's raft_node \<Rightarrow> request_vote_response \<times> 's raft_node" where
  "handle_request_vote_at env req n =
     (let is_voter = role n \<in> {Follower, Candidate, Leader}
      in if is_voter \<and> \<not> rv_transfer req \<and> vote_refusal_active n (env_now env)
         then (\<lparr>rvr_term = term_of n, rvr_vote_granted = False\<rparr>, n)
         else let n1 = (if rv_term req > term_of n then become_follower env (rv_term req) n else n)
              in if rv_term req < term_of n1 then (\<lparr>rvr_term = term_of n1, rvr_vote_granted = False\<rparr>, n1)
                 else if role n1 \<in> {Learner, Observer}
                 then (\<lparr>rvr_term = term_of n1, rvr_vote_granted = False\<rparr>, n1)
                 else let can_vote = (vote_of n1 = 0 \<or> vote_of n1 = rv_candidate_id req)
                      in if can_vote \<and> log_ok (rlog n1) (rv_last_log_term req) (rv_last_log_index req)
                         then let n2 = reset_election_timeout env (persist_hard_state
                                    (n1\<lparr>hard := (hard n1)\<lparr>voted_for := rv_candidate_id req\<rparr>\<rparr>))
                              in (\<lparr>rvr_term = term_of n2, rvr_vote_granted = True\<rparr>, n2)
                         else (\<lparr>rvr_term = term_of n1, rvr_vote_granted = False\<rparr>, n1))"

definition handle_request_vote_response ::
  "'s storage_ops \<Rightarrow> step_env \<Rightarrow> node_id \<Rightarrow> request_vote_response \<Rightarrow> 's raft_node \<Rightarrow> 's raft_node" where
  "handle_request_vote_response ops env peer resp n =
     (if rvr_term resp > term_of n then become_follower env (rvr_term resp) n
      else if rvr_term resp < term_of n then n
      else if role n \<noteq> Candidate then n
      else if rvr_vote_granted resp then
        (let n1 = n\<lparr>votes_received := insert peer (votes_received n)\<rparr>;
             vote_count = card (votes_received n1) + 1
         in if vote_count \<ge> quorum (config n1) then become_leader ops env n1 else n1)
      else n)"

section \<open>PreVote (rpc/pre_vote.rs)\<close>

definition handle_pre_vote_at ::
  "instant \<Rightarrow> pre_vote_request \<Rightarrow> 's raft_node \<Rightarrow> pre_vote_response \<times> 's raft_node" where
  "handle_pre_vote_at now req n =
     (let t = term_of n;
          refuse = \<lparr>pvr_term = t, pvr_vote_granted = False\<rparr>
      in if role n \<in> {Leader, Learner, Observer} then (refuse, n)
         else if pv_term req \<le> t then (refuse, n)
         else if vote_refusal_active n now then (refuse, n)
         else if \<not> log_ok (rlog n) (pv_last_log_term req) (pv_last_log_index req) then (refuse, n)
         else (\<lparr>pvr_term = t, pvr_vote_granted = True\<rparr>, n))"

definition handle_pre_vote_response ::
  "'s storage_ops \<Rightarrow> step_env \<Rightarrow> node_id \<Rightarrow> pre_vote_response \<Rightarrow> 's raft_node \<Rightarrow> 's raft_node" where
  "handle_pre_vote_response ops env peer resp n =
     (if pvr_term resp > term_of n then (become_follower env (pvr_term resp) n)\<lparr>pre_vote := None\<rparr>
      else if role n = Leader then n
      else let next_term = wrap_add_u64 (term_of n) 1
           in case pre_vote n of
                None \<Rightarrow> n
              | Some round \<Rightarrow>
                  if pvd_term round \<noteq> next_term then n\<lparr>pre_vote := None\<rparr>
                  else if \<not> pvr_vote_granted resp then n
                  else let granted = insert peer (pvd_granted round);
                           n1 = n\<lparr>pre_vote := Some (round\<lparr>pvd_granted := granted\<rparr>)\<rparr>
                       in if card granted + 1 \<ge> quorum (config n)
                          then start_election ops env (n1\<lparr>pre_vote := None\<rparr>)
                          else n1)"

section \<open>Leadership transfer trigger (membership.rs)\<close>

definition try_emit_timeout_now :: "'s raft_node \<Rightarrow> 's raft_node" where
  "try_emit_timeout_now n =
     (case transfer n of
        None \<Rightarrow> n
      | Some t \<Rightarrow>
          if lt_emitted t then n
          else if match_index_for n (lt_target t) \<noteq> Some (last_index (rlog n)) then n
          else n\<lparr>pending_ready := (pending_ready n)\<lparr>rd_timeout_now :=
                   rd_timeout_now (pending_ready n) @
                   [(lt_target t, \<lparr>tn_term = term_of n, tn_leader_id = node_id (config n),
                                   tn_group_id = group_id (config n)\<rparr>)]\<rparr>,
                 transfer := Some (t\<lparr>lt_emitted := True\<rparr>)\<rparr>)"

section \<open>AppendEntries (rpc/append_entries.rs)\<close>

definition claimable_match :: "'s storage_ops \<Rightarrow> 's raft_node \<Rightarrow> u64 \<Rightarrow> bool \<Rightarrow> u64" where
  "claimable_match ops n matched wrote =
     (if wrote then matched else min matched (stable_index ops (rlog n)))"

definition ae_reply :: "'s raft_node \<Rightarrow> append_entries_request \<Rightarrow> bool \<Rightarrow> u64 \<Rightarrow> append_entries_response" where
  "ae_reply n req ok idx = \<lparr>aer_term = term_of n, aer_success = ok, aer_last_log_index = idx,
     aer_round = ae_round req, aer_replica = replica n\<rparr>"

definition prev_log_ok :: "'s raft_log \<Rightarrow> append_entries_request \<Rightarrow> bool" where
  "prev_log_ok l req \<longleftrightarrow>
     (ae_prev_log_index req > 0 \<longrightarrow> term_at l (ae_prev_log_index req) = Some (ae_prev_log_term req))"

definition ae_matched :: "append_entries_request \<Rightarrow> u64" where
  "ae_matched req = (if ae_entries req = [] then ae_prev_log_index req else le_index (last (ae_entries req)))"

text \<open>Following the sender: step down if need be, record the leader, its floor and its commit.\<close>

definition follow_leader :: "step_env \<Rightarrow> append_entries_request \<Rightarrow> 's raft_node \<Rightarrow> 's raft_node" where
  "follow_leader env req n =
     (let n1 = (if ae_term req > term_of n \<or> role n = Candidate \<or>
                   (role n = Leader \<and> ae_leader_id req \<noteq> node_id (config n))
                then become_follower env (ae_term req) n else n)
      in (reset_election_timeout env (n1\<lparr>leader_id := ae_leader_id req\<rparr>))
           \<lparr>repl_floor := max (repl_floor n1) (ae_replicated_floor req),
            contact := Some \<lparr>lc_leader_commit = ae_leader_commit req, lc_at = env_now env\<rparr>\<rparr>)"

definition follow_commit :: "append_entries_request \<Rightarrow> 's raft_node \<Rightarrow> 's raft_node" where
  "follow_commit req n =
     (let commit = min (ae_leader_commit req) (ae_matched req)
      in if commit > commit_of n
         then collect_committed_entries (n\<lparr>volatile := (volatile n)\<lparr>commit_index := commit\<rparr>\<rparr>)
         else n)"

definition handle_append_entries ::
  "'s storage_ops \<Rightarrow> step_env \<Rightarrow> append_entries_request \<Rightarrow> 's raft_node
     \<Rightarrow> append_entries_response \<times> 's raft_node" where
  "handle_append_entries ops env req n =
     (if ae_term req < term_of n then (ae_reply n req False (last_index (rlog n)), n)
      else
        let n1 = follow_leader env req n
        in if wants_snapshot (replica n1) then (ae_reply n1 req False (last_index (rlog n1)), n1)
           else if has_apply_gap n1 then (ae_reply n1 req False (applied_of n1), n1)
           else if \<not> prev_log_ok (rlog n1) req then (ae_reply n1 req False (last_index (rlog n1)), n1)
           else case append_entries ops (rlog n1) (ae_prev_log_index req) (ae_entries req) of
                  (Inl e, l) \<Rightarrow> let n2 = n1\<lparr>rlog := l\<rparr> in (ae_reply n2 req False (last_index l), n2)
                | (Inr wrote, l) \<Rightarrow>
                    let n2 = follow_commit req (n1\<lparr>rlog := l\<rparr>)
                    in (ae_reply n2 req True (claimable_match ops n2 (ae_matched req) wrote), n2))"

text \<open>Where a rejection moves the next index: back, never below the match.\<close>

definition back_off :: "u64 \<Rightarrow> u64 \<Rightarrow> u64 \<Rightarrow> u64" where
  "back_off peer_last current_next matched =
     (let new_next = peer_last + 1;
          backed_off = (if new_next < current_next then new_next else current_next - 1)
      in max (max backed_off (sat_add_u64 matched 1)) 1)"

definition observer_response :: "step_env \<Rightarrow> node_id \<Rightarrow> append_entries_response \<Rightarrow> 's raft_node \<Rightarrow> 's raft_node" where
  "observer_response env peer resp n =
     (case leader_st n of
        None \<Rightarrow> n
      | Some ls \<Rightarrow>
          if aer_success resp then
            n\<lparr>leader_st := Some (observer_state_mut peer
                (\<lambda>st. let st1 = (if aer_last_log_index resp > os_match_index st
                                 then st\<lparr>os_match_index := aer_last_log_index resp,
                                         os_next_index := aer_last_log_index resp + 1\<rparr> else st)
                      in st1\<lparr>pending_count := pending_count st1 - 1\<rparr>) ls)\<rparr>
          else send_append_entries_to_observer env peer
            (n\<lparr>leader_st := Some (observer_state_mut peer
                (\<lambda>st. st\<lparr>os_next_index := back_off (aer_last_log_index resp) (os_next_index st) (os_match_index st),
                         pending_count := pending_count st - 1\<rparr>) ls)\<rparr>))"

text \<open>The reply of a tracked peer: contact first, then the match or the back-off.\<close>

definition note_answer :: "node_id \<Rightarrow> replica_state \<Rightarrow> leader_state \<Rightarrow> leader_state" where
  "note_answer peer st ls = (let ls1 = record_ack peer ls in ls1\<lparr>peer_states := (peer_states ls1)(peer \<mapsto> st)\<rparr>)"

definition peer_contact :: "step_env \<Rightarrow> node_id \<Rightarrow> append_entries_response \<Rightarrow> leader_state \<Rightarrow> 's raft_node \<Rightarrow> 's raft_node" where
  "peer_contact env peer resp ls n =
     (let n1 = n\<lparr>leader_st := Some (record_ack peer ls)\<rparr>;
          n2 = (if peer \<in> set (peers (config n))
                then refresh_quorum_contact (env_now env)
                       (snd (settle_lease (record_lease_ack peer (aer_round resp) (env_now env) n1)))
                else n1)
      in n2\<lparr>leader_st := Some (note_answer peer (aer_replica resp) ls)\<rparr>)"

definition raise_match :: "node_id \<Rightarrow> u64 \<Rightarrow> leader_state \<Rightarrow> leader_state" where
  "raise_match peer new_match ls =
     (if new_match > ls_match_index_for ls peer
      then set_next_index peer (new_match + 1) (set_match_index peer new_match ls) else ls)"

definition peer_success ::
  "'s storage_ops \<Rightarrow> step_env \<Rightarrow> node_id \<Rightarrow> u64 \<Rightarrow> leader_state \<Rightarrow> 's raft_node \<Rightarrow> 's raft_node" where
  "peer_success ops env peer new_match ls n =
     (let n1 = n\<lparr>leader_st := Some (raise_match peer new_match ls)\<rparr>
      in if peer \<in> set (peers (config n))
         then let n2 = try_advance_commit_index ops n1
              in n2\<lparr>repl_floor := replicated_floor_at n2 (env_now env)\<rparr>
         else n1)"

definition peer_rejection ::
  "step_env \<Rightarrow> node_id \<Rightarrow> append_entries_response \<Rightarrow> leader_state \<Rightarrow> 's raft_node \<Rightarrow> 's raft_node" where
  "peer_rejection env peer resp ls n =
     (if wants_snapshot (aer_replica resp) then
        (if peer \<in> set (rd_snapshots_needed (pending_ready n)) then n else push_snapshot_needed peer n)
      else send_append_entries env peer
             (n\<lparr>leader_st := Some (set_next_index peer
                  (back_off (aer_last_log_index resp) (next_index_for ls peer) (ls_match_index_for ls peer)) ls)\<rparr>))"

definition handle_append_entries_response ::
  "'s storage_ops \<Rightarrow> step_env \<Rightarrow> node_id \<Rightarrow> append_entries_response \<Rightarrow> 's raft_node \<Rightarrow> 's raft_node" where
  "handle_append_entries_response ops env peer resp n =
     (if aer_term resp > term_of n then become_follower env (aer_term resp) n
      else if aer_term resp < term_of n then n
      else if role n \<noteq> Leader then n
      else if peer \<in> set (observers (config n)) then observer_response env peer resp n
      else case leader_st n of
             None \<Rightarrow> n
           | Some ls0 \<Rightarrow>
               let n1 = peer_contact env peer resp ls0 n;
                   ls = note_answer peer (aer_replica resp) ls0
               in try_emit_timeout_now
                    (if aer_success resp then peer_success ops env peer (aer_last_log_index resp) ls n1
                     else peer_rejection env peer resp ls n1))"

section \<open>InstallSnapshot (rpc/install_snapshot.rs)\<close>

text \<open>The watermarks and the delivery queue once the boundary is in place.\<close>

definition resume_at_boundary :: "u64 \<Rightarrow> 's raft_node \<Rightarrow> 's raft_node" where
  "resume_at_boundary idx n =
     (let n1 = n\<lparr>volatile := \<lparr>commit_index = max (commit_of n) idx, last_applied = max (applied_of n) idx\<rparr>\<rparr>;
          rdy = (pending_ready n1)\<lparr>rd_committed_entries :=
                  filter (\<lambda>e. le_index e > idx) (rd_committed_entries (pending_ready n1))\<rparr>
      in n1\<lparr>pending_ready := (if \<not> has_apply_gap n1 then rdy\<lparr>rd_committed_read_error := None\<rparr> else rdy)\<rparr>)"

definition adopt_snapshot_boundary ::
  "'s storage_ops \<Rightarrow> u64 \<Rightarrow> u64 \<Rightarrow> 's raft_node \<Rightarrow> unit result \<times> 's raft_node" where
  "adopt_snapshot_boundary ops idx t n =
     (let moves_boundary = idx > snapshot_index (rlog n)
      in if \<not> moves_boundary \<and> idx \<le> applied_of n then (Inr (), n)
         else case (if moves_boundary then apply_snapshot ops (rlog n) idx t else (Inr (), rlog n)) of
                (Inl e, l) \<Rightarrow> (Inl e, n\<lparr>rlog := l\<rparr>)
              | (Inr _, l) \<Rightarrow> save_durable_applied_index ops idx (resume_at_boundary idx (n\<lparr>rlog := l\<rparr>)))"

definition handle_install_snapshot ::
  "'s storage_ops \<Rightarrow> step_env \<Rightarrow> install_snapshot_request \<Rightarrow> 's raft_node
     \<Rightarrow> install_snapshot_response result \<times> 's raft_node" where
  "handle_install_snapshot ops env req n =
     (if is_term req < term_of n then (Inr \<lparr>isr_term = term_of n\<rparr>, n)
      else let n1 = (if is_term req > term_of n then become_follower env (is_term req) n else n);
               n2 = reset_election_timeout env (n1\<lparr>leader_id := is_leader_id req\<rparr>)
           in if is_done req then
                (case adopt_snapshot_boundary ops (is_last_included_index req) (is_last_included_term req) n2 of
                   (Inl e, n3) \<Rightarrow> (Inl e, n3)
                 | (Inr _, n3) \<Rightarrow> (Inr \<lparr>isr_term = term_of n3\<rparr>, n3))
              else (Inr \<lparr>isr_term = term_of n2\<rparr>, n2))"

definition record_snapshot_installed :: "node_id \<Rightarrow> u64 \<Rightarrow> 's raft_node \<Rightarrow> 's raft_node" where
  "record_snapshot_installed peer idx n =
     (case leader_st n of
        None \<Rightarrow> n
      | Some ls \<Rightarrow>
          n\<lparr>leader_st := Some (raise_match peer idx ls)\<rparr>)"

section \<open>TimeoutNow (rpc/timeout_now.rs)\<close>

definition handle_timeout_now ::
  "'s storage_ops \<Rightarrow> step_env \<Rightarrow> timeout_now_request \<Rightarrow> 's raft_node \<Rightarrow> 's raft_node" where
  "handle_timeout_now ops env req n =
     (if role n = Follower \<and> tn_term req = term_of n \<and> tn_leader_id req = leader_id n then
        (let n1 = start_election ops env n
         in n1\<lparr>pending_ready := (pending_ready n1)\<lparr>rd_vote_requests :=
              map (\<lambda>(peer, v). (peer, if rv_term v = term_of n1 then v\<lparr>rv_transfer := True\<rparr> else v))
                (rd_vote_requests (pending_ready n1))\<rparr>\<rparr>)
      else n)"

section \<open>Clock and proposals (core.rs)\<close>

definition on_storage_progress :: "'s storage_ops \<Rightarrow> 's raft_node \<Rightarrow> 's raft_node" where
  "on_storage_progress ops n = (if leader_st n \<noteq> None then try_advance_commit_index ops n else n)"

definition tick :: "'s storage_ops \<Rightarrow> step_env \<Rightarrow> 's raft_node \<Rightarrow> 's raft_node" where
  "tick ops env n =
     (let now = env_now env
      in case role n of
           Leader \<Rightarrow>
             let n1 = (case transfer n of
                         Some t \<Rightarrow> if now \<ge> lt_deadline t then n\<lparr>transfer := None\<rparr> else n
                       | None \<Rightarrow> n);
                 n2 = refresh_quorum_contact now n1
             in if quorum_contact_lost n2 now then become_follower env (term_of n2) n2
                else if now \<ge> heartbeat_deadline n2
                then (replicate_to_all env n2)\<lparr>heartbeat_deadline := now + heartbeat_interval (config n2)\<rparr>
                else n2
         | Learner \<Rightarrow> n
         | Observer \<Rightarrow> n
         | _ \<Rightarrow> if now \<ge> election_deadline n then start_pre_election ops env n else n)"

definition leader_hint :: "'s raft_node \<Rightarrow> node_id option" where
  "leader_hint n = (if leader_id n \<noteq> 0 then Some (leader_id n) else None)"

definition propose :: "'s storage_ops \<Rightarrow> step_env \<Rightarrow> byte list \<Rightarrow> 's raft_node \<Rightarrow> u64 result \<times> 's raft_node" where
  "propose ops env data n =
     (if role n \<noteq> Leader then (Inl (NotLeader (leader_hint n) (term_of n)), n)
      else if transfer n \<noteq> None then (Inl LeadershipTransferInProgress, n)
      else let index = last_index (rlog n) + 1;
               entry = \<lparr>le_term = term_of n, le_index = index, le_data = data\<rparr>
           in case log_append ops (rlog n) entry of
                (Inl e, l) \<Rightarrow> (Inl e, n\<lparr>rlog := l\<rparr>)
              | (Inr _, l) \<Rightarrow>
                  let n1 = replicate_to_all env (n\<lparr>rlog := l\<rparr>);
                      n2 = (if cluster_size (config n1) = 1 then try_advance_commit_index ops n1 else n1)
                  in (Inr index, n2))"

section \<open>Membership (membership.rs)\<close>

definition set_voters :: "node_id list \<Rightarrow> 's raft_node \<Rightarrow> 's raft_node" where
  "set_voters new_voters n =
     (let li = last_index (rlog n);
          old = peers (config n);
          ln = learners (config n);
          track = (\<lambda>ls. fold (\<lambda>peer l. if peer \<notin> set new_voters \<and> peer \<notin> set ln then ls_remove_peer peer l else l) old
                    (fold (\<lambda>peer l. if peer \<notin> set old \<and> peer \<notin> set ln then ls_add_peer peer li l else l) new_voters ls))
      in n\<lparr>leader_st := map_option track (leader_st n),
           config := (config n)\<lparr>peers := new_voters\<rparr>,
           lease := clear_anchor (lease n)\<rparr>)"

definition add_peer :: "node_id \<Rightarrow> 's raft_node \<Rightarrow> 's raft_node" where
  "add_peer peer n =
     (if peer = node_id (config n) \<or> peer \<in> set (peers (config n)) \<or> peer \<in> set (learners (config n)) then n
      else set_voters (peers (config n) @ [peer]) n)"

definition notify_removed_peer :: "step_env \<Rightarrow> node_id \<Rightarrow> 's raft_node \<Rightarrow> 's raft_node" where
  "notify_removed_peer env peer n =
     (let tracked = peer \<in> set (peers (config n)) \<or> peer \<in> set (learners (config n))
      in if role n \<noteq> Leader \<or> \<not> tracked then n else send_append_entries env peer n)"

definition remove_peer :: "node_id \<Rightarrow> 's raft_node \<Rightarrow> 's raft_node" where
  "remove_peer peer n =
     (if peer \<notin> set (peers (config n)) then n
      else set_voters (filter (\<lambda>i. i \<noteq> peer) (peers (config n))) n)"

definition add_learner :: "node_id \<Rightarrow> 's raft_node \<Rightarrow> 's raft_node" where
  "add_learner peer n =
     (if peer = node_id (config n) \<or> peer \<in> set (peers (config n)) \<or> peer \<in> set (learners (config n)) then n
      else n\<lparr>leader_st := map_option (ls_add_peer peer (last_index (rlog n))) (leader_st n),
             config := (config n)\<lparr>learners := learners (config n) @ [peer]\<rparr>\<rparr>)"

definition remove_learner :: "node_id \<Rightarrow> 's raft_node \<Rightarrow> 's raft_node" where
  "remove_learner peer n =
     (if peer \<notin> set (learners (config n)) then n
      else n\<lparr>leader_st := map_option (ls_remove_peer peer) (leader_st n),
             config := (config n)\<lparr>learners := filter (\<lambda>i. i \<noteq> peer) (learners (config n))\<rparr>\<rparr>)"

definition promote_learner :: "node_id \<Rightarrow> 's raft_node \<Rightarrow> bool \<times> 's raft_node" where
  "promote_learner peer n =
     (if peer \<notin> set (learners (config n)) then (False, n)
      else (True, n\<lparr>config := (config n)
             \<lparr>learners := filter (\<lambda>i. i \<noteq> peer) (learners (config n)),
              peers := (if peer \<in> set (peers (config n)) then peers (config n) else peers (config n) @ [peer])\<rparr>\<rparr>))"

definition promote_self_to_voter :: "'s raft_node \<Rightarrow> 's raft_node" where
  "promote_self_to_voter n =
     (if role n = Learner then n\<lparr>role := Follower, config := (config n)\<lparr>starts_as_learner := False\<rparr>\<rparr> else n)"

definition transfer_leadership :: "step_env \<Rightarrow> node_id \<Rightarrow> 's raft_node \<Rightarrow> unit result \<times> 's raft_node" where
  "transfer_leadership env target n =
     (if role n \<noteq> Leader then (Inl (NotLeader (leader_hint n) (term_of n)), n)
      else if target = node_id (config n) \<or> target \<notin> set (peers (config n)) then (Inl (InvalidTransferTarget target), n)
      else if transfer n \<noteq> None then (Inr (), n)
      else let n1 = n\<lparr>transfer := Some \<lparr>lt_target = target, lt_emitted = False,
                        lt_deadline = env_now env + election_timeout_max (config n)\<rparr>,
                      lease := revoke (lease n)\<rparr>
           in (Inr (), try_emit_timeout_now n1))"

section \<open>Snapshot debt (snapshot_debt.rs)\<close>

text \<open>\<open>max_by_key\<close>: of several maximal elements Rust returns the last.\<close>

fun max_by_key :: "('a \<Rightarrow> nat) \<Rightarrow> 'a list \<Rightarrow> 'a option" where
  "max_by_key f [] = None"
| "max_by_key f (x # xs) =
     (case max_by_key f xs of None \<Rightarrow> Some x | Some y \<Rightarrow> if f x > f y then Some x else Some y)"

definition hand_off_target :: "'s raft_node \<Rightarrow> node_id option" where
  "hand_off_target n =
     (let candidates = filter (\<lambda>(_, matched). matched \<ge> commit_of n)
            (List.map_filter (\<lambda>peer. map_option (\<lambda>m. (peer, m)) (match_index_for n peer))
              (filter (peer_answered_whole n) (peers (config n))))
      in map_option fst (max_by_key snd candidates))"

definition stand_down_for_snapshot :: "step_env \<Rightarrow> 's raft_node \<Rightarrow> 's raft_node" where
  "stand_down_for_snapshot env n =
     (let t = term_of n
      in case role n of
           Leader \<Rightarrow>
             let n1 = (case hand_off_target n of
                         None \<Rightarrow> n
                       | Some target \<Rightarrow>
                           n\<lparr>lease := revoke (lease n),
                             pending_ready := (pending_ready n)\<lparr>rd_timeout_now :=
                               rd_timeout_now (pending_ready n) @
                               [(target, \<lparr>tn_term = t, tn_leader_id = node_id (config n),
                                          tn_group_id = group_id (config n)\<rparr>)]\<rparr>\<rparr>)
             in become_follower env t n1
         | Candidate \<Rightarrow> become_follower env t n
         | Follower \<Rightarrow> n\<lparr>pre_vote := None\<rparr>
         | _ \<Rightarrow> n)"

definition set_replica_state :: "step_env \<Rightarrow> replica_state \<Rightarrow> 's raft_node \<Rightarrow> 's raft_node" where
  "set_replica_state env st n =
     (let n1 = n\<lparr>replica := st\<rparr> in if \<not> may_lead st then stand_down_for_snapshot env n1 else n1)"

section \<open>Linearizable reads (read_index.rs, leader_lease.rs)\<close>

datatype read_index_status = Confirmed | Pending | LeadershipLost

record read_index_probe =
  read_index :: u64
  rp_term :: u64
  rp_acks :: "(node_id \<times> u64) list"

definition current_term_committed :: "'s raft_node \<Rightarrow> bool" where
  "current_term_committed n \<longleftrightarrow> term_at (rlog n) (commit_of n) = Some (term_of n)"

definition term_read_floor :: "'s raft_node \<Rightarrow> u64" where
  "term_read_floor n =
     (let commit = commit_of n; li = last_index (rlog n)
      in if current_term_committed n then commit
         else case find (\<lambda>i. term_at (rlog n) i = Some (term_of n)) [commit + 1..<li + 1] of
                Some i \<Rightarrow> i
              | None \<Rightarrow> li + 1)"

definition start_read_index :: "step_env \<Rightarrow> 's raft_node \<Rightarrow> read_index_probe option \<times> 's raft_node" where
  "start_read_index env n =
     (if role n \<noteq> Leader then (None, n)
      else case leader_st n of
             None \<Rightarrow> (None, n)
           | Some ls \<Rightarrow>
               let probe = \<lparr>read_index = term_read_floor n, rp_term = term_of n,
                     rp_acks = map (\<lambda>i. (i, ack_count_for ls i)) (peers (config n))\<rparr>
               in (Some probe, replicate_to_all env n))"

definition read_index_status :: "'s raft_node \<Rightarrow> read_index_probe \<Rightarrow> read_index_status" where
  "read_index_status n probe =
     (if role n \<noteq> Leader \<or> term_of n \<noteq> rp_term probe then LeadershipLost
      else case leader_st n of
             None \<Rightarrow> LeadershipLost
           | Some ls \<Rightarrow>
               if commit_of n < read_index probe then Pending
               else let n_acks = 1 + length (filter (\<lambda>(peer, seen). ack_count_for ls peer > seen) (rp_acks probe))
                    in if n_acks \<ge> quorum (config n) then Confirmed else Pending)"

definition read_index_confirmed :: "'s raft_node \<Rightarrow> read_index_probe \<Rightarrow> bool" where
  "read_index_confirmed n probe \<longleftrightarrow> read_index_status n probe = Confirmed"

definition lease_valid :: "(duration \<Rightarrow> duration) \<Rightarrow> 's raft_node \<Rightarrow> instant \<Rightarrow> bool" where
  "lease_valid drift n now =
     (if role n \<noteq> Leader \<or> transfer n \<noteq> None \<or> \<not> current_term_committed n then False
      else if peers (config n) = [] then \<not> revoked (lease n)
      else case expires_at (lease n) (lease_duration drift (config n)) of
             None \<Rightarrow> False
           | Some t \<Rightarrow> now < t)"

definition lease_read_index :: "(duration \<Rightarrow> duration) \<Rightarrow> 's raft_node \<Rightarrow> instant \<Rightarrow> u64 option" where
  "lease_read_index drift n now = (if lease_valid drift n now then Some (commit_of n) else None)"

end
