(* ===== verification/Raft_Step.thy ===== *)
theory Raft_Step
  imports Raft_Handlers
begin

text \<open>
  Every call a driver can make on a node, as one event type and one transition function, the
  driver's tick of one group (\<open>nodedb-cluster/src/multi_raft/core.rs\<close>), and the
  facts that hold of every such call: the term never falls and a vote cast in a term is final, the
  commit index and the applied watermark never fall, and a node is a leader exactly while it has
  leader state. Read-only queries need no event. The overrides that exist for tests
  (\<open>election_deadline_override\<close> and the like) are left out.
\<close>

section \<open>Events\<close>

datatype node_event =
    Tick
  | Propose "byte list"
  | RecvAppend append_entries_request
  | RecvAppendResp node_id append_entries_response
  | RecvVote request_vote_request
  | RecvVoteResp node_id request_vote_response
  | RecvPreVote pre_vote_request
  | RecvPreVoteResp node_id pre_vote_response
  | RecvSnapshot install_snapshot_request
  | AdoptSnapshot u64 u64
  | SnapshotInstalled node_id u64
  | RecvTimeoutNow timeout_now_request
  | AddPeer node_id
  | RemovePeer node_id
  | NotifyRemoved node_id
  | AddLearner node_id
  | RemoveLearner node_id
  | PromoteLearner node_id
  | PromoteSelf
  | TransferLeadership node_id
  | SetReplicaState replica_state
  | StartRead
  | StorageProgress
  | TakeReady
  | PersistHardState
  | AdvanceApplied u64
  | Requeue "log_entry list"
  | SaveApplied u64
  | CompactLog u64
  | MaybeCompact u64
  | SetCeiling u64

fun exec :: "'s storage_ops \<Rightarrow> step_env \<Rightarrow> node_event \<Rightarrow> 's raft_node \<Rightarrow> 's raft_node" where
  "exec ops env Tick n = tick ops env n"
| "exec ops env (Propose d) n = snd (propose ops env d n)"
| "exec ops env (RecvAppend req) n = snd (handle_append_entries ops env req n)"
| "exec ops env (RecvAppendResp p resp) n = handle_append_entries_response ops env p resp n"
| "exec ops env (RecvVote req) n = snd (handle_request_vote_at env req n)"
| "exec ops env (RecvVoteResp p resp) n = handle_request_vote_response ops env p resp n"
| "exec ops env (RecvPreVote req) n = snd (handle_pre_vote_at (env_now env) req n)"
| "exec ops env (RecvPreVoteResp p resp) n = handle_pre_vote_response ops env p resp n"
| "exec ops env (RecvSnapshot req) n = snd (handle_install_snapshot ops env req n)"
| "exec ops env (AdoptSnapshot i t) n = snd (adopt_snapshot_boundary ops i t n)"
| "exec ops env (SnapshotInstalled p i) n = record_snapshot_installed p i n"
| "exec ops env (RecvTimeoutNow req) n = handle_timeout_now ops env req n"
| "exec ops env (AddPeer p) n = add_peer p n"
| "exec ops env (RemovePeer p) n = remove_peer p n"
| "exec ops env (NotifyRemoved p) n = notify_removed_peer env p n"
| "exec ops env (AddLearner p) n = add_learner p n"
| "exec ops env (RemoveLearner p) n = remove_learner p n"
| "exec ops env (PromoteLearner p) n = snd (promote_learner p n)"
| "exec ops env PromoteSelf n = promote_self_to_voter n"
| "exec ops env (TransferLeadership p) n = snd (transfer_leadership env p n)"
| "exec ops env (SetReplicaState st) n = set_replica_state env st n"
| "exec ops env StartRead n = snd (start_read_index env n)"
| "exec ops env StorageProgress n = on_storage_progress ops n"
| "exec ops env TakeReady n = snd (take_ready n)"
| "exec ops env PersistHardState n = snd (persist_hard_state_if_dirty ops n)"
| "exec ops env (AdvanceApplied i) n = advance_applied i n"
| "exec ops env (Requeue es) n = requeue_committed es n"
| "exec ops env (SaveApplied i) n = snd (save_durable_applied_index ops i n)"
| "exec ops env (CompactLog i) n = snd (compact_log_up_to ops i n)"
| "exec ops env (MaybeCompact i) n = snd (maybe_compact_log ops i n)"
| "exec ops env (SetCeiling c) n = set_compaction_ceiling c n"

text \<open>A run: events in order, each with the clock and timeout it sees.\<close>

definition run :: "'s storage_ops \<Rightarrow> (step_env \<times> node_event) list \<Rightarrow> 's raft_node \<Rightarrow> 's raft_node" where
  "run ops evs n = fold (\<lambda>(env, ev). exec ops env ev) evs n"

lemma run_simps [simp]:
  "run ops [] n = n" "run ops ((env, ev) # evs) n = run ops evs (exec ops env ev n)"
  by (simp_all add: run_def)

lemma run_invariant:
  assumes "\<And>env ev n. P n \<Longrightarrow> P (exec ops env ev n)" and "P n"
  shows "P (run ops evs n)"
  using assms(2) by (induction evs arbitrary: n) (auto simp: assms(1))

text \<open>A run each of whose calls meets a condition on the node it reaches.\<close>

fun run_ok :: "(node_event \<Rightarrow> 's raft_node \<Rightarrow> bool) \<Rightarrow> 's storage_ops \<Rightarrow> (step_env \<times> node_event) list \<Rightarrow>
    's raft_node \<Rightarrow> bool" where
  "run_ok ok ops [] n = True"
| "run_ok ok ops ((env, ev) # evs) n = (ok ev n \<and> run_ok ok ops evs (exec ops env ev n))"

lemma run_ok_invariant:
  assumes "\<And>env ev n. P n \<Longrightarrow> ok ev n \<Longrightarrow> P (exec ops env ev n)" and "run_ok ok ops evs n" and "P n"
  shows "P (run ops evs n)"
  using assms(2,3) by (induction evs arbitrary: n) (auto simp: assms(1))

section \<open>The tick of one group (multi_raft/core.rs)\<close>

definition group_tick :: "'s storage_ops \<Rightarrow> step_env \<Rightarrow> 's raft_node \<Rightarrow> ready result \<times> 's raft_node" where
  "group_tick ops env n =
     (let n1 = tick ops env (on_storage_progress ops n)
      in case persist_hard_state_if_dirty ops n1 of
           (Inl e, n2) \<Rightarrow> (Inl e, n2)
         | (Inr _, n2) \<Rightarrow> let (r, n3) = take_ready n2 in (Inr r, n3))"

section \<open>Frames of the transitions\<close>

lemma snd_case_result:
  "snd (case x of (Inl e, m) \<Rightarrow> (Inl e, m) | (Inr u, m) \<Rightarrow> (Inr (f m), m)) = snd x"
  by (simp split: prod.split sum.split)

lemma become_follower_frame [frame, simp]:
  "config (become_follower env t n) = config n" "volatile (become_follower env t n) = volatile n"
  "rlog (become_follower env t n) = rlog n" "leader_st (become_follower env t n) = None"
  "term_of (become_follower env t n) = t" "votes_received (become_follower env t n) = {}"
  "vote_of (become_follower env t n) = (if t > term_of n then 0 else vote_of n)"
  "transfer (become_follower env t n) = None" "replica (become_follower env t n) = replica n"
  "contact (become_follower env t n) = contact n" "repl_floor (become_follower env t n) = repl_floor n"
  "durable_applied (become_follower env t n) = durable_applied n"
  "boot_vote_fence (become_follower env t n) = boot_vote_fence n"
  "compaction_ceiling (become_follower env t n) = compaction_ceiling n"
  "pending_ready (become_follower env t n) = (pending_ready n)\<lparr>rd_hard_state := Some (hard (become_follower env t n))\<rparr>"
  by (simp_all add: become_follower_def Let_def) (simp add: persist_hard_state_def)

lemma role_become_follower [simp]:
  "role (become_follower env t n) = (if role n \<in> {Learner, Observer} then role n else Follower)"
  by (cases "role n") (simp_all add: become_follower_def Let_def)

lemma try_advance_commit_applied [frame, simp]:
  "applied_of (try_advance_commit_index ops n) = applied_of n"
  by (simp add: try_advance_commit_index_def split: option.split)

lemma take_lead_frame [frame, simp]:
  "config (take_lead ops env n) = config n" "hard (take_lead ops env n) = hard n"
  "role (take_lead ops env n) = Leader" "volatile (take_lead ops env n) = volatile n"
  "votes_received (take_lead ops env n) = votes_received n" "transfer (take_lead ops env n) = transfer n"
  "replica (take_lead ops env n) = replica n" "contact (take_lead ops env n) = contact n"
  "durable_applied (take_lead ops env n) = durable_applied n" "repl_floor (take_lead ops env n) = repl_floor n"
  "boot_vote_fence (take_lead ops env n) = boot_vote_fence n" "pre_vote (take_lead ops env n) = pre_vote n"
  "compaction_ceiling (take_lead ops env n) = compaction_ceiling n"
  "pending_ready (take_lead ops env n) = pending_ready n"
  "leader_st (take_lead ops env n) = Some (leader_state_for (config n) (last_index (rlog n)))"
  by (simp_all add: take_lead_def arm_quorum_window_def Let_def)

lemma become_leader_frame [frame, simp]:
  "config (become_leader ops env n) = config n" "hard (become_leader ops env n) = hard n"
  "role (become_leader ops env n) = Leader" "applied_of (become_leader ops env n) = applied_of n"
  "votes_received (become_leader ops env n) = votes_received n" "transfer (become_leader ops env n) = transfer n"
  "replica (become_leader ops env n) = replica n" "contact (become_leader ops env n) = contact n"
  "durable_applied (become_leader ops env n) = durable_applied n"
  "repl_floor (become_leader ops env n) = repl_floor n"
  "boot_vote_fence (become_leader ops env n) = boot_vote_fence n"
  "compaction_ceiling (become_leader ops env n) = compaction_ceiling n"
  "pre_vote (become_leader ops env n) = pre_vote n"
  by (simp_all add: become_leader_def Let_def)

lemma follow_leader_frame [frame, simp]:
  "config (follow_leader env req n) = config n" "volatile (follow_leader env req n) = volatile n"
  "rlog (follow_leader env req n) = rlog n" "replica (follow_leader env req n) = replica n"
  "durable_applied (follow_leader env req n) = durable_applied n"
  "leader_id (follow_leader env req n) = ae_leader_id req"
  "contact (follow_leader env req n) = Some \<lparr>lc_leader_commit = ae_leader_commit req, lc_at = env_now env\<rparr>"
  "repl_floor (follow_leader env req n) = max (repl_floor n) (ae_replicated_floor req)"
  "boot_vote_fence (follow_leader env req n) = boot_vote_fence n"
  by (simp_all add: follow_leader_def Let_def)

lemma follow_commit_frame [frame, simp]:
  "config (follow_commit req n) = config n" "role (follow_commit req n) = role n"
  "hard (follow_commit req n) = hard n" "leader_st (follow_commit req n) = leader_st n"
  "rlog (follow_commit req n) = rlog n" "replica (follow_commit req n) = replica n"
  "applied_of (follow_commit req n) = applied_of n" "contact (follow_commit req n) = contact n"
  "durable_applied (follow_commit req n) = durable_applied n" "repl_floor (follow_commit req n) = repl_floor n"
  "commit_of (follow_commit req n) = max (commit_of n) (min (ae_leader_commit req) (ae_matched req))"
  by (auto simp: follow_commit_def Let_def)

lemma peer_contact_frame [frame, simp]:
  "config (peer_contact env p resp ls n) = config n" "role (peer_contact env p resp ls n) = role n"
  "hard (peer_contact env p resp ls n) = hard n" "volatile (peer_contact env p resp ls n) = volatile n"
  "rlog (peer_contact env p resp ls n) = rlog n" "transfer (peer_contact env p resp ls n) = transfer n"
  "leader_st (peer_contact env p resp ls n) = Some (note_answer p (aer_replica resp) ls)"
  "durable_applied (peer_contact env p resp ls n) = durable_applied n"
  "repl_floor (peer_contact env p resp ls n) = repl_floor n"
  "pending_ready (peer_contact env p resp ls n) = pending_ready n"
  by (simp_all add: peer_contact_def Let_def)

lemma peer_success_frame [frame, simp]:
  "config (peer_success ops env p i ls n) = config n" "role (peer_success ops env p i ls n) = role n"
  "hard (peer_success ops env p i ls n) = hard n" "applied_of (peer_success ops env p i ls n) = applied_of n"
  "leader_st (peer_success ops env p i ls n) = Some (raise_match p i ls)"
  "rlog (peer_success ops env p i ls n) = rlog n"
  "durable_applied (peer_success ops env p i ls n) = durable_applied n"
  by (simp_all add: peer_success_def Let_def)

lemma peer_rejection_frame [frame, simp]:
  "config (peer_rejection env p resp ls n) = config n" "role (peer_rejection env p resp ls n) = role n"
  "hard (peer_rejection env p resp ls n) = hard n" "volatile (peer_rejection env p resp ls n) = volatile n"
  "rlog (peer_rejection env p resp ls n) = rlog n"
  "durable_applied (peer_rejection env p resp ls n) = durable_applied n"
  "repl_floor (peer_rejection env p resp ls n) = repl_floor n"
  by (simp_all add: peer_rejection_def)

lemma observer_response_frame [frame, simp]:
  "config (observer_response env p resp n) = config n" "role (observer_response env p resp n) = role n"
  "hard (observer_response env p resp n) = hard n" "volatile (observer_response env p resp n) = volatile n"
  "rlog (observer_response env p resp n) = rlog n" "lease (observer_response env p resp n) = lease n"
  "durable_applied (observer_response env p resp n) = durable_applied n"
  "repl_floor (observer_response env p resp n) = repl_floor n"
  by (simp_all add: observer_response_def split: option.split)

lemma try_emit_timeout_now_frame [frame, simp]:
  "config (try_emit_timeout_now n) = config n" "role (try_emit_timeout_now n) = role n"
  "hard (try_emit_timeout_now n) = hard n" "volatile (try_emit_timeout_now n) = volatile n"
  "leader_st (try_emit_timeout_now n) = leader_st n" "rlog (try_emit_timeout_now n) = rlog n"
  "votes_received (try_emit_timeout_now n) = votes_received n" "replica (try_emit_timeout_now n) = replica n"
  "contact (try_emit_timeout_now n) = contact n" "durable_applied (try_emit_timeout_now n) = durable_applied n"
  "lease (try_emit_timeout_now n) = lease n" "repl_floor (try_emit_timeout_now n) = repl_floor n"
  "boot_vote_fence (try_emit_timeout_now n) = boot_vote_fence n"
  by (simp_all add: try_emit_timeout_now_def split: option.split)

lemma save_durable_applied_index_frame [frame, simp]:
  "config (snd (save_durable_applied_index ops i n)) = config n"
  "role (snd (save_durable_applied_index ops i n)) = role n"
  "hard (snd (save_durable_applied_index ops i n)) = hard n"
  "volatile (snd (save_durable_applied_index ops i n)) = volatile n"
  "leader_st (snd (save_durable_applied_index ops i n)) = leader_st n"
  "pending_ready (snd (save_durable_applied_index ops i n)) = pending_ready n"
  "contact (snd (save_durable_applied_index ops i n)) = contact n"
  by (simp_all add: save_durable_applied_index_def split: sum.split prod.split)

lemma resume_at_boundary_frame [frame, simp]:
  "config (resume_at_boundary i n) = config n" "role (resume_at_boundary i n) = role n"
  "hard (resume_at_boundary i n) = hard n" "leader_st (resume_at_boundary i n) = leader_st n"
  "rlog (resume_at_boundary i n) = rlog n" "durable_applied (resume_at_boundary i n) = durable_applied n"
  "contact (resume_at_boundary i n) = contact n"
  "commit_of (resume_at_boundary i n) = max (commit_of n) i"
  "applied_of (resume_at_boundary i n) = max (applied_of n) i"
  by (simp_all add: resume_at_boundary_def Let_def)

section \<open>Terms and votes\<close>

text \<open>The order in which hard state may move: a higher term, or the same term with a cast vote kept.\<close>

definition hard_le :: "hard_state \<Rightarrow> hard_state \<Rightarrow> bool" where
  "hard_le h h' \<longleftrightarrow> current_term h < current_term h' \<or>
     (current_term h = current_term h' \<and> (voted_for h = 0 \<or> voted_for h' = voted_for h))"

lemma hard_le_refl [simp]: "hard_le h h"
  by (simp add: hard_le_def)

lemma hard_le_trans: "hard_le a b \<Longrightarrow> hard_le b c \<Longrightarrow> hard_le a c"
  by (auto simp: hard_le_def)

lemma hard_le_become_follower:
  "hard m = hard n \<Longrightarrow> term_of n \<le> t \<Longrightarrow> hard_le (hard n) (hard (become_follower env t m))"
  by (auto simp: hard_le_def)

text \<open>
  An election adds one to the term, a \<open>u64\<close>: past the greatest term the sum wraps to zero. So the
  order is kept as long as the term is below \<open>u64::MAX\<close>, and not at \<open>u64::MAX\<close>.
\<close>

definition term_fits :: "'s raft_node \<Rightarrow> bool" where
  "term_fits n \<longleftrightarrow> term_of n < u64_max"

lemma term_fits_cong: "hard m = hard n \<Longrightarrow> term_fits m = term_fits n"
  by (simp add: term_fits_def)

lemma next_term: "term_fits n \<Longrightarrow> wrap_add_u64 (term_of n) (Suc 0) = Suc (term_of n)"
  by (simp add: term_fits_def wrap_add_u64_small)

lemma hard_start_election:
  "hard (start_election ops env n) = hard n \<or>
   hard (start_election ops env n) = \<lparr>current_term = wrap_add_u64 (term_of n) 1, voted_for = node_id (config n)\<rparr>"
  by (simp add: start_election_def Let_def)

lemma hard_le_start_election [simp]: "term_fits n \<Longrightarrow> hard_le (hard n) (hard (start_election ops env n))"
  using hard_start_election [of ops env n] by (auto simp: hard_le_def next_term)

lemma hard_le_start_pre_election [simp]: "term_fits n \<Longrightarrow> hard_le (hard n) (hard (start_pre_election ops env n))"
  by (simp add: start_pre_election_def Let_def)

lemma election_wraps:
  assumes "term_of n = u64_max" and "role n \<notin> {Learner, Observer}" and "may_lead (replica n)"
  shows "term_of (start_election ops env n) = 0"
  using assms wrap_add_u64_max by (simp add: start_election_def Let_def)

lemma hard_adopt_snapshot_boundary [frame, simp]: "hard (snd (adopt_snapshot_boundary ops i t n)) = hard n"
  by (simp add: adopt_snapshot_boundary_def resume_at_boundary_def Let_def split: sum.split prod.split)

lemma hard_le_handle_request_vote: "hard_le (hard n) (hard (snd (handle_request_vote_at env req n)))"
  by (auto simp: handle_request_vote_at_def Let_def hard_le_def)

lemma hard_le_handle_append_entries: "hard_le (hard n) (hard (snd (handle_append_entries ops env req n)))"
  by (auto simp: handle_append_entries_def follow_leader_def Let_def hard_le_def split: sum.split prod.split)

lemma hard_le_handle_install_snapshot: "hard_le (hard n) (hard (snd (handle_install_snapshot ops env req n)))"
  by (simp add: handle_install_snapshot_def snd_case_result Let_def hard_le_become_follower)

lemma hard_handle_append_entries_response:
  "hard (handle_append_entries_response ops env p resp n) = hard n \<or>
   (term_of n < aer_term resp \<and> handle_append_entries_response ops env p resp n = become_follower env (aer_term resp) n)"
  by (simp add: handle_append_entries_response_def Let_def split: option.split)

lemma hard_propose [frame, simp]: "hard (snd (propose ops env d n)) = hard n"
  by (simp add: propose_def Let_def split: sum.split prod.split)

lemma hard_compact_log [frame, simp]: "hard (snd (compact_log_up_to ops i n)) = hard n"
  by (simp add: compact_log_up_to_def Let_def split: option.split sum.split prod.split)

lemma hard_maybe_compact [frame, simp]: "hard (snd (maybe_compact_log ops i n)) = hard n"
  by (simp add: maybe_compact_log_def Let_def split: option.split)

lemma hard_persist [frame, simp]: "hard (snd (persist_hard_state_if_dirty ops n)) = hard n"
  by (simp add: persist_hard_state_if_dirty_def split: sum.split prod.split)

lemma hard_membership [frame, simp]:
  "hard (add_peer p n) = hard n" "hard (remove_peer p n) = hard n" "hard (notify_removed_peer env p n) = hard n"
  "hard (add_learner p n) = hard n" "hard (remove_learner p n) = hard n" "hard (snd (promote_learner p n)) = hard n"
  "hard (promote_self_to_voter n) = hard n" "hard (snd (transfer_leadership env p n)) = hard n"
  by (simp_all add: add_peer_def remove_peer_def set_voters_def notify_removed_peer_def add_learner_def
      remove_learner_def promote_learner_def promote_self_to_voter_def transfer_leadership_def Let_def)

lemma hard_le_handle_pre_vote_response:
  "term_fits n \<Longrightarrow> hard_le (hard n) (hard (handle_pre_vote_response ops env p resp n))"
  using hard_le_start_election [of "n\<lparr>pre_vote := None\<rparr>" ops env] term_fits_cong [of "n\<lparr>pre_vote := None\<rparr>" n]
  by (simp add: handle_pre_vote_response_def Let_def hard_le_become_follower split: option.split)

lemma hard_le_tick: "term_fits n \<Longrightarrow> hard_le (hard n) (hard (tick ops env n))"
  by (simp add: tick_def Let_def hard_le_become_follower split: node_role.split option.split)

lemma hard_le_set_replica_state: "hard_le (hard n) (hard (set_replica_state env st n))"
  by (simp add: set_replica_state_def stand_down_for_snapshot_def Let_def hard_le_become_follower
      split: node_role.split option.split)

lemma hard_le_exec:
  assumes "term_fits n"
  shows "hard_le (hard n) (hard (exec ops env ev n))"
proof (cases ev)
  case (RecvAppendResp p resp)
  then show ?thesis using hard_handle_append_entries_response [of ops env p resp n]
    by (auto simp: hard_le_become_follower)
next
  case (RecvVoteResp p resp)
  then show ?thesis by (simp add: handle_request_vote_response_def Let_def hard_le_become_follower)
next
  case (RecvTimeoutNow req)
  then show ?thesis using assms by (simp add: handle_timeout_now_def Let_def)
qed (simp_all add: assms hard_le_tick hard_le_handle_request_vote hard_le_handle_append_entries
      hard_le_handle_install_snapshot hard_le_handle_pre_vote_response hard_le_set_replica_state
      handle_pre_vote_at_def record_snapshot_installed_def start_read_index_def on_storage_progress_def
      take_ready_def advance_applied_def requeue_committed_def set_compaction_ceiling_def Let_def
      split: option.split)

lemma hard_le_run:
  assumes "run_ok (\<lambda>_. term_fits) ops evs n"
  shows "hard_le (hard n) (hard (run ops evs n))"
  by (rule run_ok_invariant [where P = "\<lambda>m. hard_le (hard n) (hard m)", OF _ assms hard_le_refl])
    (blast intro: hard_le_trans hard_le_exec)

section \<open>Watermarks\<close>

definition marks_le :: "'s raft_node \<Rightarrow> 's raft_node \<Rightarrow> bool" where
  "marks_le n m \<longleftrightarrow> commit_of n \<le> commit_of m \<and> applied_of n \<le> applied_of m \<and>
     durable_applied n \<le> durable_applied m \<and> repl_floor n \<le> repl_floor m \<and>
     snapshot_index (rlog n) \<le> snapshot_index (rlog m)"

lemma marks_le_refl [simp]: "marks_le n n"
  by (simp add: marks_le_def)

lemma marks_le_trans: "marks_le a b \<Longrightarrow> marks_le b c \<Longrightarrow> marks_le a c"
  by (auto simp: marks_le_def)

lemma append_entries_snapshot:
  "append_entries ops l p es = (r, l') \<Longrightarrow>
     snapshot_index l' = snapshot_index l \<and> snapshot_term l' = snapshot_term l"
  by (auto simp: append_entries_def truncate_from_def Let_def
      split: list.splits sum.splits prod.splits if_splits)

lemma snapshot_index_log_append [simp]: "snapshot_index (snd (log_append ops l e)) = snapshot_index l"
  by (simp add: log_append_def split: sum.split prod.split)

lemma apply_snapshot_index_le: "apply_snapshot ops l i t = (r, l') \<Longrightarrow> snapshot_index l \<le> snapshot_index l'"
  by (auto simp: apply_snapshot_def Let_def split: if_splits sum.splits prod.splits)

lemma marks_le_try_advance [simp]: "marks_le n (try_advance_commit_index ops n)"
  by (auto simp: marks_le_def try_advance_commit_index_def split: option.split dest!: find_Some_set)

lemma marks_le_take_lead [simp]: "marks_le n (take_lead ops env n)"
  by (simp add: marks_le_def) (simp add: take_lead_def arm_quorum_window_def Let_def)

lemma marks_le_frames [simp]:
  "marks_le n (replicate_to_all env m) = marks_le n m" "marks_le n (persist_hard_state m) = marks_le n m"
  "marks_le n (reset_election_timeout env m) = marks_le n m"
  "marks_le n (become_follower env t m) = marks_le n m"
  "marks_le n (try_emit_timeout_now m) = marks_le n m"
  "marks_le n (send_append_entries env p m) = marks_le n m"
  "marks_le n (refresh_quorum_contact now m) = marks_le n m"
  "marks_le n (observer_response env p resp m) = marks_le n m"
  "marks_le n (m\<lparr>pending_ready := r\<rparr>) = marks_le n m" "marks_le n (m\<lparr>hard := h\<rparr>) = marks_le n m"
  "marks_le n (m\<lparr>role := x\<rparr>) = marks_le n m" "marks_le n (m\<lparr>leader_id := i\<rparr>) = marks_le n m"
  "marks_le n (m\<lparr>votes_received := vs\<rparr>) = marks_le n m" "marks_le n (m\<lparr>pre_vote := pv\<rparr>) = marks_le n m"
  "marks_le n (m\<lparr>leader_st := st\<rparr>) = marks_le n m" "marks_le n (m\<lparr>transfer := tr\<rparr>) = marks_le n m"
  "marks_le n (m\<lparr>config := c\<rparr>) = marks_le n m" "marks_le n (m\<lparr>lease := ls\<rparr>) = marks_le n m"
  "marks_le n (m\<lparr>replica := st'\<rparr>) = marks_le n m" "marks_le n (m\<lparr>heartbeat_deadline := now\<rparr>) = marks_le n m"
  "marks_le n (m\<lparr>compaction_ceiling := ce\<rparr>) = marks_le n m"
  by (simp_all add: marks_le_def)

lemma marks_le_become_leader: "marks_le m n \<Longrightarrow> marks_le m (become_leader ops env n)"
  using marks_le_trans [OF _ marks_le_take_lead, of m n ops env]
    marks_le_trans [OF _ marks_le_try_advance, of m "take_lead ops env n" ops]
  by (simp add: become_leader_def Let_def)

lemma marks_le_start_election: "marks_le m n \<Longrightarrow> marks_le m (start_election ops env n)"
  by (simp add: start_election_def Let_def marks_le_become_leader)

lemma marks_le_start_pre_election: "marks_le m n \<Longrightarrow> marks_le m (start_pre_election ops env n)"
  by (simp add: start_pre_election_def Let_def marks_le_start_election)

lemma marks_le_save_durable: "marks_le m n \<Longrightarrow> marks_le m (snd (save_durable_applied_index ops i n))"
  by (auto simp: save_durable_applied_index_def marks_le_def split: sum.split prod.split)

lemma marks_le_resume: "marks_le m n \<Longrightarrow> marks_le m (resume_at_boundary i n)"
  by (auto simp: resume_at_boundary_def Let_def) (auto simp: marks_le_def)

lemma marks_le_rlog: "marks_le m n \<Longrightarrow> snapshot_index (rlog n) \<le> snapshot_index l \<Longrightarrow> marks_le m (n\<lparr>rlog := l\<rparr>)"
  by (simp add: marks_le_def)

lemma marks_le_adopt_snapshot: "marks_le m n \<Longrightarrow> marks_le m (snd (adopt_snapshot_boundary ops i t n))"
  by (auto simp: adopt_snapshot_boundary_def Let_def
      intro!: marks_le_save_durable marks_le_resume marks_le_rlog apply_snapshot_index_le
      split: sum.split prod.split)

lemma marks_le_compact_log: "marks_le n (snd (compact_log_up_to ops i n))"
  by (auto simp: compact_log_up_to_def Let_def marks_le_def
      dest: apply_snapshot_index_le split: option.split sum.split prod.split)

lemma marks_le_handle_append_entries: "marks_le n (snd (handle_append_entries ops env req n))"
  by (auto simp: handle_append_entries_def Let_def marks_le_def
      dest: append_entries_snapshot split: sum.split prod.split)

lemma marks_le_peer_success: "marks_le n (peer_success ops env p i ls n)"
  using marks_le_try_advance [of "n\<lparr>leader_st := Some (raise_match p i ls)\<rparr>" ops]
  by (auto simp: peer_success_def replicated_floor_at_def Let_def marks_le_def split: option.split)

lemma marks_le_handle_append_entries_response:
  "marks_le n (handle_append_entries_response ops env p resp n)"
proof -
  have c: "marks_le n (peer_contact env p resp ls n)" for ls by (simp add: marks_le_def)
  have "marks_le n (peer_success ops env p i ls' (peer_contact env p resp ls n))" for i ls ls'
    using marks_le_trans [OF c marks_le_peer_success] .
  moreover have "marks_le n (peer_rejection env p resp ls' (peer_contact env p resp ls n))" for ls ls'
    by (simp add: marks_le_def)
  ultimately show ?thesis
    by (simp add: handle_append_entries_response_def Let_def split: option.split)
qed

lemma marks_le_propose: "marks_le n (snd (propose ops env d n))"
proof -
  have "marks_le n (try_advance_commit_index ops m)" if "marks_le n m" for m
    using marks_le_trans [OF that marks_le_try_advance] .
  moreover have "marks_le n (n\<lparr>rlog := l\<rparr>)" if "log_append ops (rlog n) e = (r, l)" for e r l
    using log_append_snapshot [OF that] by (simp add: marks_le_def)
  ultimately show ?thesis
    by (auto simp: propose_def Let_def split: sum.split prod.split)
qed

lemma marks_le_tick: "marks_le n (tick ops env n)"
  by (auto simp: tick_def Let_def marks_le_start_pre_election split: node_role.split option.split)

lemma marks_le_exec: "marks_le n (exec ops env ev n)"
proof (cases ev)
  case (RecvSnapshot req)
  then show ?thesis
    by (simp add: handle_install_snapshot_def snd_case_result Let_def marks_le_adopt_snapshot)
next
  case (SetReplicaState st)
  then show ?thesis
    by (auto simp: set_replica_state_def stand_down_for_snapshot_def Let_def
        split: node_role.split option.split)
next
  case PersistHardState
  then show ?thesis
    by (auto simp: persist_hard_state_if_dirty_def marks_le_def split: sum.split prod.split)
next
  case (AdvanceApplied i)
  then show ?thesis by (simp add: advance_applied_def marks_le_def)
qed (auto simp: marks_le_tick marks_le_propose marks_le_handle_append_entries marks_le_adopt_snapshot
      marks_le_handle_append_entries_response handle_request_vote_at_def handle_request_vote_response_def
      marks_le_become_leader handle_pre_vote_at_def handle_pre_vote_response_def marks_le_start_election
      record_snapshot_installed_def handle_timeout_now_def add_peer_def remove_peer_def set_voters_def
      notify_removed_peer_def add_learner_def remove_learner_def promote_learner_def
      promote_self_to_voter_def transfer_leadership_def start_read_index_def on_storage_progress_def
      take_ready_def marks_le_save_durable requeue_committed_def marks_le_compact_log
      maybe_compact_log_def set_compaction_ceiling_def Let_def
      split: option.split)

lemma marks_le_run: "marks_le n (run ops evs n)"
  by (rule run_invariant) (auto intro: marks_le_trans marks_le_exec)

end
