(* ===== verification/Raft_Invariant.thy ===== *)
theory Raft_Invariant
  imports Raft_Step
begin

text \<open>
  What every node keeps whatever the driver calls: a contiguous log that reaches the commit index, a
  delivery queue that continues exactly where the state machine stands, and committed entries that
  no call changes. The one thing a node cannot know by itself is assumed of each incoming
  \<open>AppendEntries\<close> (\<open>event_ok\<close>): its entries are numbered from \<open>prev_log_index + 1\<close>, and they do
  not conflict with what this node has committed, which is Raft's leader completeness.
\<close>

section \<open>The invariant\<close>

text \<open>
  A batch of committed entries on its way to the state machine: ascending, committed, as the log
  has them, and without a hole after the applied watermark.
\<close>

definition batch_inv :: "'s raft_node \<Rightarrow> log_entry list \<Rightarrow> bool" where
  "batch_inv n q \<longleftrightarrow> sorted_wrt (<) (map le_index q) \<and>
     batch_after (applied_of n) (filter (\<lambda>e. applied_of n < le_index e) q) \<and>
     (\<forall>e\<in>set q. le_index e \<le> commit_of n \<and>
        (snapshot_index (rlog n) < le_index e \<longrightarrow> entry_at (rlog n) (le_index e) = Some e))"

definition node_inv :: "'s raft_node \<Rightarrow> bool" where
  "node_inv n \<longleftrightarrow> log_wf (rlog n) \<and> commit_of n \<le> last_index (rlog n) \<and>
     batch_inv n (rd_committed_entries (pending_ready n))"

text \<open>No committed entry that is still in the log has changed.\<close>

definition committed_kept :: "'s raft_node \<Rightarrow> 's raft_node \<Rightarrow> bool" where
  "committed_kept m n \<longleftrightarrow> (\<forall>i. snapshot_index (rlog n) < i \<and> i \<le> commit_of m \<longrightarrow>
     entry_at (rlog n) i = entry_at (rlog m) i)"

definition event_ok :: "node_event \<Rightarrow> 's raft_node \<Rightarrow> bool" where
  "event_ok ev n = (case ev of
     RecvAppend req \<Rightarrow> batch_after (ae_prev_log_index req) (ae_entries req) \<and>
       (\<forall>e\<in>set (ae_entries req). le_index e \<le> commit_of n \<longrightarrow> \<not> not_held (rlog n) e)
   | Requeue b \<Rightarrow> batch_inv n b
   | _ \<Rightarrow> True)"

definition safe_step :: "'s raft_node \<Rightarrow> 's raft_node \<Rightarrow> bool" where
  "safe_step m n \<longleftrightarrow> marks_le m n \<and> committed_kept m n \<and> node_inv n"

lemma safe_step_refl: "node_inv n \<Longrightarrow> safe_step n n"
  by (simp add: safe_step_def committed_kept_def)

lemma safe_step_inv: "safe_step m n \<Longrightarrow> node_inv n"
  by (simp add: safe_step_def)

lemma committed_kept_trans:
  "marks_le a b \<Longrightarrow> marks_le b c \<Longrightarrow> committed_kept a b \<Longrightarrow> committed_kept b c \<Longrightarrow> committed_kept a c"
  by (auto simp: committed_kept_def marks_le_def)

lemma safe_step_trans: "safe_step a b \<Longrightarrow> safe_step b c \<Longrightarrow> safe_step a c"
  unfolding safe_step_def using marks_le_trans committed_kept_trans by blast

section \<open>Batches under progress\<close>

lemma batch_after_filter_later:
  assumes "batch_after a (filter (\<lambda>e. a < le_index e) q)" and "a \<le> b"
  shows "batch_after b (filter (\<lambda>e. b < le_index e) q)"
proof -
  let ?d = "filter (\<lambda>e. a < le_index e) q"
  have "filter (\<lambda>e. b < le_index e) q = filter (\<lambda>e. b < le_index e) ?d"
    using assms(2) by (auto intro: filter_cong)
  also have "\<dots> = drop (b - a) ?d" using batch_after_filter_gt [OF assms] .
  finally show ?thesis using batch_after_drop [OF assms(1), of "b - a"] assms(2)
    by (cases "b - a \<le> length ?d") auto
qed

lemma batch_inv_mono:
  assumes "batch_inv m q" and "marks_le m n" and "committed_kept m n"
  shows "batch_inv n q"
  using assms batch_after_filter_later [of "applied_of m" q "applied_of n"]
  by (fastforce simp: batch_inv_def marks_le_def committed_kept_def)

lemma batch_inv_filter: "batch_inv n q \<Longrightarrow> i \<le> applied_of n \<Longrightarrow> batch_inv n (filter (\<lambda>e. i < le_index e) q)"
proof -
  assume b: "batch_inv n q" and i: "i \<le> applied_of n"
  have "filter (\<lambda>e. applied_of n < le_index e) (filter (\<lambda>e. i < le_index e) q)
      = filter (\<lambda>e. applied_of n < le_index e) q"
    using i by (auto intro: filter_cong)
  then show ?thesis using b by (auto simp: batch_inv_def sorted_wrt_map sorted_wrt_filter)
qed

lemma batch_inv_Nil [simp]: "batch_inv n []"
  by (simp add: batch_inv_def)

lemma batch_inv_cong:
  "volatile m = volatile n \<Longrightarrow> rlog m = rlog n \<Longrightarrow> batch_inv m q = batch_inv n q"
  by (simp add: batch_inv_def)

text \<open>Where a batch ends: the applied watermark, or its last entry past it.\<close>

lemma batch_inv_end:
  assumes "batch_inv n q"
  shows "max (applied_of n) (if q = [] then 0 else le_index (last q)) =
     applied_of n + length (filter (\<lambda>e. applied_of n < le_index e) q)"
    and "e \<in> set q \<Longrightarrow> le_index e \<le> max (applied_of n) (if q = [] then 0 else le_index (last q))"
proof -
  let ?a = "applied_of n" and ?d = "filter (\<lambda>e. applied_of n < le_index e) q"
  have srt: "sorted_wrt (<) (map le_index q)" and b: "batch_after ?a ?d"
    using assms by (auto simp: batch_inv_def)
  have top: "le_index e \<le> le_index (last q)" if "e \<in> set q" for e
    using srt that by (cases q rule: rev_cases) (auto simp: sorted_wrt_append less_imp_le)
  show "e \<in> set q \<Longrightarrow> le_index e \<le> max ?a (if q = [] then 0 else le_index (last q))"
    using top [of e] by (auto simp: le_max_iff_disj)
  show "max ?a (if q = [] then 0 else le_index (last q)) = ?a + length ?d"
  proof (cases "q = [] \<or> le_index (last q) \<le> ?a")
    case True
    then have "?d = []" using top by (fastforce simp: filter_empty_conv)
    then show ?thesis using True by auto
  next
    case False
    then obtain xs x where q: "q = xs @ [x]" by (cases q rule: rev_cases) auto
    then show ?thesis using False b by (auto simp: batch_after_append batch_after_Cons)
  qed
qed

lemma batch_after_sorted: "batch_after k es \<Longrightarrow> sorted_wrt (<) (map le_index es)"
  unfolding batch_after_def by (simp only: sorted_wrt_upt)

lemma batch_inv_append:
  assumes "batch_inv n q"
    and "batch_after (max (applied_of n) (if q = [] then 0 else le_index (last q))) es"
    and "\<forall>e\<in>set es. le_index e \<le> commit_of n \<and>
        (snapshot_index (rlog n) < le_index e \<longrightarrow> entry_at (rlog n) (le_index e) = Some e)"
  shows "batch_inv n (q @ es)"
proof -
  let ?k = "max (applied_of n) (if q = [] then 0 else le_index (last q))"
  have "filter (\<lambda>e. applied_of n < le_index e) es = es"
    using batch_after_set [OF assms(2)] by (fastforce simp: filter_id_conv)
  moreover have "batch_after (applied_of n + length (filter (\<lambda>e. applied_of n < le_index e) q)) es"
    using assms(2) batch_inv_end(1) [OF assms(1)] by simp
  moreover have lt: "\<forall>x\<in>set q. \<forall>y\<in>set es. le_index x < le_index y"
    using batch_inv_end(2) [OF assms(1)] batch_after_set [OF assms(2)] by (meson le_less_trans)
  moreover have "sorted_wrt (<) (map le_index (q @ es))"
    using assms(1) batch_after_sorted [OF assms(2)] lt by (simp add: batch_inv_def sorted_wrt_append)
  ultimately show ?thesis using assms(1,3) by (auto simp: batch_inv_def batch_after_append)
qed

section \<open>Log operations keep the committed prefix\<close>

lemma log_append_keeps:
  assumes "log_wf l" and "le_index e = Suc (last_index l)" and "log_append ops l e = (r, l')"
  shows "last_index l \<le> last_index l'" and "i \<le> last_index l \<Longrightarrow> entry_at l' i = entry_at l i"
proof -
  note w = log_append_wf [OF assms] and en = log_append_entries [OF assms(3)]
    and sn = log_append_snapshot [OF assms(3)]
  show "last_index l \<le> last_index l'"
    using en sn by (simp add: last_index_wf [OF w] last_index_wf [OF assms(1)])
  show "i \<le> last_index l \<Longrightarrow> entry_at l' i = entry_at l i"
    using en sn by (auto simp: entry_at_wf [OF w] entry_at_wf [OF assms(1)] last_index_wf [OF assms(1)]
        nth_append split: sum.splits)
qed

lemma truncate_from_keeps:
  assumes "log_wf l" and "truncate_from ops l k = (r, l')" and "c < k" and "c \<le> last_index l"
  shows "c \<le> last_index l'" and "i \<le> c \<Longrightarrow> entry_at l' i = entry_at l i"
proof -
  note w = truncate_from_wf [OF assms(1,2)] and sn = truncate_from_snapshot [OF assms(2)]
    and en = truncate_from_entries [OF assms(2)]
  show "c \<le> last_index l'" using en sn assms(3,4)
    by (auto simp: last_index_wf [OF w] last_index_wf [OF assms(1)])
  show "i \<le> c \<Longrightarrow> entry_at l' i = entry_at l i" using en sn assms(3,4)
    by (auto simp: entry_at_wf [OF w] entry_at_wf [OF assms(1)] last_index_wf [OF assms(1)])
qed

lemma append_entries_failed:
  assumes "append_entries ops l q es = (Inl err, l')"
    and "dropWhile (\<lambda>e. \<not> not_held l e) es = e # rest"
  shows "(\<exists>s. l' = l\<lparr>rl_storage := s\<rparr>) \<or>
     (\<exists>r l1 s. truncate_from ops l (le_index e) = (r, l1) \<and> (l' = l1 \<or> l' = l1\<lparr>rl_storage := s\<rparr>))"
  using assms by (auto simp: append_entries_def Let_def split: if_splits sum.splits prod.splits)

lemma append_entries_keeps:
  assumes wf: "log_wf l" and b: "batch_after p es" and p: "p \<le> last_index l"
    and a: "append_entries ops l q es = (r, l')" and c: "c \<le> last_index l"
    and ok: "\<forall>e\<in>set es. le_index e \<le> c \<longrightarrow> \<not> not_held l e"
  shows "c \<le> last_index l' \<and> (\<forall>i\<le>c. entry_at l' i = entry_at l i)"
proof (cases "dropWhile (\<lambda>e. \<not> not_held l e) es")
  case Nil
  then have "l' = l" using a unfolding append_entries_def by (simp only: Nil list.case prod.inject)
  then show ?thesis using c by simp
next
  case (Cons e rest)
  then have "e \<in> set es" and "not_held l e"
    by (metis list.set_intros(1) set_dropWhileD, metis hd_dropWhile list.distinct(1) list.sel(1))
  then have ce: "c < le_index e" using ok by (meson not_le)
  show ?thesis
  proof (cases r)
    case (Inl err)
    then consider s where "l' = l\<lparr>rl_storage := s\<rparr>"
      | r1 l1 s where "truncate_from ops l (le_index e) = (r1, l1)" "l' = l1 \<or> l' = l1\<lparr>rl_storage := s\<rparr>"
      using append_entries_failed [OF _ Cons] a by blast
    then show ?thesis
    proof cases
      case 1
      then show ?thesis using c by simp
    next
      case 2
      then show ?thesis using truncate_from_keeps [OF wf 2(1) ce c] by auto
    qed
  next
    case (Inr w)
    then have a': "append_entries ops l q es = (Inr True, l')"
      using a append_entries_result_iff [of ops l q es w l'] \<open>e \<in> set es\<close> \<open>not_held l e\<close> by auto
    note k = append_entries_True_entry_at [OF wf b p a' Cons]
    have "le_index e \<le> p + length es" using batch_after_set [OF b \<open>e \<in> set es\<close>] by simp
    then show ?thesis using k(1,3) ce by auto
  qed
qed

section \<open>What leaves the queue alone\<close>

abbreviation queued :: "'s raft_node \<Rightarrow> log_entry list" where
  "queued n \<equiv> rd_committed_entries (pending_ready n)"

lemma queued_send [simp]: "queued (send_append_entries env p n) = queued n"
  by (simp add: send_append_entries_def push_snapshot_needed_def push_message_def stamp_lease_round_def
      Let_def split: option.split prod.split)

lemma queued_send_observer [simp]: "queued (send_append_entries_to_observer env p n) = queued n"
  by (simp add: send_append_entries_to_observer_def push_snapshot_needed_def push_message_def Let_def
      split: option.split)

lemma queued_fold_send [simp]:
  "queued (fold (send_append_entries env) ps n) = queued n"
  "queued (fold (send_append_entries_to_observer env) ps n) = queued n"
  by (induction ps arbitrary: n) simp_all

lemma queued_replicate [simp]: "queued (replicate_to_all env n) = queued n"
  by (simp add: replicate_to_all_def Let_def)

lemma queued_frames [simp]:
  "queued (persist_hard_state n) = queued n" "queued (push_snapshot_needed p n) = queued n"
  "queued (try_emit_timeout_now n) = queued n" "queued (peer_rejection env p resp ls n) = queued n"
  "queued (observer_response env p resp n) = queued n"
  by (simp_all add: persist_hard_state_def push_snapshot_needed_def try_emit_timeout_now_def
      peer_rejection_def observer_response_def split: option.split)

text \<open>A call that touches neither log, watermarks nor queue is safe.\<close>

lemma safe_same:
  assumes "safe_step m n" and "volatile n' = volatile n" and "rlog n' = rlog n"
    and "durable_applied n \<le> durable_applied n'" and "repl_floor n \<le> repl_floor n'" and "queued n' = queued n"
  shows "safe_step m n'"
  using assms batch_inv_cong [OF assms(2,3)]
  by (auto simp: safe_step_def marks_le_def committed_kept_def node_inv_def)

lemma safe_frames [simp]:
  "safe_step m (replicate_to_all env n) = safe_step m n"
  "safe_step m (reset_election_timeout env n) = safe_step m n"
  "safe_step m (persist_hard_state n) = safe_step m n"
  "safe_step m (become_follower env t n) = safe_step m n"
  "safe_step m (try_emit_timeout_now n) = safe_step m n"
  "safe_step m (send_append_entries env p n) = safe_step m n"
  "safe_step m (refresh_quorum_contact now n) = safe_step m n"
  "safe_step m (observer_response env p resp n) = safe_step m n"
  "safe_step m (peer_contact env p resp ls n) = safe_step m n"
  "safe_step m (peer_rejection env p resp ls n) = safe_step m n"
  by (auto elim!: safe_same)

lemma safe_updates [simp]:
  "safe_step m (n\<lparr>hard := h\<rparr>) = safe_step m n" "safe_step m (n\<lparr>role := x\<rparr>) = safe_step m n"
  "safe_step m (n\<lparr>leader_id := i\<rparr>) = safe_step m n" "safe_step m (n\<lparr>votes_received := vs\<rparr>) = safe_step m n"
  "safe_step m (n\<lparr>pre_vote := pv\<rparr>) = safe_step m n" "safe_step m (n\<lparr>leader_st := st\<rparr>) = safe_step m n"
  "safe_step m (n\<lparr>transfer := tr\<rparr>) = safe_step m n" "safe_step m (n\<lparr>config := c\<rparr>) = safe_step m n"
  "safe_step m (n\<lparr>lease := ls\<rparr>) = safe_step m n" "safe_step m (n\<lparr>replica := rs\<rparr>) = safe_step m n"
  "safe_step m (n\<lparr>heartbeat_deadline := now\<rparr>) = safe_step m n"
  "safe_step m (n\<lparr>compaction_ceiling := ce\<rparr>) = safe_step m n"
  "rd_committed_entries r = queued n \<Longrightarrow> safe_step m (n\<lparr>pending_ready := r\<rparr>) = safe_step m n"
  by (auto elim!: safe_same)

lemma safe_follow_leader: "safe_step m n \<Longrightarrow> safe_step m (follow_leader env req n)"
  by (erule safe_same) (simp_all add: follow_leader_def Let_def)

section \<open>Commit and delivery\<close>

lemma entries_range_in_log:
  assumes "log_wf l" and "entries_range l lo hi = Inr es" and "e \<in> set es"
  shows "entry_at l (le_index e) = Some e \<and> lo \<le> le_index e \<and> le_index e \<le> hi"
proof -
  have e: "e \<in> set (rl_entries l)" and r: "lo \<le> le_index e \<and> le_index e \<le> hi"
    using assms(3) entries_range_wf [OF assms(1,2)] by auto
  then obtain k where k: "k < length (rl_entries l)" "rl_entries l ! k = e" by (auto simp: in_set_conv_nth)
  then have "le_index e = Suc (snapshot_index l) + k"
    using batch_after_nth assms(1) by (auto simp: log_wf_batch)
  then show ?thesis using k r by (simp add: entry_at_wf [OF assms(1)])
qed

lemma batch_inv_collect:
  assumes "log_wf (rlog n)" and "batch_inv n (queued n)"
  shows "batch_inv n (queued (collect_committed_entries n))"
proof -
  let ?q = "queued n"
  let ?from = "max (applied_of n) (if ?q = [] then 0 else le_index (last ?q)) + 1"
  have "batch_inv n (?q @ es)" if r: "entries_range (rlog n) ?from (commit_of n) = Inr es" for es
  proof (rule batch_inv_append [OF assms(2)])
    show "batch_after (max (applied_of n) (if ?q = [] then 0 else le_index (last ?q))) es"
      using entries_range_batch [OF assms(1) r] by simp
    show "\<forall>e\<in>set es. le_index e \<le> commit_of n \<and>
        (snapshot_index (rlog n) < le_index e \<longrightarrow> entry_at (rlog n) (le_index e) = Some e)"
      using entries_range_in_log [OF assms(1) r] by blast
  qed
  then show ?thesis using assms(2)
    by (auto simp: collect_committed_entries_def queue_committed_entries_def Let_def split: sum.split)
qed

lemma safe_collect: "safe_step m n \<Longrightarrow> safe_step m (collect_committed_entries n)"
  using batch_inv_collect [of n] batch_inv_cong [of "collect_committed_entries n" n]
  by (auto simp: safe_step_def node_inv_def marks_le_def committed_kept_def)

lemma safe_commit:
  assumes "safe_step m n" and "commit_of n \<le> i" and "i \<le> last_index (rlog n)"
  shows "safe_step m (n\<lparr>volatile := (volatile n)\<lparr>commit_index := i\<rparr>\<rparr>)" (is "safe_step m ?n")
proof -
  have "marks_le n ?n" "committed_kept n ?n" using assms(2) by (auto simp: marks_le_def committed_kept_def)
  then show ?thesis using assms batch_inv_mono [of n "queued n" ?n]
    by (auto simp: safe_step_def node_inv_def committed_kept_def intro: marks_le_trans)
qed

lemma safe_try_advance: "safe_step m n \<Longrightarrow> safe_step m (try_advance_commit_index ops n)"
  by (auto simp: try_advance_commit_index_def split: option.split dest!: find_Some_set
      intro!: safe_collect safe_commit)

lemma safe_follow_commit:
  "safe_step m n \<Longrightarrow> ae_matched req \<le> last_index (rlog n) \<Longrightarrow> safe_step m (follow_commit req n)"
  by (auto simp: follow_commit_def Let_def intro!: safe_collect safe_commit)

section \<open>Operations on the log\<close>

lemma safe_rlog:
  assumes "safe_step m n" and "log_wf l" and "commit_of n \<le> last_index l"
    and "snapshot_index (rlog n) \<le> snapshot_index l"
    and "\<And>i. snapshot_index l < i \<Longrightarrow> i \<le> commit_of n \<Longrightarrow> entry_at l i = entry_at (rlog n) i"
  shows "safe_step m (n\<lparr>rlog := l\<rparr>)"
proof -
  have "safe_step n (n\<lparr>rlog := l\<rparr>)"
    using assms batch_inv_mono [of n "queued n" "n\<lparr>rlog := l\<rparr>"]
    by (auto simp: safe_step_def node_inv_def marks_le_def committed_kept_def)
  then show ?thesis using safe_step_trans [OF assms(1)] by blast
qed

lemma safe_log_append:
  assumes "safe_step m n" and "log_append ops (rlog n) e = (r, l)" and "le_index e = Suc (last_index (rlog n))"
  shows "safe_step m (n\<lparr>rlog := l\<rparr>)"
proof -
  have wf: "log_wf (rlog n)" and c: "commit_of n \<le> last_index (rlog n)"
    using assms(1) by (auto simp: safe_step_def node_inv_def)
  show ?thesis using assms(1) c
    by (intro safe_rlog log_append_wf [OF wf assms(3,2)] log_append_keeps(2) [OF wf assms(3,2)]
        order.trans [OF _ log_append_keeps(1) [OF wf assms(3,2)]])
      (auto simp: log_append_snapshot [OF assms(2)])
qed

lemma safe_append_entries:
  assumes "safe_step m n" and "append_entries ops (rlog n) q es = (r, l)"
    and "batch_after p es" and "p \<le> last_index (rlog n)"
    and "\<forall>e\<in>set es. le_index e \<le> commit_of n \<longrightarrow> \<not> not_held (rlog n) e"
  shows "safe_step m (n\<lparr>rlog := l\<rparr>)"
proof -
  have wf: "log_wf (rlog n)" and c: "commit_of n \<le> last_index (rlog n)"
    using assms(1) by (auto simp: safe_step_def node_inv_def)
  note k = append_entries_keeps [OF wf assms(3,4,2) c assms(5)]
  show ?thesis using assms(1) k
    by (intro safe_rlog append_entries_wf [OF wf assms(3,4,2)]) (auto simp: append_entries_snapshot [OF assms(2)])
qed

lemma apply_snapshot_last_index:
  assumes "log_wf l" and "apply_snapshot ops l i t = (r, l')"
  shows "last_index l \<le> last_index l'" and "r = Inr () \<Longrightarrow> i \<le> last_index l'"
proof -
  note w = apply_snapshot_wf [OF assms]
  have j: "j \<le> last_index l'" if "i < j" "snapshot_index l < j" "j \<le> last_index l" for j
    using that(2,3) apply_snapshot_entry_at [OF assms that(1)]
    by (auto simp: entry_at_wf [OF w] entry_at_wf [OF assms(1)] last_index_wf [OF w]
        last_index_wf [OF assms(1)] split: if_splits)
  show i: "r = Inr () \<Longrightarrow> i \<le> last_index l'"
    using apply_snapshot_boundary assms(2) by (fastforce simp: last_index_wf [OF w])
  have le: "snapshot_index l \<le> snapshot_index l'" using apply_snapshot_index_le [OF assms(2)] .
  show "last_index l \<le> last_index l'"
  proof (cases r)
    case (Inl e)
    then show ?thesis using apply_snapshot_failed assms(2) by (fastforce simp: last_index_def)
  next
    case (Inr u)
    show ?thesis using j [of "last_index l"] i Inr le last_index_wf [OF w]
      by (cases "i < last_index l \<and> snapshot_index l < last_index l") auto
  qed
qed

lemma safe_apply_snapshot:
  assumes "safe_step m n" and "apply_snapshot ops (rlog n) i t = (r, l)"
  shows "safe_step m (n\<lparr>rlog := l\<rparr>)"
proof -
  have wf: "log_wf (rlog n)" and c: "commit_of n \<le> last_index (rlog n)"
    using assms(1) by (auto simp: safe_step_def node_inv_def)
  have "entry_at l j = entry_at (rlog n) j" if "snapshot_index l < j" for j
  proof (cases r)
    case (Inl e)
    then show ?thesis using apply_snapshot_failed assms(2)
      by (metis entry_at_def last_index_def)
  next
    case (Inr u)
    then have "i < j" using apply_snapshot_boundary [of ops "rlog n" i t u l] assms(2) that by simp
    then show ?thesis using apply_snapshot_entry_at [OF wf assms(2)] by simp
  qed
  then show ?thesis using assms(1) c apply_snapshot_last_index(1) [OF wf assms(2)]
    by (intro safe_rlog apply_snapshot_wf [OF wf assms(2)] apply_snapshot_index_le [OF assms(2)]) auto
qed

section \<open>Every call keeps the invariant\<close>

lemma safe_take_lead:
  assumes "safe_step m n"
  shows "safe_step m (take_lead ops env n)"
proof -
  let ?e = "\<lparr>le_term = term_of n, le_index = last_index (rlog n) + 1, le_data = []\<rparr>"
  have "safe_step m (n\<lparr>rlog := snd (log_append ops (rlog n) ?e)\<rparr>)"
    by (rule safe_log_append [OF assms, of ops ?e "fst (log_append ops (rlog n) ?e)"]) simp_all
  then show ?thesis
    by (rule safe_same) (simp_all add: take_lead_def arm_quorum_window_def Let_def)
qed

lemma safe_become_leader: "safe_step m n \<Longrightarrow> safe_step m (become_leader ops env n)"
  by (simp add: become_leader_def Let_def safe_take_lead safe_try_advance)

lemma safe_start_election: "safe_step m n \<Longrightarrow> safe_step m (start_election ops env n)"
  by (simp add: start_election_def Let_def safe_become_leader)

lemma safe_start_pre_election: "safe_step m n \<Longrightarrow> safe_step m (start_pre_election ops env n)"
  by (simp add: start_pre_election_def Let_def safe_start_election)

lemma safe_save_durable:
  assumes "safe_step m n"
  shows "safe_step m (snd (save_durable_applied_index ops i n))"
proof -
  have "safe_step m (n\<lparr>rlog := (rlog n)\<lparr>rl_storage := s\<rparr>\<rparr>)" for s
    using assms by (intro safe_rlog) (auto simp: safe_step_def node_inv_def)
  then show ?thesis using assms
    by (auto simp: save_durable_applied_index_def split: sum.split prod.split
        intro: safe_same [of m "n\<lparr>rlog := (rlog n)\<lparr>rl_storage := s\<rparr>\<rparr>" for s])
qed

lemma safe_resume:
  assumes "safe_step m n" and "i \<le> last_index (rlog n)"
  shows "safe_step m (resume_at_boundary i n)"
proof -
  let ?n = "n\<lparr>volatile := \<lparr>commit_index = max (commit_of n) i, last_applied = max (applied_of n) i\<rparr>\<rparr>"
  have k: "marks_le n ?n" "committed_kept n ?n" by (auto simp: marks_le_def committed_kept_def)
  then have "batch_inv ?n (filter (\<lambda>e. i < le_index e) (queued n))"
    using assms batch_inv_mono [of n "queued n" ?n] batch_inv_filter [of ?n "queued n" i]
    by (auto simp: safe_step_def node_inv_def)
  moreover have "batch_inv (resume_at_boundary i n) q = batch_inv ?n q" for q
    by (rule batch_inv_cong) (simp_all add: resume_at_boundary_def Let_def)
  ultimately have "node_inv (resume_at_boundary i n)" using assms
    by (auto simp: node_inv_def safe_step_def resume_at_boundary_def Let_def)
  then have "safe_step n (resume_at_boundary i n)" using k
    by (auto simp: safe_step_def marks_le_def committed_kept_def resume_at_boundary_def Let_def)
  then show ?thesis using safe_step_trans [OF assms(1)] by blast
qed

lemma safe_adopt_snapshot:
  assumes "safe_step m n"
  shows "safe_step m (snd (adopt_snapshot_boundary ops i t n))"
proof -
  have wf: "log_wf (rlog n)" using assms by (simp add: safe_step_def node_inv_def)
  have "safe_step m (resume_at_boundary i n)" if "i \<le> snapshot_index (rlog n)"
    using safe_resume [OF assms, of i] that by (simp add: last_index_wf [OF wf])
  moreover have "safe_step m (n\<lparr>rlog := l\<rparr>)" if "apply_snapshot ops (rlog n) i t = (r, l)" for r l
    using safe_apply_snapshot [OF assms that] .
  moreover from this have "safe_step m (resume_at_boundary i (n\<lparr>rlog := l\<rparr>))"
    if "apply_snapshot ops (rlog n) i t = (Inr (), l)" for l
    using safe_resume [of m "n\<lparr>rlog := l\<rparr>" i] that apply_snapshot_last_index(2) [OF wf that] by simp
  ultimately show ?thesis using assms
    by (auto simp: adopt_snapshot_boundary_def Let_def intro: safe_save_durable split: sum.split prod.split)
qed

lemma safe_compact_log: "safe_step m n \<Longrightarrow> safe_step m (snd (compact_log_up_to ops i n))"
  by (auto simp: compact_log_up_to_def Let_def intro: safe_apply_snapshot
      split: option.split sum.split prod.split)

text \<open>An accepted batch ends inside the log it leaves behind.\<close>

lemma prev_log_ok_le: "log_wf l \<Longrightarrow> prev_log_ok l req \<Longrightarrow> ae_prev_log_index req \<le> last_index l"
  using term_at_None_iff [of l "ae_prev_log_index req"] by (auto simp: prev_log_ok_def)

lemma ae_matched_batch:
  "batch_after (ae_prev_log_index req) (ae_entries req) \<Longrightarrow>
     ae_matched req = ae_prev_log_index req + length (ae_entries req)"
  by (cases "ae_entries req" rule: rev_cases) (auto simp: ae_matched_def batch_after_append batch_after_Cons)

lemma append_entries_reaches:
  assumes wf: "log_wf l" and b: "batch_after p es" and p: "p \<le> last_index l"
    and a: "append_entries ops l q es = (Inr w, l')"
  shows "p + length es \<le> last_index l'"
proof (cases w)
  case True
  with a have a': "append_entries ops l q es = (Inr True, l')" by simp
  then obtain e rest where "dropWhile (\<lambda>e. \<not> not_held l e) es = e # rest"
    using append_entries_True [OF wf b p] by blast
  then show ?thesis using append_entries_True_entry_at(3) [OF wf b p a'] by simp
next
  case False
  then have l': "l' = l" and h: "\<forall>e\<in>set es. \<not> not_held l e" 
    using append_entries_False [of ops l q es l'] a by auto
  show ?thesis
  proof (cases es rule: rev_cases)
    case (snoc xs x)
    then have "le_index x = p + length es" using b by (simp add: batch_after_append batch_after_Cons)
    then show ?thesis using not_held_wf [OF wf, of x] h snoc l'
      by (auto simp: last_index_wf [OF wf] entry_at_wf [OF wf] split: if_splits)
  qed (use p l' in simp)
qed

lemma safe_handle_append_entries:
  assumes "safe_step m n" and "event_ok (RecvAppend req) n"
  shows "safe_step m (snd (handle_append_entries ops env req n))"
proof -
  let ?n = "follow_leader env req n" and ?p = "ae_prev_log_index req" and ?es = "ae_entries req"
  have s: "safe_step m ?n" using safe_follow_leader [OF assms(1)] .
  have b: "batch_after ?p ?es" using assms(2) by (simp add: event_ok_def)
  have wf: "log_wf (rlog n)" using assms(1) by (simp add: safe_step_def node_inv_def)
  have a: "safe_step m (?n\<lparr>rlog := l\<rparr>)" if "append_entries ops (rlog n) ?p ?es = (r, l)" "prev_log_ok (rlog n) req" for r l
    using safe_append_entries [OF s _ b, of ops ?p r l] that prev_log_ok_le [OF wf that(2)] assms(2)
    by (simp add: event_ok_def)
  have "safe_step m (follow_commit req (?n\<lparr>rlog := l\<rparr>))"
    if l: "append_entries ops (rlog n) ?p ?es = (Inr w, l)" and ok: "prev_log_ok (rlog n) req" for w l
    using append_entries_reaches [OF wf b prev_log_ok_le [OF wf ok] l] ae_matched_batch [OF b]
    by (intro safe_follow_commit [OF a [OF l ok]]) simp
  then show ?thesis using assms(1) s a
    by (auto simp: handle_append_entries_def Let_def split: sum.split prod.split)
qed

lemma safe_handle_append_entries_response:
  "safe_step m n \<Longrightarrow> safe_step m (handle_append_entries_response ops env p resp n)"
proof -
  have "safe_step m (k\<lparr>repl_floor := replicated_floor_at k now\<rparr>)" if "safe_step m k" for k now
    using that by (rule safe_same) (simp_all add: replicated_floor_at_def Let_def split: option.split)
  then have "safe_step m (peer_success ops env p i ls k)" if "safe_step m k" for i ls k
    using that by (simp add: peer_success_def Let_def safe_try_advance)
  then show "safe_step m n \<Longrightarrow> ?thesis"
    by (simp add: handle_append_entries_response_def Let_def split: option.split)
qed

lemma safe_requeue:
  assumes "safe_step m n" and "batch_inv n b"
  shows "safe_step m (requeue_committed b n)"
proof -
  let ?a = "applied_of n" and ?q = "queued n"
  let ?d = "filter (\<lambda>e. ?a < le_index e) b"
  let ?k = "if ?d = [] then ?a else le_index (last ?d)"
  have b: "batch_inv n ?d" using batch_inv_filter [OF assms(2), of ?a] by simp
  have q: "batch_inv n ?q" using assms(1) by (simp add: safe_step_def node_inv_def)
  have k: "max ?a (if ?d = [] then 0 else le_index (last ?d)) = ?k"
    using last_in_set [of ?d] by (auto simp: less_imp_le)
  have "?a \<le> ?k" using last_in_set [of ?d] by (auto simp: less_imp_le)
  then have "batch_after ?k (filter (\<lambda>e. ?k < le_index e) ?q)"
    using q batch_after_filter_later [of ?a ?q ?k] by (simp add: batch_inv_def)
  then have "batch_inv n (?d @ filter (\<lambda>e. ?k < le_index e) ?q)"
    using q by (intro batch_inv_append [OF b]) (auto simp: k batch_inv_def)
  then have "safe_step n (requeue_committed b n)" using assms(1)
    by (auto simp: requeue_committed_def Let_def safe_step_def node_inv_def marks_le_def
        committed_kept_def batch_inv_def)
  then show ?thesis using safe_step_trans [OF assms(1)] by blast
qed

lemma safe_propose:
  assumes "safe_step m n"
  shows "safe_step m (snd (propose ops env d n))"
  using safe_log_append [OF assms, of ops "\<lparr>le_term = term_of n, le_index = last_index (rlog n) + 1, le_data = d\<rparr>"] assms
  by (auto simp: propose_def Let_def intro: safe_try_advance split: sum.split prod.split)

lemma safe_advance_applied:
  assumes "safe_step m n"
  shows "safe_step m (advance_applied i n)"
proof -
  have "marks_le n (advance_applied i n)" and "committed_kept n (advance_applied i n)"
    by (auto simp: advance_applied_def marks_le_def committed_kept_def)
  then have "safe_step n (advance_applied i n)"
    using assms batch_inv_mono [of n "queued n" "advance_applied i n"]
    by (auto simp: safe_step_def node_inv_def) (auto simp: advance_applied_def)
  then show ?thesis using safe_step_trans [OF assms] by blast
qed

lemma safe_tick: "safe_step m n \<Longrightarrow> safe_step m (tick ops env n)"
  by (auto simp: tick_def Let_def safe_start_pre_election split: node_role.split option.split)

lemma safe_take_ready: "safe_step m n \<Longrightarrow> safe_step m (snd (take_ready n))"
  by (auto simp: take_ready_def safe_step_def node_inv_def marks_le_def committed_kept_def ready_default_def
      batch_inv_def)

lemma safe_persist:
  assumes "safe_step m n"
  shows "safe_step m (snd (persist_hard_state_if_dirty ops n))"
proof -
  have "safe_step m (n\<lparr>rlog := (rlog n)\<lparr>rl_storage := s\<rparr>\<rparr>)" for s
    using assms by (intro safe_rlog) (auto simp: safe_step_def node_inv_def)
  then show ?thesis using assms
    by (auto simp: persist_hard_state_if_dirty_def split: sum.split prod.split)
qed

theorem safe_exec:
  assumes "safe_step m n" and "event_ok ev n"
  shows "safe_step m (exec ops env ev n)"
  using assms
proof (cases ev)
  case (RecvAppend req)
  then show ?thesis using assms safe_handle_append_entries by simp
next
  case (Requeue b)
  then show ?thesis using assms safe_requeue by (simp add: event_ok_def)
next
  case (RecvSnapshot req)
  then show ?thesis using assms
    by (simp add: handle_install_snapshot_def snd_case_result Let_def safe_adopt_snapshot)
next
  case (SetReplicaState st)
  then show ?thesis using assms
    by (auto simp: set_replica_state_def stand_down_for_snapshot_def Let_def split: node_role.split option.split)
qed (auto simp: safe_tick safe_propose safe_handle_append_entries_response handle_request_vote_at_def
      handle_request_vote_response_def safe_become_leader handle_pre_vote_at_def handle_pre_vote_response_def
      safe_start_election safe_adopt_snapshot record_snapshot_installed_def handle_timeout_now_def
      add_peer_def remove_peer_def set_voters_def notify_removed_peer_def add_learner_def
      remove_learner_def promote_learner_def promote_self_to_voter_def transfer_leadership_def
      start_read_index_def on_storage_progress_def safe_try_advance safe_take_ready safe_persist
      safe_advance_applied safe_save_durable safe_compact_log maybe_compact_log_def
      set_compaction_ceiling_def Let_def split: option.split)

lemma node_inv_new: "node_inv (node_new env cfg s)"
  by (simp add: node_inv_def node_new_def log_wf_new volatile_state_new_def ready_default_def)

end
