(* ===== verification/Raft_Apply.thy ===== *)
theory Raft_Apply
  imports Raft_Invariant
begin

text \<open>
  From the commit index to the state machine: one turn of the tick loop for a data group
  (\<open>MultiRaft::tick\<close> in \<open>nodedb-cluster/src/multi_raft/core.rs\<close>, \<open>apply_group_commits\<close> and
  \<open>admit_batch\<close> in \<open>raft_loop/tick/apply_committed.rs\<close>) and the host side that takes the entries
  (\<open>DistributedApplier\<close> in \<open>nodedb/src/control/distributed_applier/applier.rs\<close>).

  Answers of other parts are inputs of a turn: whether the apply gate admits (no snapshot install
  holds it), whether the routing table a conf change produced is durable, whether the apply window
  and the channel of the background loop take the batch. RPCs and snapshot installs interleave
  between taking a batch and applying it.
\<close>

section \<open>The host applier (distributed_applier/applier.rs)\<close>

text \<open>The delivery watermark of each group, and the batches handed to the background loop.\<close>

record applier =
  ap_delivered :: "u64 \<rightharpoonup> u64"
  ap_sent :: "(u64 \<times> log_entry list) list"

definition claim_undelivered :: "u64 \<Rightarrow> log_entry list \<Rightarrow> applier \<Rightarrow> u64 \<times> applier" where
  "claim_undelivered g es a =
     (let watermark = (case ap_delivered a g of None \<Rightarrow> 0 | Some w \<Rightarrow> w);
          slot = (case find (\<lambda>e. le_index e > watermark) (rev es) of None \<Rightarrow> watermark | Some e \<Rightarrow> le_index e)
      in (watermark, a\<lparr>ap_delivered := (ap_delivered a)(g \<mapsto> slot)\<rparr>))"

definition release_claim :: "u64 \<Rightarrow> u64 \<Rightarrow> u64 \<Rightarrow> applier \<Rightarrow> applier" where
  "release_claim g claimed index a =
     (if ap_delivered a g = Some claimed then a\<lparr>ap_delivered := (ap_delivered a)(g \<mapsto> index)\<rparr> else a)"

fun take_fresh :: "u64 \<Rightarrow> log_entry list \<Rightarrow> log_entry list" where
  "take_fresh taken [] = []"
| "take_fresh taken (e # es) =
     (if le_index e > taken then e # take_fresh (le_index e) es else take_fresh taken es)"

definition apply_committed :: "bool \<Rightarrow> bool \<Rightarrow> u64 \<Rightarrow> log_entry list \<Rightarrow> applier \<Rightarrow> u64 \<times> applier" where
  "apply_committed window_admits channel_accepts g es a =
     (let last_idx = (if es = [] then 0 else le_index (last es));
          (watermark, a1) = claim_undelivered g es a;
          fresh = take_fresh watermark es
      in if fresh = [] then (last_idx, a1)
         else let fresh_last = le_index (last fresh); first_index = le_index (hd fresh)
              in if \<not> window_admits then (0, release_claim g fresh_last (first_index - 1) a1)
                 else if \<not> channel_accepts then (0, release_claim g fresh_last (first_index - 1) a1)
                 else (last_idx, a1\<lparr>ap_sent := ap_sent a1 @ [(g, fresh)]\<rparr>))"

section \<open>Applying a taken batch (raft_loop/tick/apply_committed.rs)\<close>

fun first_non_increasing_committed_index :: "log_entry list \<Rightarrow> u64 option" where
  "first_non_increasing_committed_index (x # y # es) =
     (if le_index y \<le> le_index x then Some (le_index y) else first_non_increasing_committed_index (y # es))"
| "first_non_increasing_committed_index _ = None"

definition admit_batch :: "bool \<Rightarrow> log_entry list \<Rightarrow> 's raft_node \<Rightarrow> log_entry list option \<times> 's raft_node" where
  "admit_batch gate_open batch n =
     (if \<not> gate_open then (None, requeue_committed batch n)
      else (Some (dropWhile (\<lambda>e. \<not> le_index e > applied_of n) batch), n))"

text \<open>
  A data group. \<open>conf_saved\<close> is the answer of \<open>apply_conf_changes\<close>; the membership calls it makes
  on the node are ordinary node events.
\<close>

definition apply_group_commits ::
  "bool \<Rightarrow> bool \<Rightarrow> bool \<Rightarrow> bool \<Rightarrow> u64 \<Rightarrow> log_entry list \<Rightarrow> 's raft_node \<times> applier \<Rightarrow> 's raft_node \<times> applier" where
  "apply_group_commits gate_open conf_saved window_admits channel_accepts g batch na =
     (let (n, a) = na
      in case admit_batch gate_open batch n of
           (None, n1) \<Rightarrow> (n1, a)
         | (Some es, n1) \<Rightarrow>
             if \<not> conf_saved then (requeue_committed es n1, a)
             else let (last_applied, a1) = (if es = [] then (0, a)
                        else apply_committed window_admits channel_accepts g es a)
                  in (if last_applied > 0 then advance_applied last_applied n1 else n1, a1))"

section \<open>A group under its driver\<close>

record 's data_group =
  dg_node :: "'s raft_node"
  dg_batch :: "log_entry list option"
  dg_applier :: applier

text \<open>The entries handed to the state machine so far, in order.\<close>

definition handed :: "u64 \<Rightarrow> applier \<Rightarrow> log_entry list" where
  "handed g a = concat (map snd (filter (\<lambda>(h, _). h = g) (ap_sent a)))"

text \<open>Calls that reach the node outside the tick: RPCs, proposals, membership, snapshots.\<close>

definition outside_tick :: "node_event \<Rightarrow> bool" where
  "outside_tick ev = (case ev of TakeReady \<Rightarrow> False | AdvanceApplied _ \<Rightarrow> False | Requeue _ \<Rightarrow> False | _ \<Rightarrow> True)"

text \<open>
  The steps of a group. \<open>ok\<close> says which calls the runs under study make on a node; the code itself checks
  nothing of the kind. The claims take \<open>event_ok\<close>: the batches a leader sends are consecutive and do not
  contradict what the node has committed.
\<close>

inductive group_step ::
  "(node_event \<Rightarrow> 's raft_node \<Rightarrow> bool) \<Rightarrow> 's storage_ops \<Rightarrow> u64 \<Rightarrow> 's data_group \<Rightarrow> 's data_group \<Rightarrow> bool" for ok ops g where
  Call: "outside_tick ev \<Longrightarrow> ok ev (dg_node d) \<Longrightarrow>
    group_step ok ops g d (d\<lparr>dg_node := exec ops env ev (dg_node d)\<rparr>)"
| TickFailed: "dg_batch d = None \<Longrightarrow> group_tick ops env (dg_node d) = (Inl e, n) \<Longrightarrow>
    group_step ok ops g d (d\<lparr>dg_node := n\<rparr>)"
| TickTaken: "dg_batch d = None \<Longrightarrow> group_tick ops env (dg_node d) = (Inr r, n) \<Longrightarrow>
    group_step ok ops g d (d\<lparr>dg_node := n, dg_batch :=
      (if rd_committed_entries r = [] then None else Some (rd_committed_entries r))\<rparr>)"
| Apply: "dg_batch d = Some b \<Longrightarrow>
    apply_group_commits gate saved window channel g b (dg_node d, dg_applier d) = (n, a) \<Longrightarrow>
    group_step ok ops g d (d\<lparr>dg_node := n, dg_applier := a, dg_batch := None\<rparr>)"

inductive_cases group_stepE: "group_step ok ops g d d'"

section \<open>Delivery\<close>

lemma sorted_dropWhile_filter:
  "sorted_wrt (<) (map le_index es) \<Longrightarrow> dropWhile (\<lambda>e. \<not> k < le_index e) es = filter (\<lambda>e. k < le_index e) es"
  by (induction es) (auto simp: filter_id_conv intro!: filter_True [symmetric])

lemma take_fresh_sorted:
  "sorted_wrt (<) (map le_index es) \<Longrightarrow> take_fresh k es = filter (\<lambda>e. k < le_index e) es"
proof (induction k es rule: take_fresh.induct)
  case (2 k e es)
  then have "filter (\<lambda>x. k < le_index x) es = filter (\<lambda>x. le_index e < le_index x) es" if "k < le_index e"
    using that by (force simp: filter_id_conv)
  then show ?case using 2 by auto
qed simp

abbreviation watermark_of :: "u64 \<Rightarrow> applier \<Rightarrow> u64" where
  "watermark_of g a \<equiv> (case ap_delivered a g of None \<Rightarrow> 0 | Some w \<Rightarrow> w)"

text \<open>A batch that continues at or past the watermark is handed over whole, or not at all.\<close>

lemma apply_committed_batch:
  assumes "batch_after k es" and "es \<noteq> []" and "watermark_of g a \<le> k"
  shows "apply_committed w c g es a =
     (if w \<and> c then (k + length es, a\<lparr>ap_delivered := (ap_delivered a)(g \<mapsto> k + length es),
                                        ap_sent := ap_sent a @ [(g, es)]\<rparr>)
      else (0, a\<lparr>ap_delivered := (ap_delivered a)(g \<mapsto> k)\<rparr>))"
proof -
  obtain xs x where es: "es = xs @ [x]" using assms(2) by (cases es rule: rev_cases) auto
  have lst: "le_index (last es) = k + length es"
    using assms(1) by (simp add: es batch_after_append batch_after_Cons)
  have fst: "le_index (hd es) = Suc k" using assms(1,2) by (cases es) (auto simp: batch_after_Cons)
  have "filter (\<lambda>e. watermark_of g a < le_index e) es = es"
    using batch_after_set [OF assms(1)] assms(3) by (fastforce simp: filter_id_conv)
  then have fresh: "take_fresh (watermark_of g a) es = es"
    using take_fresh_sorted [OF batch_after_sorted [OF assms(1)]] by simp
  have "find (\<lambda>e. watermark_of g a < le_index e) (rev es) = Some x"
    using lst assms(3) by (simp add: es)
  then have claim: "claim_undelivered g es a =
      (watermark_of g a, a\<lparr>ap_delivered := (ap_delivered a)(g \<mapsto> k + length es)\<rparr>)"
    using lst by (simp add: claim_undelivered_def es)
  show ?thesis
    using lst fst fresh claim assms(2) by (auto simp: apply_committed_def release_claim_def Let_def)
qed

lemma handed_send [simp]:
  "handed g (a\<lparr>ap_delivered := m, ap_sent := ap_sent a @ [(g, es)]\<rparr>) = handed g a @ es"
  "handed g (a\<lparr>ap_delivered := m\<rparr>) = handed g a"
  by (simp_all add: handed_def)

text \<open>
  Nothing past the applied watermark was handed over, and what was is ascending and committed. The
  batch in flight continues the applied watermark whatever happened since it was taken.
\<close>

definition group_inv :: "u64 \<Rightarrow> 's data_group \<Rightarrow> bool" where
  "group_inv g d \<longleftrightarrow> node_inv (dg_node d) \<and>
     (\<forall>b. dg_batch d = Some b \<longrightarrow> batch_inv (dg_node d) b) \<and>
     watermark_of g (dg_applier d) \<le> applied_of (dg_node d) \<and>
     batch_inv (dg_node d) (handed g (dg_applier d)) \<and>
     (\<forall>e\<in>set (handed g (dg_applier d)). le_index e \<le> applied_of (dg_node d))"

lemma group_inv_safe:
  assumes "group_inv g d" and "safe_step (dg_node d) n"
  shows "group_inv g (d\<lparr>dg_node := n\<rparr>)"
proof -
  have m: "marks_le (dg_node d) n" and k: "committed_kept (dg_node d) n" and i: "node_inv n"
    using assms(2) by (auto simp: safe_step_def)
  then show ?thesis using assms(1) batch_inv_mono [OF _ m k]
    by (auto simp: group_inv_def marks_le_def intro: order.trans)
qed

lemma safe_group_tick:
  assumes "safe_step m n" and "group_tick ops env n = (r, n')"
  shows "safe_step m n'" and "r = Inr rd \<Longrightarrow> batch_inv n' (rd_committed_entries rd)"
proof -
  define n1 where "n1 = tick ops env (on_storage_progress ops n)"
  have 1: "safe_step m n1"
    using assms(1) by (simp add: n1_def on_storage_progress_def safe_tick safe_try_advance)
  obtain q n2 where p: "persist_hard_state_if_dirty ops n1 = (q, n2)" by fastforce
  then have 2: "safe_step m n2" using safe_persist [OF 1, of ops] by simp
  then have 3: "safe_step m (snd (take_ready n2))" by (rule safe_take_ready)
  show "safe_step m n'" using assms(2) p 2 3
    by (auto simp: group_tick_def n1_def [symmetric] take_ready_def split: sum.splits)
  show "r = Inr rd \<Longrightarrow> batch_inv n' (rd_committed_entries rd)" using assms(2) p 2
    by (auto simp: group_tick_def n1_def [symmetric] take_ready_def safe_step_def node_inv_def batch_inv_def
        split: sum.splits)
qed

lemma admit_batch_eq:
  "batch_inv n b \<Longrightarrow> admit_batch gate_open b n =
     (if gate_open then (Some (filter (\<lambda>e. applied_of n < le_index e) b), n) else (None, requeue_committed b n))"
  by (simp only: admit_batch_def batch_inv_def sorted_dropWhile_filter if_not_P cong: if_cong) simp

lemma apply_group_commits_cases:
  assumes "batch_inv n b" and "watermark_of g a \<le> applied_of n"
    and "apply_group_commits gate saved w c g b (n, a) = (n', a')"
  obtains (deferred) "\<not> gate" "n' = requeue_committed b n" "a' = a"
  | (unsaved) "\<not> saved" "n' = requeue_committed (filter (\<lambda>e. applied_of n < le_index e) b) n" "a' = a"
  | (covered) "n' = n" "a' = a"
  | (refused) "\<not> (w \<and> c)" "n' = n" "a' = a\<lparr>ap_delivered := (ap_delivered a)(g \<mapsto> applied_of n)\<rparr>"
  | (sent) es where "es = filter (\<lambda>e. applied_of n < le_index e) b" "batch_after (applied_of n) es"
      "n' = advance_applied (applied_of n + length es) n"
      "a' = a\<lparr>ap_delivered := (ap_delivered a)(g \<mapsto> applied_of n + length es), ap_sent := ap_sent a @ [(g, es)]\<rparr>"
proof -
  let ?es = "filter (\<lambda>e. applied_of n < le_index e) b"
  have ba: "batch_after (applied_of n) ?es" using assms(1) by (simp add: batch_inv_def)
  note ev = assms(3) and d = apply_group_commits_def admit_batch_eq [OF assms(1)] Let_def
  show thesis
  proof (cases "gate \<and> saved \<and> ?es \<noteq> []")
    case True
    then show thesis using ev apply_committed_batch [OF ba _ assms(2), of w c] refused sent [OF refl ba]
      by (cases "w \<and> c") (auto simp: d)
  next
    case False
    then show thesis using ev deferred unsaved covered
      by (cases gate; cases saved) (auto simp: d)
  qed
qed

lemma group_inv_apply:
  assumes "group_inv g d" and "dg_batch d = Some b"
    and "apply_group_commits gate saved w c g b (dg_node d, dg_applier d) = (n, a)"
  shows "group_inv g (d\<lparr>dg_node := n, dg_applier := a, dg_batch := None\<rparr>)"
proof -
  let ?n = "dg_node d" and ?a = "dg_applier d"
  have b: "batch_inv ?n b" and wm: "watermark_of g ?a \<le> applied_of ?n" and s: "safe_step ?n ?n"
    and h: "batch_inv ?n (handed g ?a)" "\<forall>e\<in>set (handed g ?a). le_index e \<le> applied_of ?n"
    using assms(1,2) by (auto simp: group_inv_def intro: safe_step_refl)
  have nb: "group_inv g (e\<lparr>dg_batch := None\<rparr>)" if "group_inv g e" for e :: "'a data_group"
    using that by (simp add: group_inv_def)
  have rq: "group_inv g (d\<lparr>dg_node := requeue_committed q ?n\<rparr>)" if "batch_inv ?n q" for q
    using group_inv_safe [OF assms(1) safe_requeue [OF s that]] .
  show ?thesis using b wm assms(3)
  proof (cases rule: apply_group_commits_cases)
    case deferred
    then show ?thesis using nb [OF rq [OF b]] by (simp add: group_inv_def)
  next
    case unsaved
    then show ?thesis using nb [OF rq [OF batch_inv_filter [OF b order.refl]]] by (simp add: group_inv_def)
  next
    case covered
    then show ?thesis using nb [OF assms(1)] by (simp add: group_inv_def)
  next
    case refused
    then show ?thesis using assms(1) by (auto simp: group_inv_def)
  next
    case (sent es)
    have k: "safe_step ?n n" unfolding sent(3) using s by (rule safe_advance_applied)
    have "max (applied_of ?n) (if handed g ?a = [] then 0 else le_index (last (handed g ?a))) = applied_of ?n"
      using h(2) by (auto simp: max_absorb1)
    then have "batch_inv ?n (handed g ?a @ es)"
      using sent(1,2) b by (intro batch_inv_append [OF h(1)]) (auto simp: batch_inv_def)
    then have "batch_inv n (handed g ?a @ es)" using batch_inv_mono k by (auto simp: safe_step_def)
    moreover have "\<forall>e\<in>set (handed g ?a @ es). le_index e \<le> applied_of n"
      using h(2) batch_after_set [OF sent(2)] by (fastforce simp: sent(3) advance_applied_def)
    ultimately show ?thesis using k sent(3,4)
      by (auto simp: group_inv_def safe_step_def advance_applied_def)
  qed
qed

lemma group_inv_step: "group_step event_ok ops g d d' \<Longrightarrow> group_inv g d \<Longrightarrow> group_inv g d'"
proof (induction rule: group_step.induct)
  case (Call ev d env)
  then have "safe_step (dg_node d) (exec ops env ev (dg_node d))"
    using safe_exec [OF safe_step_refl] by (auto simp: group_inv_def)
  then show ?case using group_inv_safe Call.prems by blast
next
  case (TickFailed d env e n)
  then show ?case using group_inv_safe safe_group_tick(1) [OF safe_step_refl] by (metis group_inv_def)
next
  case (TickTaken d env r n)
  then have "node_inv (dg_node d)" by (simp add: group_inv_def)
  note t = safe_group_tick [OF safe_step_refl [OF this] TickTaken.hyps(2)]
  then show ?case using group_inv_safe [OF TickTaken.prems t(1)] by (auto simp: group_inv_def)
next
  case (Apply d b gate saved window channel n a)
  then show ?case using group_inv_apply by blast
qed

lemma group_inv_reachable: "(group_step event_ok ops g)\<^sup>*\<^sup>* d d' \<Longrightarrow> group_inv g d \<Longrightarrow> group_inv g d'"
  by (induction rule: rtranclp_induct) (auto intro: group_inv_step)

definition group_new :: "step_env \<Rightarrow> raft_config \<Rightarrow> 's \<Rightarrow> 's data_group" where
  "group_new env cfg s = \<lparr>dg_node = node_new env cfg s, dg_batch = None,
     dg_applier = \<lparr>ap_delivered = Map.empty, ap_sent = []\<rparr>\<rparr>"

lemma group_inv_new: "group_inv g (group_new env cfg s)"
  by (simp add: group_inv_def group_new_def node_inv_new handed_def)

end
