(* ===== verification/Raft_Election.thy ===== *)
theory Raft_Election
  imports Raft_Step
begin

text \<open>
  How one call can change what an election depends on: the role, the votes a candidate counts, the
  vote requests in \<open>Ready\<close> and the unsaved hard state. \<open>elect_step\<close> is the contract the cluster
  argument uses; every call outside voter-set changes and vote replies keeps it.
\<close>

abbreviation vreqs :: "'s raft_node \<Rightarrow> (node_id \<times> request_vote_request) list" where
  "vreqs n \<equiv> rd_vote_requests (pending_ready n)"

abbreviation unsaved :: "'s raft_node \<Rightarrow> hard_state option" where
  "unsaved n \<equiv> rd_hard_state (pending_ready n)"

text \<open>Addressee, term and candidate of the vote requests that wait in \<open>Ready\<close>.\<close>

definition asked :: "'s raft_node \<Rightarrow> (node_id \<times> u64 \<times> node_id) set" where
  "asked n = (\<lambda>(p, r). (p, rv_term r, rv_candidate_id r)) ` set (vreqs n)"

definition elect_step :: "'s raft_node \<Rightarrow> 's raft_node \<Rightarrow> bool" where
  "elect_step n m \<longleftrightarrow>
     node_id (config m) = node_id (config n) \<and> peers (config m) = peers (config n) \<and>
     hard_le (hard n) (hard m) \<and>
     (unsaved m = None \<longrightarrow> unsaved n = None \<and> hard m = hard n) \<and>
     (role m = Candidate \<longrightarrow> votes_received m = {} \<or>
        (role n = Candidate \<and> term_of m = term_of n \<and> votes_received m = votes_received n)) \<and>
     (role m = Leader \<longrightarrow> peers (config n) = [] \<or> (role n = Leader \<and> term_of m = term_of n)) \<and>
     (\<forall>x\<in>asked m. x \<in> asked n \<or>
        ((\<exists>p\<in>set (peers (config n)). x = (p, term_of m, node_id (config m))) \<and>
         term_of n < term_of m \<and> vote_of m = node_id (config m)))"

definition static_voters :: "node_event \<Rightarrow> bool" where
  "static_voters ev = (case ev of AddPeer _ \<Rightarrow> False | RemovePeer _ \<Rightarrow> False | PromoteLearner _ \<Rightarrow> False | _ \<Rightarrow> True)"

section \<open>What leaves Ready alone\<close>

lemma ready_send [simp]:
  "vreqs (send_append_entries env p n) = vreqs n" "unsaved (send_append_entries env p n) = unsaved n"
  "vreqs (send_append_entries_to_observer env p n) = vreqs n"
  "unsaved (send_append_entries_to_observer env p n) = unsaved n"
  by (simp_all add: send_append_entries_def send_append_entries_to_observer_def push_snapshot_needed_def
      push_message_def stamp_lease_round_def Let_def split: option.split prod.split)

lemma ready_fold_send [simp]:
  "vreqs (fold (send_append_entries env) ps n) = vreqs n"
  "unsaved (fold (send_append_entries env) ps n) = unsaved n"
  "vreqs (fold (send_append_entries_to_observer env) ps n) = vreqs n"
  "unsaved (fold (send_append_entries_to_observer env) ps n) = unsaved n"
  by (induction ps arbitrary: n) simp_all

lemma ready_frames [simp]:
  "vreqs (replicate_to_all env n) = vreqs n" "unsaved (replicate_to_all env n) = unsaved n"
  "vreqs (persist_hard_state n) = vreqs n" "unsaved (persist_hard_state n) = Some (hard n)"
  "vreqs (try_emit_timeout_now n) = vreqs n" "unsaved (try_emit_timeout_now n) = unsaved n"
  "vreqs (push_snapshot_needed p n) = vreqs n" "unsaved (push_snapshot_needed p n) = unsaved n"
  "vreqs (collect_committed_entries n) = vreqs n" "unsaved (collect_committed_entries n) = unsaved n"
  "vreqs (resume_at_boundary i n) = vreqs n" "unsaved (resume_at_boundary i n) = unsaved n"
  by (simp_all add: replicate_to_all_def persist_hard_state_def try_emit_timeout_now_def push_snapshot_needed_def
      collect_committed_entries_def queue_committed_entries_def resume_at_boundary_def Let_def
      split: option.split sum.split)

lemma ready_frames2 [simp]:
  "vreqs (try_advance_commit_index ops n) = vreqs n" "unsaved (try_advance_commit_index ops n) = unsaved n"
  "vreqs (follow_commit req n) = vreqs n" "unsaved (follow_commit req n) = unsaved n"
  "vreqs (peer_rejection env p resp ls n) = vreqs n" "unsaved (peer_rejection env p resp ls n) = unsaved n"
  "vreqs (peer_success ops env p i ls n) = vreqs n" "unsaved (peer_success ops env p i ls n) = unsaved n"
  "vreqs (observer_response env p resp n) = vreqs n" "unsaved (observer_response env p resp n) = unsaved n"
  "vreqs (take_lead ops env n) = vreqs n" "unsaved (take_lead ops env n) = unsaved n"
  by (simp_all add: try_advance_commit_index_def follow_commit_def peer_rejection_def peer_success_def
      observer_response_def Let_def split: option.split)

lemma ready_become_leader [simp]:
  "vreqs (become_leader ops env n) = vreqs n" "unsaved (become_leader ops env n) = unsaved n"
  by (simp_all add: become_leader_def Let_def)

lemma votes_frames [simp]:
  "votes_received (peer_contact env p resp ls n) = votes_received n"
  "votes_received (peer_success ops env p i ls n) = votes_received n"
  "votes_received (peer_rejection env p resp ls n) = votes_received n"
  "votes_received (observer_response env p resp n) = votes_received n"
  "votes_received (follow_commit req n) = votes_received n"
  "votes_received (resume_at_boundary i n) = votes_received n"
  by (simp_all add: peer_contact_def peer_success_def peer_rejection_def observer_response_def
      follow_commit_def resume_at_boundary_def Let_def split: option.split)

section \<open>Every call\<close>

lemma elect_same:
  assumes "config m = config n \<or> (node_id (config m) = node_id (config n) \<and> peers (config m) = peers (config n))"
    and "role m = role n \<or> role m \<in> {Follower, Learner, Observer}"
    and "hard m = hard n" and "votes_received m = votes_received n" and "vreqs m = vreqs n"
    and "unsaved m = unsaved n"
  shows "elect_step n m"
  using assms by (auto simp: elect_step_def asked_def)

lemma elect_cong:
  assumes "config k = config m" and "role k = role m" and "hard k = hard m"
    and "votes_received k = votes_received m" and "vreqs k = vreqs m" and "unsaved k = unsaved m"
  shows "elect_step n k = elect_step n m"
  using assms by (simp add: elect_step_def asked_def)

lemma elect_step_refl [simp]: "elect_step n n"
  by (rule elect_same) auto

lemma elect_step_down:
  "hard k = hard n \<Longrightarrow> config k = config n \<Longrightarrow> vreqs k = vreqs n \<Longrightarrow> term_of n \<le> t \<Longrightarrow>
     elect_step n (become_follower env t k)"
  by (auto simp: elect_step_def asked_def hard_le_become_follower)

lemmas elect_become_follower = elect_step_down [OF refl refl refl]

lemma elect_start_election:
  assumes "elect_step m n" and "hard m = hard n" and "asked m = asked n" and "unsaved m = unsaved n"
    and "term_fits n"
  shows "elect_step m (start_election ops env n)"
  using assms next_term [OF assms(5)] by (auto simp: start_election_def Let_def elect_step_def hard_le_def asked_def)

lemma elect_start_pre_election:
  assumes "term_fits n"
  shows "elect_step n (start_pre_election ops env n)"
proof -
  have "elect_step n (start_election ops env n)" by (rule elect_start_election) (simp_all add: assms)
  moreover have "elect_step n ((reset_election_timeout env n)\<lparr>pre_vote := pv,
      pending_ready := (pending_ready n)\<lparr>rd_pre_vote_requests := rs\<rparr>\<rparr>)" for pv rs
    by (rule elect_same) simp_all
  ultimately show ?thesis by (simp add: start_pre_election_def Let_def)
qed

lemma elect_handle_request_vote: "elect_step n (snd (handle_request_vote_at env req n))"
  by (auto simp: handle_request_vote_at_def Let_def elect_step_def asked_def hard_le_def)

lemma elect_handle_append_entries: "elect_step n (snd (handle_append_entries ops env req n))"
proof -
  have f: "elect_step n (follow_leader env req n)" if "term_of n \<le> ae_term req"
    using that by (auto simp: follow_leader_def Let_def elect_step_def asked_def hard_le_def)
  have l: "elect_step n (m\<lparr>rlog := l\<rparr>) = elect_step n m" for m l by (rule elect_cong) simp_all
  have c: "elect_step n (follow_commit req m) = elect_step n m" for m by (rule elect_cong) simp_all
  show ?thesis using f
    by (auto simp: handle_append_entries_def Let_def c l split: sum.split prod.split)
qed

lemma elect_handle_append_entries_response: "elect_step n (handle_append_entries_response ops env p resp n)"
  by (auto simp: handle_append_entries_response_def Let_def elect_become_follower split: option.split
      intro!: elect_same)

lemma elect_handle_pre_vote_response:
  assumes "term_fits n"
  shows "elect_step n (handle_pre_vote_response ops env p resp n)"
proof -
  have "term_fits (n\<lparr>pre_vote := None\<rparr>)" using assms by (simp add: term_fits_def)
  then have "elect_step n (start_election ops env (n\<lparr>pre_vote := None\<rparr>))"
    by (intro elect_start_election) (auto simp: asked_def intro!: elect_same)
  moreover have "elect_step n ((become_follower env t n)\<lparr>pre_vote := None\<rparr>)" if "term_of n < t" for t
    using elect_become_follower [of n t env] that by (simp add: elect_step_def asked_def)
  moreover have "elect_step n (n\<lparr>pre_vote := pv\<rparr>)" for pv by (rule elect_same) auto
  ultimately show ?thesis by (simp add: handle_pre_vote_response_def Let_def split: option.split)
qed

lemma elect_tick: "term_fits n \<Longrightarrow> elect_step n (tick ops env n)"
  by (auto simp: tick_def Let_def elect_start_pre_election split: node_role.split option.split
      intro!: elect_step_down elect_same)

lemma elect_adopt_snapshot:
  assumes "elect_step n m"
  shows "elect_step n (snd (adopt_snapshot_boundary ops i t m))"
proof -
  have d: "elect_step n (snd (save_durable_applied_index ops i k)) = elect_step n k" for k
    by (rule elect_cong) (simp_all add: save_durable_applied_index_def split: sum.split prod.split)
  have r: "elect_step n (resume_at_boundary i k) = elect_step n k" for k by (rule elect_cong) simp_all
  have l: "elect_step n (k\<lparr>rlog := l\<rparr>) = elect_step n k" for k l by (rule elect_cong) simp_all
  show ?thesis using assms
    by (simp add: adopt_snapshot_boundary_def Let_def d r l split: sum.split prod.split)
qed

lemma elect_handle_install_snapshot: "elect_step n (snd (handle_install_snapshot ops env req n))"
proof -
  have r: "elect_step n (reset_election_timeout env (k\<lparr>leader_id := i\<rparr>)) = elect_step n k" for k i
    by (rule elect_cong) simp_all
  show ?thesis
    by (simp add: handle_install_snapshot_def snd_case_result Let_def r elect_become_follower elect_adopt_snapshot)
qed

lemma elect_handle_timeout_now:
  assumes "term_fits n"
  shows "elect_step n (handle_timeout_now ops env req n)"
proof -
  let ?f = "\<lambda>t (p, v). (p, if rv_term v = t then v\<lparr>rv_transfer := True\<rparr> else v)"
  have a: "asked (m\<lparr>pending_ready := (pending_ready m)\<lparr>rd_vote_requests := map (?f t) (vreqs m)\<rparr>\<rparr>) = asked m" for m t
    by (force simp: asked_def image_iff)
  have e: "elect_step n (m\<lparr>pending_ready := (pending_ready m)\<lparr>rd_vote_requests := map (?f t) (vreqs m)\<rparr>\<rparr>) = elect_step n m"
    for m t by (simp add: elect_step_def a)
  have "elect_step n (start_election ops env n)" by (rule elect_start_election) (auto simp: assms)
  then show ?thesis by (simp only: handle_timeout_now_def Let_def e elect_step_refl split: if_split) simp
qed

lemma elect_set_replica_state: "elect_step n (set_replica_state env st n)"
  by (auto simp: set_replica_state_def stand_down_for_snapshot_def Let_def
      split: node_role.split option.split intro!: elect_step_down elect_same)

lemma elect_propose: "elect_step n (snd (propose ops env d n))"
  by (rule elect_same) (auto simp: propose_def Let_def split: sum.split prod.split)

lemma elect_compact_log: "elect_step n (snd (compact_log_up_to ops i n))"
  by (rule elect_same) (auto simp: compact_log_up_to_def Let_def split: option.split sum.split prod.split)

lemma elect_quiet:
  "elect_step n (record_snapshot_installed p i n)" "elect_step n (notify_removed_peer env p n)"
  "elect_step n (add_learner p n)" "elect_step n (remove_learner p n)" "elect_step n (promote_self_to_voter n)"
  "elect_step n (snd (transfer_leadership env p n))" "elect_step n (snd (start_read_index env n))"
  "elect_step n (on_storage_progress ops n)" "elect_step n (advance_applied i n)"
  "elect_step n (requeue_committed es n)" "elect_step n (snd (save_durable_applied_index ops i n))"
  "elect_step n (set_compaction_ceiling i n)"
  by (rule elect_same; simp add: record_snapshot_installed_def notify_removed_peer_def add_learner_def
      remove_learner_def promote_self_to_voter_def transfer_leadership_def start_read_index_def
      on_storage_progress_def advance_applied_def requeue_committed_def save_durable_applied_index_def
      set_compaction_ceiling_def Let_def split: option.split sum.split prod.split)+

theorem elect_exec:
  assumes "static_voters ev" and "\<forall>p resp. ev \<noteq> RecvVoteResp p resp" and "ev \<noteq> PersistHardState"
    and "ev = TakeReady \<Longrightarrow> unsaved n = None" and "term_fits n"
  shows "elect_step n (exec ops env ev n)"
proof (cases ev)
  case TakeReady
  then show ?thesis using assms(4)
    by (auto simp: take_ready_def ready_default_def elect_step_def asked_def)
next
  case (RecvVoteResp p resp)
  then show ?thesis using assms(2) by simp
next
  case (MaybeCompact i)
  then show ?thesis by (simp add: maybe_compact_log_def elect_compact_log Let_def split: option.split)
qed (use assms(1,3,5) in \<open>auto simp: static_voters_def elect_tick elect_propose elect_handle_append_entries
      elect_handle_append_entries_response elect_handle_request_vote elect_handle_pre_vote_response
      elect_handle_install_snapshot elect_adopt_snapshot elect_handle_timeout_now elect_set_replica_state
      elect_compact_log handle_pre_vote_at_def elect_quiet Let_def\<close>)

end
