(* ===== verification/Raft_Durable.thy ===== *)
theory Raft_Durable
  imports Raft_Election
begin

text \<open>
  Crash and restart. Over any storage that keeps the \<open>log_storage\<close> laws, every call leaves disk and
  memory in step: the storage holds exactly the log in memory, the applied floor, and the hard
  state unless \<open>Ready\<close> still carries it. \<open>RaftNode::restore\<close> on that storage then rebuilds the
  term, the vote, the log and the applied floor.
\<close>

definition stored :: "'s storage_ops \<Rightarrow> ('s \<Rightarrow> log_entry list) \<Rightarrow> 's raft_node \<Rightarrow> bool" where
  "stored ops held n \<longleftrightarrow> log_wf (rlog n) \<and> log_synced ops held (rlog n) \<and>
     so_load_applied_index ops (rl_storage (rlog n)) = Inr (durable_applied n) \<and>
     (unsaved n = None \<longrightarrow> so_load_hard_state ops (rl_storage (rlog n)) = Inr (hard n))"

text \<open>
  What the driver owes: an \<open>AppendEntries\<close> is numbered from \<open>prev_log_index + 1\<close>, and \<open>Ready\<close> is
  taken only after its hard state went to disk, as \<open>MultiRaft::tick\<close> does.
\<close>

definition driver_ok :: "node_event \<Rightarrow> 's raft_node \<Rightarrow> bool" where
  "driver_ok ev n = (case ev of
     RecvAppend req \<Rightarrow> batch_after (ae_prev_log_index req) (ae_entries req)
   | TakeReady \<Rightarrow> unsaved n = None
   | _ \<Rightarrow> True)"

section \<open>What leaves the disk alone\<close>

lemma stored_same:
  assumes "stored ops held n" and "rlog n' = rlog n" and "durable_applied n' = durable_applied n"
    and "unsaved n' = None \<Longrightarrow> unsaved n = None \<and> hard n' = hard n"
  shows "stored ops held n'"
  using assms by (auto simp: stored_def)

lemma stored_frames [simp]:
  "stored ops held (replicate_to_all env n) = stored ops held n"
  "stored ops held (reset_election_timeout env n) = stored ops held n"
  "stored ops held (try_emit_timeout_now n) = stored ops held n"
  "stored ops held (send_append_entries env p n) = stored ops held n"
  "stored ops held (refresh_quorum_contact now n) = stored ops held n"
  "stored ops held (try_advance_commit_index ops' n) = stored ops held n"
  "stored ops held (observer_response env p resp n) = stored ops held n"
  "stored ops held (peer_contact env p resp ls n) = stored ops held n"
  "stored ops held (peer_rejection env p resp ls n) = stored ops held n"
  "stored ops held (peer_success ops' env p i ls n) = stored ops held n"
  "stored ops held (follow_commit req n) = stored ops held n"
  by (auto simp: stored_def)

lemma stored_updates [simp]:
  "stored ops held (n\<lparr>role := x\<rparr>) = stored ops held n" "stored ops held (n\<lparr>leader_id := i\<rparr>) = stored ops held n"
  "stored ops held (n\<lparr>votes_received := vs\<rparr>) = stored ops held n"
  "stored ops held (n\<lparr>pre_vote := pv\<rparr>) = stored ops held n" "stored ops held (n\<lparr>leader_st := st\<rparr>) = stored ops held n"
  "stored ops held (n\<lparr>transfer := tr\<rparr>) = stored ops held n" "stored ops held (n\<lparr>config := c\<rparr>) = stored ops held n"
  "stored ops held (n\<lparr>lease := ls\<rparr>) = stored ops held n" "stored ops held (n\<lparr>replica := rs\<rparr>) = stored ops held n"
  "stored ops held (n\<lparr>heartbeat_deadline := now\<rparr>) = stored ops held n"
  "stored ops held (n\<lparr>compaction_ceiling := ce\<rparr>) = stored ops held n"
  "stored ops held (n\<lparr>volatile := v\<rparr>) = stored ops held n"
  "rd_hard_state r = unsaved n \<Longrightarrow> stored ops held (n\<lparr>pending_ready := r\<rparr>) = stored ops held n"
  by (simp_all add: stored_def)

lemma stored_become_follower: "stored ops held n \<Longrightarrow> stored ops held (become_follower env t n)"
  by (simp add: stored_def)

lemma stored_persist_hard_state [simp]:
  "stored ops held n \<Longrightarrow> stored ops held (persist_hard_state (n\<lparr>hard := h\<rparr>))"
  by (simp add: stored_def)

lemma stored_follow_leader: "stored ops held n \<Longrightarrow> stored ops held (follow_leader env req n)"
  using stored_become_follower [of ops held n env "ae_term req"]
  by (auto simp: follow_leader_def Let_def stored_def)

lemma stored_resume: "stored ops held n \<Longrightarrow> stored ops held (resume_at_boundary i n)"
  by (simp add: stored_def)

section \<open>Log operations and the disk\<close>

context log_storage
begin

lemma loads_log_append:
  "log_append ops l e = (r, l') \<Longrightarrow>
     so_load_hard_state ops (rl_storage l') = so_load_hard_state ops (rl_storage l) \<and>
     so_load_applied_index ops (rl_storage l') = so_load_applied_index ops (rl_storage l)"
  by (auto simp: log_append_def dest: append_keeps split: sum.splits prod.splits)

lemma loads_truncate_from:
  "truncate_from ops l i = (r, l') \<Longrightarrow>
     so_load_hard_state ops (rl_storage l') = so_load_hard_state ops (rl_storage l) \<and>
     so_load_applied_index ops (rl_storage l') = so_load_applied_index ops (rl_storage l)"
  by (auto simp: truncate_from_def dest: truncate_keeps split: if_splits sum.splits prod.splits)

lemma loads_append_entries:
  assumes "append_entries ops l p es = (r, l')"
  shows "so_load_hard_state ops (rl_storage l') = so_load_hard_state ops (rl_storage l) \<and>
     so_load_applied_index ops (rl_storage l') = so_load_applied_index ops (rl_storage l)"
proof (cases "dropWhile (\<lambda>e. \<not> not_held l e) es")
  case Nil
  then show ?thesis using assms unfolding append_entries_def by (simp only: Nil list.case prod.inject)
next
  case (Cons e rest)
  obtain rt l1 where t: "(if entry_at l (le_index e) \<noteq> None then truncate_from ops l (le_index e) else (Inr (), l)) = (rt, l1)"
    by fastforce
  have "so_load_hard_state ops (rl_storage l1) = so_load_hard_state ops (rl_storage l) \<and>
     so_load_applied_index ops (rl_storage l1) = so_load_applied_index ops (rl_storage l)"
    using t loads_truncate_from by (auto split: if_splits)
  moreover have "l' = l1 \<or> (\<exists>r2 s. so_append ops (rl_storage l1) (e # rest) = (r2, s) \<and> rl_storage l' = s)"
    using assms t by (auto simp: append_entries_def Cons Let_def split: sum.splits prod.splits)
  ultimately show ?thesis using append_keeps by auto
qed

lemma loads_apply_snapshot:
  "apply_snapshot ops l i t = (r, l') \<Longrightarrow>
     so_load_hard_state ops (rl_storage l') = so_load_hard_state ops (rl_storage l) \<and>
     so_load_applied_index ops (rl_storage l') = so_load_applied_index ops (rl_storage l)"
  by (auto simp: apply_snapshot_def Let_def dest: compact_keeps split: if_splits sum.splits prod.splits)

lemma stored_log_append:
  "stored ops held n \<Longrightarrow> log_append ops (rlog n) e = (r, l) \<Longrightarrow> le_index e = Suc (last_index (rlog n)) \<Longrightarrow>
     stored ops held (n\<lparr>rlog := l\<rparr>)"
  using loads_log_append log_append_wf synced_log_append by (fastforce simp: stored_def)

lemma stored_apply_snapshot:
  "stored ops held n \<Longrightarrow> apply_snapshot ops (rlog n) i t = (r, l) \<Longrightarrow> stored ops held (n\<lparr>rlog := l\<rparr>)"
  using loads_apply_snapshot apply_snapshot_wf synced_apply_snapshot by (fastforce simp: stored_def)

lemma stored_append_entries:
  "stored ops held n \<Longrightarrow> append_entries ops (rlog n) q es = (r, l) \<Longrightarrow> batch_after p es \<Longrightarrow>
     p \<le> last_index (rlog n) \<Longrightarrow> stored ops held (n\<lparr>rlog := l\<rparr>)"
  using loads_append_entries append_entries_wf synced_append_entries by (fastforce simp: stored_def)

lemma stored_take_lead: "stored ops held n \<Longrightarrow> stored ops held (take_lead ops env n)"
proof -
  assume n: "stored ops held n"
  let ?e = "\<lparr>le_term = term_of n, le_index = last_index (rlog n) + 1, le_data = []\<rparr>"
  have "stored ops held (n\<lparr>rlog := snd (log_append ops (rlog n) ?e)\<rparr>)"
    by (rule stored_log_append [OF n, of ?e "fst (log_append ops (rlog n) ?e)"]) simp_all
  then show ?thesis
    by (rule stored_same) (simp_all add: take_lead_def arm_quorum_window_def Let_def)
qed

lemma stored_become_leader: "stored ops held n \<Longrightarrow> stored ops held (become_leader ops env n)"
  by (simp add: become_leader_def Let_def stored_take_lead)

lemma stored_start_election: "stored ops held n \<Longrightarrow> stored ops held (start_election ops env n)"
proof -
  assume "stored ops held n"
  then have "stored ops held (reset_election_timeout env (persist_hard_state (n\<lparr>pre_vote := None, hard := h,
      role := Candidate, votes_received := {}, leader_id := 0\<rparr>)))" for h
    by (simp add: stored_def)
  then show ?thesis using \<open>stored ops held n\<close> by (simp add: start_election_def Let_def stored_become_leader)
qed

lemma stored_start_pre_election: "stored ops held n \<Longrightarrow> stored ops held (start_pre_election ops env n)"
  by (simp add: start_pre_election_def Let_def stored_start_election)

lemma stored_save_durable: "stored ops held n \<Longrightarrow> stored ops held (snd (save_durable_applied_index ops i n))"
  by (auto simp: save_durable_applied_index_def stored_def log_synced_def
      dest: save_applied save_applied_keeps save_applied_failed split: sum.split prod.split)

lemma stored_persist: "stored ops held n \<Longrightarrow> stored ops held (snd (persist_hard_state_if_dirty ops n))"
  by (auto simp: persist_hard_state_if_dirty_def stored_def log_synced_def
      dest: save_hard_state save_hard_state_keeps save_hard_state_failed split: sum.split prod.split)

lemma stored_adopt_snapshot: "stored ops held n \<Longrightarrow> stored ops held (snd (adopt_snapshot_boundary ops i t n))"
  by (auto simp: adopt_snapshot_boundary_def Let_def
      intro!: stored_save_durable stored_resume intro: stored_apply_snapshot split: sum.split prod.split)

lemma stored_compact_log: "stored ops held n \<Longrightarrow> stored ops held (snd (compact_log_up_to ops i n))"
  by (auto simp: compact_log_up_to_def Let_def intro: stored_apply_snapshot
      split: option.split sum.split prod.split)

lemma stored_propose: "stored ops held n \<Longrightarrow> stored ops held (snd (propose ops env d n))"
  using stored_log_append [of n "\<lparr>le_term = term_of n, le_index = last_index (rlog n) + 1, le_data = d\<rparr>"]
  by (auto simp: propose_def Let_def split: sum.split prod.split)

lemma stored_tick: "stored ops held n \<Longrightarrow> stored ops held (tick ops env n)"
  by (auto simp: tick_def Let_def stored_start_pre_election stored_become_follower
      split: node_role.split option.split)

lemma stored_handle_request_vote: "stored ops held n \<Longrightarrow> stored ops held (snd (handle_request_vote_at env req n))"
  by (auto simp: handle_request_vote_at_def Let_def stored_become_follower)

lemma stored_handle_append_entries:
  assumes "stored ops held n" and "batch_after (ae_prev_log_index req) (ae_entries req)"
  shows "stored ops held (snd (handle_append_entries ops env req n))"
proof -
  let ?n = "follow_leader env req n"
  have n: "stored ops held ?n" using stored_follow_leader [OF assms(1)] .
  have "log_wf (rlog n)" using assms(1) by (simp add: stored_def)
  then have "ae_prev_log_index req \<le> last_index (rlog n)" if "prev_log_ok (rlog n) req"
    using that term_at_None_iff [of "rlog n" "ae_prev_log_index req"] by (auto simp: prev_log_ok_def)
  then have "stored ops held (?n\<lparr>rlog := l\<rparr>)"
    if "append_entries ops (rlog n) (ae_prev_log_index req) (ae_entries req) = (r, l)" "prev_log_ok (rlog n) req" for r l
    using stored_append_entries [OF n _ assms(2), of "ae_prev_log_index req" r l] that by simp
  then show ?thesis using assms(1) n
    by (auto simp: handle_append_entries_def Let_def split: sum.split prod.split)
qed

theorem stored_exec:
  assumes "stored ops held n" and "driver_ok ev n"
  shows "stored ops held (exec ops env ev n)"
proof (cases ev)
  case (RecvAppend req)
  then show ?thesis using assms stored_handle_append_entries by (simp add: driver_ok_def)
next
  case (RecvSnapshot req)
  then show ?thesis using assms
    by (simp add: handle_install_snapshot_def snd_case_result Let_def stored_adopt_snapshot stored_become_follower)
next
  case (SetReplicaState st)
  then show ?thesis using assms
    by (auto simp: set_replica_state_def stand_down_for_snapshot_def Let_def stored_become_follower
        split: node_role.split option.split)
next
  case TakeReady
  then show ?thesis using assms by (auto simp: driver_ok_def take_ready_def ready_default_def stored_def)
qed (use assms in \<open>auto simp: stored_tick stored_propose stored_handle_request_vote handle_append_entries_response_def
      handle_request_vote_response_def stored_become_leader stored_become_follower handle_pre_vote_at_def
      handle_pre_vote_response_def stored_start_election stored_adopt_snapshot record_snapshot_installed_def
      handle_timeout_now_def add_peer_def remove_peer_def set_voters_def notify_removed_peer_def
      add_learner_def remove_learner_def promote_learner_def promote_self_to_voter_def
      transfer_leadership_def start_read_index_def on_storage_progress_def stored_persist advance_applied_def
      requeue_committed_def stored_save_durable stored_compact_log maybe_compact_log_def
      set_compaction_ceiling_def Let_def split: option.split\<close>)

lemma stored_new:
  assumes "held s = []" and "so_snapshot_metadata ops s = (0, 0)"
    and "so_load_hard_state ops s = Inr hard_state_new" and "so_load_applied_index ops s = Inr 0"
  shows "stored ops held (node_new env cfg s)"
  using assms by (simp add: stored_def node_new_def log_wf_def log_synced_def raft_log_new_def)

lemma raft_log_new_storage: "rl_storage (raft_log_new s) = s"
  by (simp add: raft_log_new_def)

lemma restore_stored:
  assumes "stored ops held n" and "unsaved n = None"
    and "node_restore ops env (node_new env' cfg (rl_storage (rlog n))) = (Inr u, n')"
  shows "hard n' = hard n \<and> rlog n' = rlog n \<and> durable_applied n' = durable_applied n \<and>
     volatile n' = volatile_state_restored (durable_applied n) \<and> stored ops held n'"
proof -
  have l: "raft_log_restore ops (raft_log_new (rl_storage (rlog n))) = (Inr v, l') \<Longrightarrow> l' = rlog n" for v l'
    using assms(1) restore_synced by (auto simp: stored_def)
  show ?thesis using assms
    by (auto simp: node_restore_def node_new_def stored_def raft_log_new_storage ready_default_def Let_def
        dest!: l split: sum.splits prod.splits)
qed

end

end
