(* ===== verification/Raft_Cluster.thy ===== *)
theory Raft_Cluster
  imports Raft_Durable
begin

text \<open>
  Election safety of a whole group. The nodes of a fixed voter set exchange vote requests and
  replies through a network that may delay, duplicate, reorder and drop; every other message is
  unconstrained. A node may crash at any point and restart from its disk. The driver is the one of
  \<open>nodedb-cluster\<close>: \<open>MultiRaft::tick\<close> writes the hard state before the vote requests of its
  \<open>Ready\<close> leave, and a vote is written before its reply leaves (\<open>persist_group_hard_state\<close>).
\<close>

section \<open>The system\<close>

datatype vote_msg =
    VoteRequest node_id request_vote_request
  | VoteReply node_id node_id request_vote_response

record 's cluster =
  cl_node :: "node_id \<Rightarrow> 's raft_node"
  cl_net :: "vote_msg set"

text \<open>Handling a vote request: the answer leaves once the hard state is written.\<close>

definition serve_vote ::
  "'s storage_ops \<Rightarrow> step_env \<Rightarrow> request_vote_request \<Rightarrow> 's raft_node \<Rightarrow> request_vote_response result \<times> 's raft_node" where
  "serve_vote ops env req n =
     (let (resp, n1) = handle_request_vote_at env req n
      in case persist_hard_state_if_dirty ops n1 of
           (Inl e, n2) \<Rightarrow> (Inl e, n2)
         | (Inr _, n2) \<Rightarrow> (Inr resp, n2))"

definition local_event :: "node_event \<Rightarrow> bool" where
  "local_event ev = (case ev of RecvVote _ \<Rightarrow> False | RecvVoteResp _ _ \<Rightarrow> False | TakeReady \<Rightarrow> False
     | PersistHardState \<Rightarrow> False | _ \<Rightarrow> static_voters ev)"

lemma local_eventD:
  assumes "local_event ev"
  shows "static_voters ev" and "\<forall>p resp. ev \<noteq> RecvVoteResp p resp" and "ev \<noteq> PersistHardState"
    and "ev = TakeReady \<Longrightarrow> P"
  using assms by (cases ev; simp add: local_event_def static_voters_def)+

abbreviation set_node :: "node_id \<Rightarrow> 's raft_node \<Rightarrow> 's cluster \<Rightarrow> 's cluster" where
  "set_node i n c \<equiv> c\<lparr>cl_node := (cl_node c)(i := n)\<rparr>"

inductive cluster_step :: "'s storage_ops \<Rightarrow> node_id set \<Rightarrow> 's cluster \<Rightarrow> 's cluster \<Rightarrow> bool" for ops V where
  Local: "i \<in> V \<Longrightarrow> local_event ev \<Longrightarrow>
    cluster_step ops V c (set_node i (exec ops env ev (cl_node c i)) c)"
| Persist: "i \<in> V \<Longrightarrow> cluster_step ops V c (set_node i (snd (persist_hard_state_if_dirty ops (cl_node c i))) c)"
| TickFailed: "i \<in> V \<Longrightarrow> group_tick ops env (cl_node c i) = (Inl e, n) \<Longrightarrow>
    cluster_step ops V c (set_node i n c)"
| TickSent: "i \<in> V \<Longrightarrow> group_tick ops env (cl_node c i) = (Inr r, n) \<Longrightarrow>
    cluster_step ops V c ((set_node i n c)\<lparr>cl_net := cl_net c \<union> (\<lambda>(p, req). VoteRequest p req) ` set (rd_vote_requests r)\<rparr>)"
| VoteFailed: "VoteRequest i req \<in> cl_net c \<Longrightarrow> serve_vote ops env req (cl_node c i) = (Inl e, n) \<Longrightarrow>
    cluster_step ops V c (set_node i n c)"
| VoteServed: "VoteRequest i req \<in> cl_net c \<Longrightarrow> serve_vote ops env req (cl_node c i) = (Inr resp, n) \<Longrightarrow>
    cluster_step ops V c ((set_node i n c)\<lparr>cl_net := insert (VoteReply i (rv_candidate_id req) resp) (cl_net c)\<rparr>)"
| VoteReplied: "VoteReply v i resp \<in> cl_net c \<Longrightarrow>
    cluster_step ops V c (set_node i (handle_request_vote_response ops env v resp (cl_node c i)) c)"
| Restart: "i \<in> V \<Longrightarrow> node_restore ops env (node_new env' (config (cl_node c i)) (rl_storage (rlog (cl_node c i)))) = (Inr u, n) \<Longrightarrow>
    cluster_step ops V c (set_node i n c)"

text \<open>
  Runs in which no voter has reached the greatest term a \<open>u64\<close> holds. At that term the next election
  wraps the term to zero (\<open>election_wraps\<close>), and old votes count again.
\<close>

definition terms_fit :: "node_id set \<Rightarrow> 's cluster \<Rightarrow> bool" where
  "terms_fit V c \<longleftrightarrow> (\<forall>i\<in>V. term_fits (cl_node c i))"

abbreviation cluster_run :: "'s storage_ops \<Rightarrow> node_id set \<Rightarrow> 's cluster \<Rightarrow> 's cluster \<Rightarrow> bool" where
  "cluster_run ops V \<equiv> (\<lambda>c c'. terms_fit V c \<and> cluster_step ops V c c')\<^sup>*\<^sup>*"

text \<open>A fresh group: every voter knows the same voter set, and no disk holds a vote.\<close>

definition cluster_start :: "'s storage_ops \<Rightarrow> node_id set \<Rightarrow> 's cluster \<Rightarrow> bool" where
  "cluster_start ops V c \<longleftrightarrow> finite V \<and> 0 \<notin> V \<and> cl_net c = {} \<and>
     (\<forall>i\<in>V. \<exists>env cfg s. cl_node c i = node_new env cfg s \<and> node_id cfg = i \<and> distinct (peers cfg) \<and>
        set (peers cfg) = V - {i} \<and> so_load_hard_state ops s = Inr hard_state_new)"

section \<open>Votes\<close>

definition granted :: "vote_msg set \<Rightarrow> node_id \<Rightarrow> node_id \<Rightarrow> u64 \<Rightarrow> bool" where
  "granted net v c t \<longleftrightarrow> VoteReply v c \<lparr>rvr_term = t, rvr_vote_granted = True\<rparr> \<in> net"

definition stands :: "vote_msg set \<Rightarrow> node_id \<Rightarrow> u64 \<Rightarrow> bool" where
  "stands net c t \<longleftrightarrow> (\<exists>p req. VoteRequest p req \<in> net \<and> rv_candidate_id req = c \<and> rv_term req = t)"

text \<open>The votes the network knows of: the granted ones, and a candidate's own.\<close>

definition cast :: "vote_msg set \<Rightarrow> node_id \<Rightarrow> u64 \<Rightarrow> node_id \<Rightarrow> bool" where
  "cast net v t c \<longleftrightarrow> granted net v c t \<or> (v = c \<and> stands net c t)"

text \<open>A hard state that rules out any other vote in the term.\<close>

definition covers :: "hard_state \<Rightarrow> u64 \<Rightarrow> node_id \<Rightarrow> bool" where
  "covers h t c \<longleftrightarrow> t < current_term h \<or> (t = current_term h \<and> voted_for h = c)"

lemma covers_mono: "covers h t c \<Longrightarrow> hard_le h h' \<Longrightarrow> c \<noteq> 0 \<Longrightarrow> covers h' t c"
  by (auto simp: covers_def hard_le_def)

definition one_vote :: "vote_msg set \<Rightarrow> bool" where
  "one_vote net \<longleftrightarrow> (\<forall>v t c d. cast net v t c \<longrightarrow> cast net v t d \<longrightarrow> c = d)"

definition requests_ok :: "node_id set \<Rightarrow> vote_msg set \<Rightarrow> bool" where
  "requests_ok V net \<longleftrightarrow> (\<forall>p req. VoteRequest p req \<in> net \<longrightarrow>
     p \<in> V \<and> p \<noteq> rv_candidate_id req \<and> rv_candidate_id req \<in> V)"

definition replies_ok :: "node_id set \<Rightarrow> vote_msg set \<Rightarrow> bool" where
  "replies_ok V net \<longleftrightarrow> (\<forall>v c resp. VoteReply v c resp \<in> net \<longrightarrow> v \<in> V \<and> c \<in> V \<and> v \<noteq> c \<and>
     (rvr_vote_granted resp \<longrightarrow> stands net c (rvr_term resp)))"

definition net_ok :: "node_id set \<Rightarrow> vote_msg set \<Rightarrow> bool" where
  "net_ok V net \<longleftrightarrow> one_vote net \<and> requests_ok V net \<and> replies_ok V net"

abbreviation disk :: "'s storage_ops \<Rightarrow> 's raft_node \<Rightarrow> hard_state result" where
  "disk ops n \<equiv> so_load_hard_state ops (rl_storage (rlog n))"

text \<open>What holds of node \<open>i\<close> of voter set \<open>V\<close>.\<close>

definition voters_ok :: "node_id set \<Rightarrow> node_id \<Rightarrow> 's raft_node \<Rightarrow> bool" where
  "voters_ok V i n \<longleftrightarrow> node_id (config n) = i \<and> distinct (peers (config n)) \<and> set (peers (config n)) = V - {i}"

definition disk_ok :: "'s storage_ops \<Rightarrow> vote_msg set \<Rightarrow> node_id \<Rightarrow> 's raft_node \<Rightarrow> bool" where
  "disk_ok ops net i n \<longleftrightarrow> (\<exists>h. disk ops n = Inr h \<and> hard_le h (hard n) \<and> (unsaved n = None \<longrightarrow> h = hard n) \<and>
     (\<forall>t c. cast net i t c \<longrightarrow> covers h t c))"

definition asked_ok :: "node_id set \<Rightarrow> vote_msg set \<Rightarrow> node_id \<Rightarrow> 's raft_node \<Rightarrow> bool" where
  "asked_ok V net i n \<longleftrightarrow> (\<forall>(p, t, c)\<in>asked n. p \<in> V \<and> p \<noteq> i \<and> c = i \<and> covers (hard n) t i \<and>
     (\<forall>d. cast net i t d \<longrightarrow> d = i))"

definition candidate_ok :: "node_id set \<Rightarrow> vote_msg set \<Rightarrow> node_id \<Rightarrow> 's raft_node \<Rightarrow> bool" where
  "candidate_ok V net i n \<longleftrightarrow> (role n = Candidate \<longrightarrow>
     (\<forall>v\<in>votes_received n. v \<in> V \<and> v \<noteq> i \<and> granted net v i (term_of n)))"

definition leader_ok :: "node_id set \<Rightarrow> vote_msg set \<Rightarrow> node_id \<Rightarrow> 's raft_node \<Rightarrow> bool" where
  "leader_ok V net i n \<longleftrightarrow> (role n = Leader \<longrightarrow> V = {i} \<or>
     (\<exists>Q. majority V Q \<and> (\<forall>v\<in>Q. v = i \<or> granted net v i (term_of n))))"

definition node_ok :: "'s storage_ops \<Rightarrow> node_id set \<Rightarrow> vote_msg set \<Rightarrow> node_id \<Rightarrow> 's raft_node \<Rightarrow> bool" where
  "node_ok ops V net i n \<longleftrightarrow> voters_ok V i n \<and> disk_ok ops net i n \<and> asked_ok V net i n \<and>
     candidate_ok V net i n \<and> leader_ok V net i n"

definition cluster_inv :: "'s storage_ops \<Rightarrow> node_id set \<Rightarrow> 's cluster \<Rightarrow> bool" where
  "cluster_inv ops V c \<longleftrightarrow> finite V \<and> 0 \<notin> V \<and> net_ok V (cl_net c) \<and>
     (\<forall>i\<in>V. node_ok ops V (cl_net c) i (cl_node c i))"

section \<open>One leader per term\<close>

lemma granted_replies:
  assumes "replies_ok V net" and "granted net v c t"
  shows "v \<in> V" and "c \<in> V" and "v \<noteq> c" and "stands net c t"
proof -
  let ?r = "\<lparr>rvr_term = t, rvr_vote_granted = True\<rparr>"
  have "v \<in> V \<and> c \<in> V \<and> v \<noteq> c \<and> (rvr_vote_granted ?r \<longrightarrow> stands net c (rvr_term ?r))"
    using assms unfolding replies_ok_def granted_def by (elim allE impE)
  then show "v \<in> V" and "c \<in> V" and "v \<noteq> c" and "stands net c t" by simp_all
qed

lemma leader_votes:
  assumes "net_ok V net" and "leader_ok V net i n" and "role n = Leader" and "finite V" and "i \<in> V" and "V \<noteq> {i}"
  shows "\<exists>Q. majority V Q \<and> (\<forall>v\<in>Q. cast net v (term_of n) i)"
proof -
  obtain Q where q: "majority V Q" and g: "\<forall>v\<in>Q. v = i \<or> granted net v i (term_of n)"
    using assms(2,3,6) unfolding leader_ok_def by blast
  have "card V div 2 + 1 \<le> card Q" using q by (simp add: majority_def)
  moreover have "1 \<le> card V div 2" using div_le_mono [OF card_ge_2 [OF assms(4-6)], of 2] by simp
  ultimately have "\<exists>v\<in>Q. v \<noteq> i" by (intro card_ge_2_other) linarith
  then obtain v where "v \<in> Q" "v \<noteq> i" by (elim bexE)
  then have "granted net v i (term_of n)" using g by blast
  then have "stands net i (term_of n)" 
    using assms(1) granted_replies(4) [of V net v i] by (simp add: net_ok_def)
  then have "\<forall>v\<in>Q. cast net v (term_of n) i" using g by (auto simp: cast_def)
  then show ?thesis using q by (intro exI conjI)
qed

lemma one_leader:
  assumes "cluster_inv ops V c" and "i \<in> V" and "j \<in> V" and "role (cl_node c i) = Leader"
    and "role (cl_node c j) = Leader" and "term_of (cl_node c i) = term_of (cl_node c j)"
  shows "i = j"
proof (rule ccontr)
  assume "i \<noteq> j"
  then have v: "V \<noteq> {i}" "V \<noteq> {j}" using assms(2,3) by auto
  have n: "net_ok V (cl_net c)" and f: "finite V" and
    k: "leader_ok V (cl_net c) i (cl_node c i)" "leader_ok V (cl_net c) j (cl_node c j)"
    using assms(1-3) by (simp_all add: cluster_inv_def node_ok_def)
  obtain Q where Q: "majority V Q" "\<forall>v\<in>Q. cast (cl_net c) v (term_of (cl_node c i)) i"
    using leader_votes [OF n k(1) assms(4) f assms(2) v(1)] by (elim exE conjE)
  obtain R where R: "majority V R" "\<forall>v\<in>R. cast (cl_net c) v (term_of (cl_node c i)) j"
    using leader_votes [OF n k(2) assms(5) f assms(3) v(2)] assms(6) by (elim exE conjE) simp
  obtain w where "w \<in> Q" "w \<in> R" using majorities.quorum_meet [OF f Q(1) R(1)] by (elim exE conjE)
  then have "cast (cl_net c) w (term_of (cl_node c i)) i" "cast (cl_net c) w (term_of (cl_node c i)) j"
    using Q(2) R(2) by simp_all
  then show False using n \<open>i \<noteq> j\<close> by (auto simp: net_ok_def one_vote_def)
qed

section \<open>Steps of a node\<close>

context log_storage
begin

lemma disk_log_append [simp]: "so_load_hard_state ops (rl_storage (snd (log_append ops l e))) = so_load_hard_state ops (rl_storage l)"
  using loads_log_append by (metis prod.collapse)

lemma disk_become_leader [simp]: "disk ops (become_leader ops env n) = disk ops n"
  by (simp add: become_leader_def Let_def) (simp add: take_lead_def arm_quorum_window_def Let_def)

lemma disk_start_election [simp]: "disk ops (start_election ops env n) = disk ops n"
  by (simp add: start_election_def Let_def)

lemma disk_start_pre_election [simp]: "disk ops (start_pre_election ops env n) = disk ops n"
  by (simp add: start_pre_election_def Let_def)

lemma disk_save_durable [simp]: "disk ops (snd (save_durable_applied_index ops i n)) = disk ops n"
  by (auto simp: save_durable_applied_index_def dest: save_applied_keeps split: sum.split prod.split)

lemma disk_adopt_snapshot [simp]: "disk ops (snd (adopt_snapshot_boundary ops i t n)) = disk ops n"
  by (auto simp: adopt_snapshot_boundary_def Let_def dest: loads_apply_snapshot split: sum.split prod.split)

lemma disk_compact_log [simp]: "disk ops (snd (compact_log_up_to ops i n)) = disk ops n"
  by (auto simp: compact_log_up_to_def Let_def dest: loads_apply_snapshot split: option.split sum.split prod.split)

lemma disk_propose [simp]: "disk ops (snd (propose ops env d n)) = disk ops n"
  by (auto simp: propose_def Let_def dest: loads_log_append split: sum.split prod.split)

lemma disk_handle_append_entries [simp]: "disk ops (snd (handle_append_entries ops env req n)) = disk ops n"
  by (auto simp: handle_append_entries_def Let_def dest: loads_append_entries split: sum.split prod.split)

lemma disk_tick [simp]: "disk ops (tick ops env n) = disk ops n"
  by (simp add: tick_def Let_def split: node_role.split option.split)

lemma disk_handle_request_vote [simp]: "disk ops (snd (handle_request_vote_at env req n)) = disk ops n"
  by (simp add: handle_request_vote_at_def Let_def)

lemma disk_exec:
  assumes "local_event ev"
  shows "disk ops (exec ops env ev n) = disk ops n"
proof (cases ev)
  case (SetReplicaState st)
  then show ?thesis
    by (simp add: set_replica_state_def stand_down_for_snapshot_def Let_def split: node_role.split option.split)
next
  case (RecvSnapshot req)
  then show ?thesis by (simp add: handle_install_snapshot_def snd_case_result Let_def)
qed (use assms in \<open>auto simp: local_event_def static_voters_def handle_append_entries_response_def
      handle_pre_vote_at_def handle_pre_vote_response_def record_snapshot_installed_def handle_timeout_now_def
      notify_removed_peer_def add_learner_def remove_learner_def promote_self_to_voter_def
      transfer_leadership_def start_read_index_def on_storage_progress_def advance_applied_def
      requeue_committed_def maybe_compact_log_def set_compaction_ceiling_def Let_def split: option.split\<close>)

lemma disk_ok_elect:
  "disk_ok ops net i n \<Longrightarrow> elect_step n m \<Longrightarrow> disk ops m = disk ops n \<Longrightarrow> disk_ok ops net i m"
  by (auto simp: disk_ok_def elect_step_def intro: hard_le_trans)

lemma asked_ok_elect:
  assumes "voters_ok V i n" and "disk_ok ops net i n" and "asked_ok V net i n" and "elect_step n m" and "i \<noteq> 0"
  shows "asked_ok V net i m"
proof -
{
  fix p t c
  assume a: "(p, t, c) \<in> asked m"
  have hl: "hard_le (hard n) (hard m)" using assms(4) by (simp add: elect_step_def)
  have cf: "node_id (config m) = i" using assms(1,4) by (simp add: elect_step_def voters_ok_def)
  have "p \<in> V \<and> p \<noteq> i \<and> c = i \<and> covers (hard m) t i \<and> (\<forall>d. cast net i t d \<longrightarrow> d = i)"
  proof (cases "(p, t, c) \<in> asked n")
    case True
    then show ?thesis using assms(3) covers_mono [OF _ hl assms(5)] by (auto simp: asked_ok_def)
  next
    case False
    then have x: "p \<in> set (peers (config n))" "t = term_of m" "c = i" "term_of n < term_of m" "vote_of m = i"
      using assms(4) a cf by (auto simp: elect_step_def)
    obtain h where "hard_le h (hard n)" and hc: "\<forall>t c. cast net i t c \<longrightarrow> covers h t c"
      using assms(2) by (auto simp: disk_ok_def)
    then have "\<not> covers h t d" for d using x by (auto simp: covers_def hard_le_def)
    then have "\<not> cast net i t d" for d using hc by blast
    then show ?thesis using x assms(1) by (auto simp: covers_def voters_ok_def)
  qed
}
  then show ?thesis by (auto simp: asked_ok_def)
qed

lemma node_ok_elect:
  assumes "node_ok ops V net i n" and "elect_step n m" and "disk ops m = disk ops n" and "i \<in> V" and "0 \<notin> V"
  shows "node_ok ops V net i m"
proof -
  have v: "voters_ok V i n" and d: "disk_ok ops net i n" and a: "asked_ok V net i n"
    and c: "candidate_ok V net i n" and l: "leader_ok V net i n" using assms(1) by (simp_all add: node_ok_def)
  have "i \<noteq> 0" using assms(4,5) by metis
  moreover have "voters_ok V i m" using v assms(2) by (simp add: voters_ok_def elect_step_def)
  moreover have "candidate_ok V net i m" using c assms(2) by (auto simp: candidate_ok_def elect_step_def)
  moreover have "leader_ok V net i m"
  proof (cases "peers (config n) = []")
    case True
    then have "V = {i}" using v assms(4) by (auto simp: voters_ok_def)
    then show ?thesis by (simp add: leader_ok_def)
  next
    case False
    then show ?thesis using l assms(2) by (simp add: leader_ok_def elect_step_def)
  qed
  ultimately show ?thesis
    using disk_ok_elect [OF d assms(2,3)] asked_ok_elect [OF v d a assms(2)] by (simp add: node_ok_def)
qed

lemma cast_voter: "net_ok V net \<Longrightarrow> cast net v t c \<Longrightarrow> c \<in> V"
  using granted_replies(2) [of V net v c t] by (auto simp: cast_def stands_def net_ok_def requests_ok_def)

lemma persist_cases:
  assumes "persist_hard_state_if_dirty ops n = (r, m)" and "disk_ok ops net i n" and "net_ok V net" and "0 \<notin> V"
  shows "disk_ok ops net i m" and "r = Inr () \<Longrightarrow> disk ops m = Inr (hard m) \<and> unsaved m = None"
    and "config m = config n \<and> role m = role n \<and> hard m = hard n \<and> votes_received m = votes_received n \<and> vreqs m = vreqs n"
proof -
  obtain h where h: "disk ops n = Inr h" "hard_le h (hard n)" "unsaved n = None \<longrightarrow> h = hard n"
    and hc: "\<forall>t c. cast net i t c \<longrightarrow> covers h t c" using assms(2) by (auto simp: disk_ok_def)
  have "covers (hard n) t c" if "cast net i t c" for t c
    using hc that covers_mono [OF _ h(2)] cast_voter [OF assms(3) that] assms(4) by metis
  then show "disk_ok ops net i m" using assms(1) h hc
    by (auto simp: persist_hard_state_if_dirty_def disk_ok_def dest: save_hard_state save_hard_state_failed
        split: if_splits sum.splits prod.splits)
  show "r = Inr () \<Longrightarrow> disk ops m = Inr (hard m) \<and> unsaved m = None" using assms(1) h
    by (auto simp: persist_hard_state_if_dirty_def dest: save_hard_state split: if_splits sum.splits prod.splits)
  show "config m = config n \<and> role m = role n \<and> hard m = hard n \<and> votes_received m = votes_received n \<and> vreqs m = vreqs n"
    using assms(1) by (auto simp: persist_hard_state_if_dirty_def split: if_splits sum.splits prod.splits)
qed

lemma node_ok_persist:
  assumes "persist_hard_state_if_dirty ops n = (r, m)" and "node_ok ops V net i n" and "net_ok V net" and "0 \<notin> V"
  shows "node_ok ops V net i m"
  using persist_cases [OF assms(1) _ assms(3,4), of i] assms(2)
  by (simp add: node_ok_def voters_ok_def asked_ok_def asked_def candidate_ok_def leader_ok_def)

lemma node_ok_net:
  assumes "node_ok ops V net j n" and "net \<subseteq> net'" and "\<And>t c. cast net' j t c \<Longrightarrow> cast net j t c"
  shows "node_ok ops V net' j n"
proof -
  have g: "granted net v j t \<Longrightarrow> granted net' v j t" for v t using assms(2) by (auto simp: granted_def)
  have "disk_ok ops net' j n" "asked_ok V net' j n"
    using assms(1,3) by (auto simp: node_ok_def disk_ok_def asked_ok_def)
  moreover have "candidate_ok V net' j n" "leader_ok V net' j n"
    using assms(1) g unfolding node_ok_def candidate_ok_def leader_ok_def by blast+
  ultimately show ?thesis using assms(1) by (simp add: node_ok_def)
qed

section \<open>Steps of the cluster\<close>

lemma cluster_inv_node:
  assumes "cluster_inv ops V c" and "i \<in> V \<Longrightarrow> node_ok ops V (cl_net c) i n"
  shows "cluster_inv ops V (set_node i n c)"
  using assms by (simp add: cluster_inv_def)

lemma cluster_inv_net:
  assumes "cluster_inv ops V c" and "node_ok ops V net i n" and "net_ok V net" and "cl_net c \<subseteq> net"
    and "\<And>v t d. cast net v t d \<Longrightarrow> v \<noteq> i \<Longrightarrow> cast (cl_net c) v t d"
  shows "cluster_inv ops V ((set_node i n c)\<lparr>cl_net := net\<rparr>)"
proof -
  have "node_ok ops V net j (cl_node c j)" if "j \<in> V" "j \<noteq> i" for j
    using assms(1) that by (intro node_ok_net [OF _ assms(4)] assms(5)) (simp_all add: cluster_inv_def)
  then show ?thesis using assms(1-3) by (simp add: cluster_inv_def)
qed

text \<open>The vote requests of a node whose hard state is on disk enter the network.\<close>

lemma asked_iff: "(p, t, c) \<in> asked n \<longleftrightarrow> (\<exists>r. (p, r) \<in> set (vreqs n) \<and> rv_term r = t \<and> rv_candidate_id r = c)"
  by (force simp: asked_def)

lemma asked_okD:
  assumes "asked_ok V net i n" and "(p, r) \<in> set (vreqs n)"
  shows "p \<in> V" and "p \<noteq> rv_candidate_id r" and "rv_candidate_id r = i"
proof -
  have "(p, rv_term r, rv_candidate_id r) \<in> asked n" using assms(2) asked_iff by blast
  with assms(1) have "p \<in> V \<and> p \<noteq> i \<and> rv_candidate_id r = i" unfolding asked_ok_def by (auto dest: bspec)
  then show "p \<in> V" and "p \<noteq> rv_candidate_id r" and "rv_candidate_id r = i" by simp_all
qed

lemma cast_requests:
  assumes "asked_ok V net i n" and "net' = net \<union> (\<lambda>(p, req). VoteRequest p req) ` set (vreqs n)"
  shows "cast net' v t c \<longleftrightarrow> cast net v t c \<or> (v = i \<and> c = i \<and> (\<exists>p. (p, t, i) \<in> asked n))"
proof -
  have g: "granted net' v c t = granted net v c t" using assms(2) by (auto simp: granted_def)
  note c = asked_okD(3) [OF assms(1)]
  have "stands net' c t \<longleftrightarrow> stands net c t \<or> (\<exists>p r. (p, r) \<in> set (vreqs n) \<and> rv_candidate_id r = c \<and> rv_term r = t)"
    unfolding assms(2) stands_def by auto
  also have "\<dots> \<longleftrightarrow> stands net c t \<or> (c = i \<and> (\<exists>p. (p, t, i) \<in> asked n))"
    using c by (auto simp: asked_iff)
  finally show ?thesis using g by (auto simp: cast_def)
qed

lemma requests_sent:
  assumes ok: "node_ok ops V net i n" and net: "net_ok V net" and dk: "disk ops n = Inr (hard n)" and i: "i \<in> V"
    and n': "net' = net \<union> (\<lambda>(p, req). VoteRequest p req) ` set (vreqs n)"
  shows "net_ok V net'" and "node_ok ops V net' i (n\<lparr>pending_ready := ready_default\<rparr>)"
proof -
  have a: "asked_ok V net i n" using ok by (simp add: node_ok_def)
  note cs = cast_requests [OF a n']
  have "one_vote net'" using net a by (auto simp: cs net_ok_def one_vote_def asked_ok_def)
  moreover have "p \<in> V \<and> p \<noteq> rv_candidate_id r \<and> rv_candidate_id r \<in> V" if "(p, r) \<in> set (vreqs n)" for p r
    using asked_okD [OF a that] i by simp
  then have "requests_ok V net'" using net by (auto simp: n' net_ok_def requests_ok_def)
  moreover have "stands net c t \<Longrightarrow> stands net' c t" for c t by (auto simp: n' stands_def)
  then have "replies_ok V net'" using net by (auto simp: n' net_ok_def replies_ok_def)
  ultimately show "net_ok V net'" by (simp add: net_ok_def)
  have "disk_ok ops net' i (n\<lparr>pending_ready := ready_default\<rparr>)"
    using ok dk a by (auto simp: disk_ok_def node_ok_def cs asked_ok_def)
  moreover have g: "granted net' v c t = granted net v c t" for v c t by (auto simp: n' granted_def)
  ultimately show "node_ok ops V net' i (n\<lparr>pending_ready := ready_default\<rparr>)" using ok
    by (simp add: node_ok_def voters_ok_def asked_ok_def asked_def candidate_ok_def leader_ok_def ready_default_def)
qed

lemma group_tick_steps:
  assumes "node_ok ops V net i n" and "net_ok V net" and "0 \<notin> V" and "i \<in> V"
    and "group_tick ops env n = (r, m)" and "term_fits n"
  obtains (failed) e where "r = Inl e" and "node_ok ops V net i m"
  | (sent) k where "r = Inr (pending_ready k)" and "node_ok ops V net i k" and "disk ops k = Inr (hard k)"
      and "m = k\<lparr>pending_ready := ready_default\<rparr>"
proof -
  have "disk ops (on_storage_progress ops n) = disk ops n" by (simp add: on_storage_progress_def)
  then have p: "node_ok ops V net i (on_storage_progress ops n)"
    by (rule node_ok_elect [OF assms(1) elect_quiet(8) _ assms(4,3)])
  have t: "node_ok ops V net i (tick ops env (on_storage_progress ops n))"
    by (rule node_ok_elect [OF p elect_tick disk_tick assms(4,3)])
      (use assms(6) in \<open>simp add: term_fits_def on_storage_progress_def\<close>)
  obtain q k where p: "persist_hard_state_if_dirty ops (tick ops env (on_storage_progress ops n)) = (q, k)"
    by fastforce
  have k: "node_ok ops V net i k" by (rule node_ok_persist [OF p t assms(2,3)])
  have "disk ops k = Inr (hard k)" if "q = Inr ()"
    using persist_cases(2) [OF p _ assms(2,3), of i] t that by (simp add: node_ok_def)
  then show thesis using assms(5) p k failed sent
    by (cases q) (auto simp: group_tick_def take_ready_def)
qed

lemma served_vote:
  assumes "handle_request_vote_at env req n = (resp, m)" and "rvr_vote_granted resp"
  shows "rvr_term resp = rv_term req" and "term_of m = rv_term req" and "vote_of m = rv_candidate_id req"
  using assms by (auto simp: handle_request_vote_at_def Let_def split: if_splits)

lemma serve_vote_steps:
  assumes "node_ok ops V net i n" and "net_ok V net" and "0 \<notin> V" and "i \<in> V" and "serve_vote ops env req n = (r, m)"
  shows "node_ok ops V net i m"
    and "r = Inr resp \<Longrightarrow> disk ops m = Inr (hard m)"
    and "r = Inr resp \<Longrightarrow> rvr_vote_granted resp \<Longrightarrow>
      rvr_term resp = rv_term req \<and> term_of m = rv_term req \<and> vote_of m = rv_candidate_id req"
proof -
  obtain rs k where h: "handle_request_vote_at env req n = (rs, k)" by fastforce
  have k: "node_ok ops V net i k"
    using node_ok_elect [OF assms(1) elect_handle_request_vote [of n env req]] assms(3,4)
      disk_handle_request_vote [of env req n] h by simp
  obtain q l where p: "persist_hard_state_if_dirty ops k = (q, l)" by fastforce
  have l: "m = l \<and> (r = Inr resp \<longrightarrow> q = Inr () \<and> rs = resp)"
    using assms(5) h p by (auto simp: serve_vote_def split: sum.splits)
  note pc = persist_cases [OF p _ assms(2,3), of i]
  show "node_ok ops V net i m" using node_ok_persist [OF p k assms(2,3)] l by simp
  show "r = Inr resp \<Longrightarrow> disk ops m = Inr (hard m)" using pc(2) k l by (simp add: node_ok_def)
  show "r = Inr resp \<Longrightarrow> rvr_vote_granted resp \<Longrightarrow>
      rvr_term resp = rv_term req \<and> term_of m = rv_term req \<and> vote_of m = rv_candidate_id req"
    using served_vote [OF h] pc(3) k l by (simp add: node_ok_def)
qed

text \<open>A served vote enters the network: it agrees with every vote this voter has cast in the term.\<close>

lemma cast_reply:
  "cast (insert (VoteReply i c resp) net) v t d \<longleftrightarrow>
     cast net v t d \<or> (v = i \<and> d = c \<and> resp = \<lparr>rvr_term = t, rvr_vote_granted = True\<rparr>)"
  by (auto simp: cast_def granted_def stands_def)

lemma vote_sent:
  assumes ok: "node_ok ops V net i n" and net: "net_ok V net" and v0: "0 \<notin> V" and dk: "disk ops n = Inr (hard n)"
    and req: "VoteRequest i req \<in> net" and n': "net' = insert (VoteReply i (rv_candidate_id req) resp) net"
    and g: "rvr_vote_granted resp \<Longrightarrow>
      rvr_term resp = rv_term req \<and> term_of n = rv_term req \<and> vote_of n = rv_candidate_id req"
  shows "net_ok V net'" and "node_ok ops V net' i n"
proof -
  let ?c = "rv_candidate_id req"
  have ic: "i \<in> V" "?c \<in> V" "i \<noteq> ?c" using net req by (auto simp: net_ok_def requests_ok_def)
  have d: "disk_ok ops net i n" and a: "asked_ok V net i n" using ok by (simp_all add: node_ok_def)
  have st: "stands net ?c t" if "t = rv_term req" for t using req that by (auto simp: stands_def)
  have st': "stands net' c t = stands net c t" for c t by (auto simp: n' stands_def)
  have same: "d = ?c" if "resp = \<lparr>rvr_term = t, rvr_vote_granted = True\<rparr>" "cast net i t d" for t d
  proof -
    have "covers (hard n) t d" using d dk that(2) by (auto simp: disk_ok_def)
    then show ?thesis using g that(1) by (auto simp: covers_def)
  qed
  have "one_vote net'" using net same by (auto simp: n' cast_reply net_ok_def one_vote_def)
  moreover have "requests_ok V net'" using net by (auto simp: n' net_ok_def requests_ok_def)
  moreover have "replies_ok V net'" using net ic g st st' by (auto simp: n' net_ok_def replies_ok_def)
  ultimately show "net_ok V net'" by (simp add: net_ok_def)
  have "disk_ok ops net' i n" using d dk g by (auto simp: disk_ok_def n' cast_reply covers_def)
  moreover have "asked_ok V net' i n" using a g by (fastforce simp: asked_ok_def n' cast_reply covers_def)
  moreover have gr: "granted net v i t \<Longrightarrow> granted net' v i t" for v t by (simp add: n' granted_def)
  have "candidate_ok V net' i n" "leader_ok V net' i n"
    using ok gr unfolding node_ok_def candidate_ok_def leader_ok_def by blast+
  ultimately show "node_ok ops V net' i n" using ok by (simp add: node_ok_def)
qed

text \<open>A counted vote: the votes received stay granted, and a quorum of them is a majority.\<close>

lemma node_ok_vote_reply:
  assumes ok: "node_ok ops V net i n" and net: "net_ok V net" and f: "finite V" and v0: "0 \<notin> V" and i: "i \<in> V"
    and rep: "VoteReply v i resp \<in> net"
  shows "node_ok ops V net i (handle_request_vote_response ops env v resp n)"
proof (cases "rvr_term resp = term_of n \<and> role n = Candidate \<and> rvr_vote_granted resp")
  case False
  then have "handle_request_vote_response ops env v resp n = n \<or>
      (term_of n < rvr_term resp \<and> handle_request_vote_response ops env v resp n = become_follower env (rvr_term resp) n)"
    by (auto simp: handle_request_vote_response_def)
  then show ?thesis using ok node_ok_elect [OF ok elect_become_follower _ i v0] by auto
next
  case True
  let ?n = "n\<lparr>votes_received := insert v (votes_received n)\<rparr>"
  have "resp = \<lparr>rvr_term = term_of n, rvr_vote_granted = True\<rparr>" using True by (cases resp) auto
  then have gv: "granted net v i (term_of n)" using rep by (simp add: granted_def)
  then have vv: "v \<in> V" "v \<noteq> i" using granted_replies(1,3) [of V net v i] net by (simp_all add: net_ok_def)
  have cv: "\<forall>w\<in>insert v (votes_received n). w \<in> V \<and> w \<noteq> i \<and> granted net w i (term_of n)"
    using ok True gv vv by (auto simp: node_ok_def candidate_ok_def)
  have n: "node_ok ops V net i ?n" using ok cv True
    by (simp add: node_ok_def voters_ok_def disk_ok_def asked_ok_def asked_def candidate_ok_def leader_ok_def)
  have "node_ok ops V net i (become_leader ops env ?n)" if q: "quorum (config n) \<le> card (votes_received ?n) + 1"
  proof -
    let ?Q = "insert i (votes_received ?n)"
    have sub: "?Q \<subseteq> V" using cv i by auto
    have "finite (votes_received ?n)" by (rule finite_subset [OF _ f]) (use sub in simp)
    then have "card ?Q = card (votes_received ?n) + 1" using cv by (subst card_insert_disjoint) auto
    moreover have "length (peers (config n)) = card (V - {i})"
      using ok distinct_card [of "peers (config n)"] by (simp add: node_ok_def voters_ok_def)
    then have "length (peers (config n)) + 1 = card V" using card_Suc_Diff1 [OF f i] by simp
    ultimately have "majority V ?Q" using q sub by (simp add: majority_def quorum_def cluster_size_def)
    then have "leader_ok V net i (become_leader ops env ?n)" using cv unfolding leader_ok_def by auto
    then show ?thesis using n
      by (simp add: node_ok_def voters_ok_def disk_ok_def asked_ok_def asked_def candidate_ok_def)
  qed
  then show ?thesis using True n by (simp add: handle_request_vote_response_def Let_def)
qed

lemma node_ok_restart:
  assumes "node_ok ops V net i n"
    and "node_restore ops env (node_new env' (config n) (rl_storage (rlog n))) = (Inr u, m)"
  shows "node_ok ops V net i m"
proof -
  obtain h where h: "disk ops n = Inr h" and hc: "\<forall>t c. cast net i t c \<longrightarrow> covers h t c"
    using assms(1) by (auto simp: node_ok_def disk_ok_def)
  have "config m = config n" "hard m = h" "role m \<noteq> Candidate" "role m \<noteq> Leader" "pending_ready m = ready_default"
    "rl_storage (rlog m) = rl_storage (rlog n)"
    using assms(2) h by (auto simp: node_restore_def node_new_def raft_log_new_def raft_log_restore_def Let_def
        split: sum.splits prod.splits if_splits)
  then show ?thesis using assms(1) h hc
    by (simp add: node_ok_def voters_ok_def disk_ok_def asked_ok_def asked_def candidate_ok_def leader_ok_def ready_default_def)
qed

lemma cluster_inv_persist:
  assumes "cluster_inv ops V c" and "i \<in> V"
  shows "cluster_inv ops V (set_node i (snd (persist_hard_state_if_dirty ops (cl_node c i))) c)"
proof -
  have "node_ok ops V (cl_net c) i (snd (persist_hard_state_if_dirty ops (cl_node c i)))"
    using assms by (intro node_ok_persist [OF prod.collapse [symmetric]]) (simp_all add: cluster_inv_def)
  then show ?thesis by (rule cluster_inv_node [OF assms(1)])
qed

lemma cluster_inv_step:
  "cluster_step ops V c c' \<Longrightarrow> terms_fit V c \<Longrightarrow> cluster_inv ops V c \<Longrightarrow> cluster_inv ops V c'"
proof (induction rule: cluster_step.induct)
  case (Local i ev c env)
  then have *: "node_ok ops V (cl_net c) i (cl_node c i)" "0 \<notin> V" "term_fits (cl_node c i)"
    by (simp_all add: cluster_inv_def terms_fit_def)
  note e = elect_exec [OF local_eventD [OF Local.hyps(2)]] and d = disk_exec [OF Local.hyps(2)]
  have "node_ok ops V (cl_net c) i (exec ops env ev (cl_node c i))"
    by (rule node_ok_elect [OF *(1) e d Local.hyps(1) *(2)]) (use *(3) in simp_all)
  then show ?case using Local.prems(2) by (intro cluster_inv_node)
next
  case (Persist i c)
  then show ?case by (intro cluster_inv_persist)
next
  case (TickFailed i env c e n)
  then have "node_ok ops V (cl_net c) i (cl_node c i)" "net_ok V (cl_net c)" "0 \<notin> V" "term_fits (cl_node c i)"
    by (simp_all add: cluster_inv_def terms_fit_def)
  from group_tick_steps [OF this(1-3) TickFailed.hyps this(4)] have "node_ok ops V (cl_net c) i n" by cases auto
  then show ?case using TickFailed.prems(2) by (intro cluster_inv_node)
next
  case (TickSent i env c r n)
  then have *: "node_ok ops V (cl_net c) i (cl_node c i)" "net_ok V (cl_net c)" "0 \<notin> V" "term_fits (cl_node c i)"
    by (simp_all add: cluster_inv_def terms_fit_def)
  from *(1-3) TickSent.hyps *(4) obtain k where k: "r = pending_ready k" "node_ok ops V (cl_net c) i k" "disk ops k = Inr (hard k)"
    "n = k\<lparr>pending_ready := ready_default\<rparr>" by (cases rule: group_tick_steps) auto
  let ?net = "cl_net c \<union> (\<lambda>(p, req). VoteRequest p req) ` set (vreqs k)"
  have a: "asked_ok V (cl_net c) i k" using k(2) by (simp add: node_ok_def)
  have "cluster_inv ops V ((set_node i n c)\<lparr>cl_net := ?net\<rparr>)"
    using TickSent.prems(2) requests_sent [OF k(2) *(2) k(3) TickSent.hyps(1) refl] k(4)
    by (intro cluster_inv_net) (auto simp: cast_requests [OF a refl])
  then show ?case using k(1) by simp
next
  case (VoteFailed i req c env e n)
  then have "i \<in> V" by (auto simp: cluster_inv_def net_ok_def requests_ok_def)
  then have "node_ok ops V (cl_net c) i n"
    using VoteFailed by (intro serve_vote_steps(1) [OF _ _ _ _ VoteFailed.hyps(2)]) (simp_all add: cluster_inv_def)
  then show ?case using VoteFailed.prems(2) by (intro cluster_inv_node)
next
  case (VoteServed i req c env resp n)
  then have i: "i \<in> V" by (auto simp: cluster_inv_def net_ok_def requests_ok_def)
  have *: "node_ok ops V (cl_net c) i (cl_node c i)" "net_ok V (cl_net c)" "0 \<notin> V"
    using VoteServed.prems(2) i by (simp_all add: cluster_inv_def)
  note sv = serve_vote_steps [OF * i VoteServed.hyps(2)]
  note vs = vote_sent [OF sv(1) *(2,3) sv(2) [OF refl] VoteServed.hyps(1) refl sv(3) [OF refl]]
  show ?case using VoteServed.prems(2) vs by (intro cluster_inv_net) (auto simp: cast_reply)
next
  case (VoteReplied v i resp c env)
  then have "i \<in> V" by (auto simp: cluster_inv_def net_ok_def replies_ok_def)
  then show ?case using VoteReplied
    by (intro cluster_inv_node node_ok_vote_reply [of _ _ _ _ v]) (simp_all add: cluster_inv_def)
next
  case (Restart i env env' c u n)
  then have "node_ok ops V (cl_net c) i n"
    by (intro node_ok_restart [OF _ Restart.hyps(2)]) (simp add: cluster_inv_def)
  then show ?case using Restart.prems(2) by (intro cluster_inv_node)
qed

lemma cluster_inv_start: "cluster_start ops V c \<Longrightarrow> cluster_inv ops V c"
proof -
  assume s: "cluster_start ops V c"
  have "node_ok ops V {} i (cl_node c i)" if i: "i \<in> V" for i
  proof -
    obtain env cfg st where "cl_node c i = node_new env cfg st" "node_id cfg = i" "distinct (peers cfg)"
      "set (peers cfg) = V - {i}" "so_load_hard_state ops st = Inr hard_state_new"
      using s i unfolding cluster_start_def by blast
    then show ?thesis
      by (auto simp: node_ok_def voters_ok_def disk_ok_def asked_ok_def asked_def candidate_ok_def leader_ok_def
          node_new_def raft_log_new_def ready_default_def cast_def granted_def stands_def)
  qed
  then show ?thesis using s
    by (auto simp: cluster_inv_def cluster_start_def net_ok_def one_vote_def requests_ok_def replies_ok_def
        cast_def granted_def stands_def)
qed

lemma election_safety_storage:
  assumes "cluster_start ops V c" and "cluster_run ops V c d" and "i \<in> V" and "j \<in> V"
    and "role (cl_node d i) = Leader" and "role (cl_node d j) = Leader"
    and "term_of (cl_node d i) = term_of (cl_node d j)"
  shows "i = j"
proof -
  have "cluster_inv ops V d" using assms(2) cluster_inv_start [OF assms(1)]
    by (induction rule: rtranclp_induct) (auto intro: cluster_inv_step)
  then show ?thesis using one_leader assms(3-7) by blast
qed

end

end
