(* ===== verification/Storage_Faults.thy ===== *)
theory Storage_Faults
  imports Raft_Storage
begin

text \<open>
  A storage that can fail, for the witnesses: \<open>MemStorage\<close> under a plan that says which of the coming
  writes fail, in the manner of the doubles \<open>FlakyStorage\<close> (tests of \<open>nodedb-raft/src/log.rs\<close>) and
  \<open>StagingStorage\<close> (tests of \<open>node/rpc/append_entries.rs\<close>). A write that succeeds makes durable
  what was written before it, so \<open>stable_through\<close> lags behind the log by one write. It meets the
  contract of \<open>LogStorage\<close>.
\<close>

record faulty_storage =
  fs_inner :: mem_storage
  fs_plan :: "bool list"
  fs_stable :: "u64 \<times> u64"

definition faulty_new :: "bool list \<Rightarrow> faulty_storage" where
  "faulty_new plan = \<lparr>fs_inner = mem_storage_new, fs_plan = plan, fs_stable = (0, 0)\<rparr>"

definition faulty_held :: "faulty_storage \<Rightarrow> log_entry list" where
  "faulty_held s = ms_entries (fs_inner s)"

definition last_written :: "mem_storage \<Rightarrow> u64 \<times> u64" where
  "last_written m = (if ms_entries m = [] then mem_snapshot_metadata m
     else (le_index (last (ms_entries m)), le_term (last (ms_entries m))))"

definition faulty_write ::
  "(mem_storage \<Rightarrow> unit result \<times> mem_storage) \<Rightarrow> faulty_storage \<Rightarrow> unit result \<times> faulty_storage" where
  "faulty_write f s =
     (if fs_plan s \<noteq> [] \<and> hd (fs_plan s) then (Inl (Storage ''injected failure''), s\<lparr>fs_plan := tl (fs_plan s)\<rparr>)
      else (fst (f (fs_inner s)), \<lparr>fs_inner = snd (f (fs_inner s)), fs_plan = tl (fs_plan s),
        fs_stable = last_written (fs_inner s)\<rparr>))"

definition faulty_ops :: "faulty_storage storage_ops" where
  "faulty_ops = \<lparr>so_append = (\<lambda>s es. faulty_write (\<lambda>m. mem_append m es) s),
     so_truncate = (\<lambda>s i. faulty_write (\<lambda>m. mem_truncate m i) s),
     so_load_entries_after = (\<lambda>s. mem_load_entries_after (fs_inner s)),
     so_compact = (\<lambda>s i t. faulty_write (\<lambda>m. mem_compact m i t) s),
     so_snapshot_metadata = (\<lambda>s. mem_snapshot_metadata (fs_inner s)),
     so_save_hard_state = (\<lambda>s h. faulty_write (\<lambda>m. mem_save_hard_state m h) s),
     so_load_hard_state = (\<lambda>s. mem_load_hard_state (fs_inner s)),
     so_save_applied_index = (\<lambda>s i. faulty_write (\<lambda>m. mem_save_applied_index m i) s),
     so_load_applied_index = (\<lambda>s. mem_load_applied_index (fs_inner s)),
     so_stable_through = (\<lambda>s. Some (fs_stable s))\<rparr>"

interpretation faulty: log_storage faulty_ops faulty_held
  by unfold_locales
    (auto simp: faulty_ops_def faulty_held_def faulty_write_def mem_defs fold_mem_put_fresh split: if_splits)

end
