(* ===== verification/Raft_Examples.thy ===== *)
theory Raft_Examples
  imports Raft_Apply Raft_Cluster Storage_Faults
begin

text \<open>
  Concrete logs, nodes and runs, over \<open>MemStorage\<close> and over a storage that fails. The witnesses
  of the properties evaluate the model on them.
\<close>

section \<open>Logs\<close>

definition entry :: "nat \<Rightarrow> nat \<Rightarrow> log_entry" where
  "entry t i = \<lparr>le_term = t, le_index = i, le_data = []\<rparr>"

definition sized_entry :: "nat \<Rightarrow> nat \<Rightarrow> nat \<Rightarrow> log_entry" where
  "sized_entry t i k = \<lparr>le_term = t, le_index = i, le_data = replicate k 0\<rparr>"

text \<open>A log whose memory and storage hold \<open>es\<close> above the boundary \<open>(si, st)\<close>.\<close>

definition log_of :: "nat \<Rightarrow> nat \<Rightarrow> log_entry list \<Rightarrow> mem_storage raft_log" where
  "log_of si st es = \<lparr>rl_entries = es, snapshot_index = si, snapshot_term = st,
     rl_storage = mem_storage_new\<lparr>ms_entries := es, ms_snapshot_index := si, ms_snapshot_term := st\<rparr>\<rparr>"

definition ex_log :: "mem_storage raft_log" where
  "ex_log = log_of 2 1 [entry 1 3, entry 1 4, entry 2 5]"

definition ex_batch :: "log_entry list" where
  "ex_batch = [entry 1 4, entry 3 5, entry 3 6]"

definition ex_log' :: "mem_storage raft_log" where
  "ex_log' = snd (append_entries mem_ops ex_log 3 ex_batch)"

lemma pair_eqI: "fst x = a \<Longrightarrow> x = (a, snd x)"
  by (metis prod.collapse)

lemma ex_append:
  "log_wf ex_log" "batch_after 3 ex_batch" "3 \<le> last_index ex_log"
  "append_entries mem_ops ex_log 3 ex_batch = (Inr True, ex_log')"
proof -
  have "fst (append_entries mem_ops ex_log 3 ex_batch) = Inr True" by code_simp
  then show "append_entries mem_ops ex_log 3 ex_batch = (Inr True, ex_log')"
    unfolding ex_log'_def by (rule pair_eqI)
qed code_simp+

section \<open>Nodes\<close>

definition config_of :: "nat \<Rightarrow> nat list \<Rightarrow> raft_config" where
  "config_of i ps = \<lparr>node_id = i, group_id = 7, peers = ps, learners = [], observers = [],
     starts_as_learner = False, starts_as_observer = False, election_timeout_min = 150,
     election_timeout_max = 300, heartbeat_interval = 50, log_compaction_threshold = None\<rparr>"

definition at_time :: "nat \<Rightarrow> step_env" where
  "at_time t = \<lparr>env_now = t, env_timeout = 200\<rparr>"

definition boot :: "nat \<Rightarrow> nat list \<Rightarrow> mem_storage raft_node" where
  "boot i ps = node_new (at_time 0) (config_of i ps) mem_storage_new"

text \<open>A single voter that elected itself: its no-op is committed and queued.\<close>

definition solo_leader :: "mem_storage raft_node" where
  "solo_leader = exec mem_ops (at_time 400) Tick (boot 1 [])"

text \<open>Voter 1 of three: it wins a pre-vote and then the votes of 2 and of itself.\<close>

definition yes_pre :: pre_vote_response where
  "yes_pre = \<lparr>pvr_term = 0, pvr_vote_granted = True\<rparr>"

definition yes_vote :: "nat \<Rightarrow> request_vote_response" where
  "yes_vote t = \<lparr>rvr_term = t, rvr_vote_granted = True\<rparr>"

definition campaign :: "(step_env \<times> node_event) list" where
  "campaign = [(at_time 400, Tick), (at_time 410, RecvPreVoteResp 2 yes_pre), (at_time 420, PersistHardState),
     (at_time 420, TakeReady), (at_time 430, RecvVoteResp 2 (yes_vote 1))]"

definition leader3 :: "mem_storage raft_node" where
  "leader3 = run mem_ops campaign (boot 1 [2, 3])"

definition ack :: "nat \<Rightarrow> nat \<Rightarrow> nat \<Rightarrow> append_entries_response" where
  "ack t i rnd = \<lparr>aer_term = t, aer_success = True, aer_last_log_index = i, aer_round = rnd, aer_replica = Whole\<rparr>"

definition append_msg :: "nat \<Rightarrow> nat \<Rightarrow> nat \<Rightarrow> log_entry list \<Rightarrow> nat \<Rightarrow> append_entries_request" where
  "append_msg t pi pt es lc = \<lparr>ae_term = t, ae_leader_id = 2, ae_prev_log_index = pi, ae_prev_log_term = pt,
     ae_entries = es, ae_leader_commit = lc, ae_group_id = 7, ae_round = 1, ae_replicated_floor = 0\<rparr>"

text \<open>A follower fed by leader 2: three entries, an overwritten tail, a commit, a compaction.\<close>

definition follower_run :: "(step_env \<times> node_event) list" where
  "follower_run = [(at_time 10, RecvAppend (append_msg 1 0 0 [entry 1 1, entry 1 2, entry 1 3] 2)),
     (at_time 20, RecvAppend (append_msg 2 2 1 [entry 2 3, entry 2 4] 3)),
     (at_time 30, PersistHardState), (at_time 30, TakeReady), (at_time 30, AdvanceApplied 2), (at_time 30, SaveApplied 2),
     (at_time 40, CompactLog 1), (at_time 50, RecvAppend (append_msg 2 4 2 [entry 2 5] 4))]"

definition follower3 :: "mem_storage raft_node" where
  "follower3 = run mem_ops follower_run (boot 1 [2, 3])"

lemma leader3_role: "role leader3 = Leader"
  by code_simp

lemma follower3_log: "map le_index (rl_entries (rlog follower3)) = [2, 3, 4, 5] \<and> commit_of follower3 = 4"
  by code_simp

section \<open>A cluster run\<close>

definition tick_sent :: "'s storage_ops \<Rightarrow> step_env \<Rightarrow> node_id \<Rightarrow> 's cluster \<Rightarrow> 's cluster" where
  "tick_sent ops env i c = (let (r, n) = group_tick ops env (cl_node c i) in
     (set_node i n c)\<lparr>cl_net := cl_net c \<union> (\<lambda>(p, req). VoteRequest p req) ` set (rd_vote_requests (projr r))\<rparr>)"

definition vote_served :: "'s storage_ops \<Rightarrow> step_env \<Rightarrow> node_id \<Rightarrow> request_vote_request \<Rightarrow> 's cluster \<Rightarrow> 's cluster" where
  "vote_served ops env i req c = (let (r, n) = serve_vote ops env req (cl_node c i) in
     (set_node i n c)\<lparr>cl_net := insert (VoteReply i (rv_candidate_id req) (projr r)) (cl_net c)\<rparr>)"

lemma step_tick_sent:
  "i \<in> V \<Longrightarrow> \<not> isl (fst (group_tick ops env (cl_node c i))) \<Longrightarrow> cluster_step ops V c (tick_sent ops env i c)"
  by (cases "group_tick ops env (cl_node c i)"; cases "fst (group_tick ops env (cl_node c i))")
    (auto simp: tick_sent_def intro: cluster_step.TickSent)

lemma step_vote_served:
  "VoteRequest i req \<in> cl_net c \<Longrightarrow> \<not> isl (fst (serve_vote ops env req (cl_node c i))) \<Longrightarrow>
   cluster_step ops V c (vote_served ops env i req c)"
  by (cases "serve_vote ops env req (cl_node c i)"; cases "fst (serve_vote ops env req (cl_node c i))")
    (auto simp: vote_served_def intro: cluster_step.VoteServed)

text \<open>
  Voters 1, 2, 3, each on a storage that fails some writes. Voter 1 pre-votes and stands in term 1; its
  first persist fails, so the tick sends nothing; the next tick persists and sends the vote requests.
  Voter 2 fails to write its vote and does not answer; the request comes again, the vote is written and
  the answer leaves; voter 1 leads.
\<close>

definition trio :: "node_id set" where
  "trio = {1, 2, 3}"

definition trio_plan :: "node_id \<Rightarrow> bool list" where
  "trio_plan i = (if i = 1 then [True] else if i = 2 then [True] else [])"

definition trio_on :: "(node_id \<Rightarrow> bool list) \<Rightarrow> faulty_storage cluster" where
  "trio_on plan = \<lparr>cl_node = (\<lambda>i. node_new (at_time 0) (config_of i (filter (\<lambda>p. p \<noteq> i) [1, 2, 3])) (faulty_new (plan i))),
     cl_net = {}\<rparr>"

definition trio0 :: "faulty_storage cluster" where
  "trio0 = trio_on trio_plan"

definition trio1 :: "faulty_storage cluster" where
  "trio1 = tick_sent faulty_ops (at_time 400) 1 trio0"

definition trio2 :: "faulty_storage cluster" where
  "trio2 = set_node 1 (exec faulty_ops (at_time 410) (RecvPreVoteResp 2 yes_pre) (cl_node trio1 1)) trio1"

definition trio3 :: "faulty_storage cluster" where
  "trio3 = set_node 1 (snd (group_tick faulty_ops (at_time 420) (cl_node trio2 1))) trio2"

definition trio4 :: "faulty_storage cluster" where
  "trio4 = tick_sent faulty_ops (at_time 425) 1 trio3"

definition ask2 :: request_vote_request where
  "ask2 = \<lparr>rv_term = 1, rv_candidate_id = 1, rv_last_log_index = 0, rv_last_log_term = 0, rv_group_id = 7,
     rv_transfer = False\<rparr>"

definition trio5 :: "faulty_storage cluster" where
  "trio5 = set_node 2 (snd (serve_vote faulty_ops (at_time 430) ask2 (cl_node trio4 2))) trio4"

definition trio6 :: "faulty_storage cluster" where
  "trio6 = vote_served faulty_ops (at_time 435) 2 ask2 trio5"

definition trio7 :: "faulty_storage cluster" where
  "trio7 = set_node 1 (handle_request_vote_response faulty_ops (at_time 440) 2 (yes_vote 1) (cl_node trio6 1)) trio6"

lemma trio_start: "cluster_start faulty_ops trio (trio_on plan)"
  unfolding cluster_start_def
proof (intro conjI ballI)
  fix i assume "i \<in> trio"
  then show "\<exists>env cfg s. cl_node (trio_on plan) i = node_new env cfg s \<and> node_id cfg = i \<and> distinct (peers cfg) \<and>
      set (peers cfg) = trio - {i} \<and> so_load_hard_state faulty_ops s = Inr hard_state_new"
    by (intro exI [of _ "at_time 0"] exI [of _ "config_of i (filter (\<lambda>p. p \<noteq> i) [1, 2, 3])"]
        exI [of _ "faulty_new (plan i)"])
      (auto simp: trio_def trio_on_def config_of_def faulty_ops_def faulty_new_def mem_storage_new_def
        mem_load_hard_state_def)
qed (auto simp: trio_def trio_on_def)

lemma terms_fit_trio: "list_all (\<lambda>i. term_of (cl_node c i) \<le> 1) [1, 2, 3] \<Longrightarrow> terms_fit trio c"
  by (simp add: terms_fit_def trio_def term_fits_def u64_max_def)

lemma step_tick_failed:
  "i \<in> V \<Longrightarrow> isl (fst (group_tick ops env (cl_node c i))) \<Longrightarrow>
   cluster_step ops V c (set_node i (snd (group_tick ops env (cl_node c i))) c)"
  by (cases "group_tick ops env (cl_node c i)"; cases "fst (group_tick ops env (cl_node c i))")
    (auto intro: cluster_step.TickFailed)

lemma step_vote_failed:
  "VoteRequest i req \<in> cl_net c \<Longrightarrow> isl (fst (serve_vote ops env req (cl_node c i))) \<Longrightarrow>
   cluster_step ops V c (set_node i (snd (serve_vote ops env req (cl_node c i))) c)"
  by (cases "serve_vote ops env req (cl_node c i)"; cases "fst (serve_vote ops env req (cl_node c i))")
    (auto intro: cluster_step.VoteFailed)

lemma trio_steps:
  "cluster_step faulty_ops trio trio0 trio1" "cluster_step faulty_ops trio trio1 trio2"
  "cluster_step faulty_ops trio trio2 trio3" "cluster_step faulty_ops trio trio3 trio4"
  "cluster_step faulty_ops trio trio4 trio5" "cluster_step faulty_ops trio trio5 trio6"
  "cluster_step faulty_ops trio trio6 trio7"
proof -
  show "cluster_step faulty_ops trio trio0 trio1" unfolding trio1_def by (rule step_tick_sent) code_simp+
  show "cluster_step faulty_ops trio trio1 trio2" unfolding trio2_def by (rule cluster_step.Local) code_simp+
  show "cluster_step faulty_ops trio trio2 trio3" unfolding trio3_def by (rule step_tick_failed) code_simp+
  show "cluster_step faulty_ops trio trio3 trio4" unfolding trio4_def by (rule step_tick_sent) code_simp+
  show "cluster_step faulty_ops trio trio4 trio5" unfolding trio5_def by (rule step_vote_failed) code_simp+
  show "cluster_step faulty_ops trio trio5 trio6" unfolding trio6_def by (rule step_vote_served) code_simp+
  show "cluster_step faulty_ops trio trio6 trio7" unfolding trio7_def by (rule cluster_step.VoteReplied) code_simp
qed

lemma trio_terms:
  "terms_fit trio trio0" "terms_fit trio trio1" "terms_fit trio trio2" "terms_fit trio trio3"
  "terms_fit trio trio4" "terms_fit trio trio5" "terms_fit trio trio6"
  by (rule terms_fit_trio; code_simp)+

lemma guarded_step:
  "(\<lambda>c c'. P c \<and> R c c')\<^sup>*\<^sup>* a b \<Longrightarrow> P b \<Longrightarrow> R b c \<Longrightarrow> (\<lambda>c c'. P c \<and> R c c')\<^sup>*\<^sup>* a c"
  by (rule rtranclp.rtrancl_into_rtrancl) simp_all

lemma trio_reached: "cluster_run faulty_ops trio trio0 trio7"
proof -
  have "cluster_run faulty_ops trio trio0 trio0" by simp
  note guarded_step [OF this trio_terms(1) trio_steps(1)]
  note guarded_step [OF this trio_terms(2) trio_steps(2)]
  note guarded_step [OF this trio_terms(3) trio_steps(3)]
  note guarded_step [OF this trio_terms(4) trio_steps(4)]
  note guarded_step [OF this trio_terms(5) trio_steps(5)]
  note guarded_step [OF this trio_terms(6) trio_steps(6)]
  note guarded_step [OF this trio_terms(7) trio_steps(7)]
  then show ?thesis .
qed

lemma trio_leader: "role (cl_node trio7 1) = Leader" "term_of (cl_node trio7 1) = 1"
  by code_simp+

section \<open>A data group\<close>

text \<open>A single voter elects itself, takes its committed no-op with the tick and applies it.\<close>

definition solo0 :: "mem_storage data_group" where
  "solo0 = group_new (at_time 0) (config_of 1 []) mem_storage_new"

definition solo_tick :: "ready result \<times> mem_storage raft_node" where
  "solo_tick = group_tick mem_ops (at_time 400) (dg_node solo0)"

definition solo1 :: "mem_storage data_group" where
  "solo1 = solo0\<lparr>dg_node := snd solo_tick, dg_batch := Some (rd_committed_entries (projr (fst solo_tick)))\<rparr>"

definition solo_apply :: "mem_storage raft_node \<times> applier" where
  "solo_apply = apply_group_commits True True True True 7 (the (dg_batch solo1)) (dg_node solo1, dg_applier solo1)"

definition solo2 :: "mem_storage data_group" where
  "solo2 = solo1\<lparr>dg_node := fst solo_apply, dg_applier := snd solo_apply, dg_batch := None\<rparr>"

lemma solo_steps: "(group_step event_ok mem_ops 7)\<^sup>*\<^sup>* solo0 solo2"
proof -
  have r: "\<not> isl (fst solo_tick)" "rd_committed_entries (projr (fst solo_tick)) \<noteq> []" "dg_batch solo0 = None"
    by code_simp+
  then have "group_tick mem_ops (at_time 400) (dg_node solo0) = (Inr (projr (fst solo_tick)), snd solo_tick)"
    unfolding solo_tick_def by (metis sum.collapse(2) prod.collapse)
  from group_step.TickTaken [OF r(3) this] have "group_step event_ok mem_ops 7 solo0 solo1"
    using r(2) by (simp add: solo1_def)
  moreover have "dg_batch solo1 = Some (the (dg_batch solo1))" by (simp add: solo1_def)
  from group_step.Apply [OF this] have "group_step event_ok mem_ops 7 solo1 solo2"
    unfolding solo2_def solo_apply_def by (metis prod.collapse)
  ultimately show ?thesis by (meson converse_rtranclp_into_rtranclp rtranclp.rtrancl_refl)
qed

end
