(* ===== verification/Log_Properties.thy ===== *)
theory Log_Properties
  imports Raft_Examples
begin

text \<open>
  What the replicated log promises its node (\<open>nodedb-raft/src/log.rs\<close>): the overwrite rule of
  \<open>append_entries\<close>, its idempotence, the byte budget of a batch, and what a snapshot boundary keeps.
\<close>

text \<open>
  C18. The overwrite rule. A batch that starts inside the log is written from its first
  entry that the log does not hold at the same term, and from there on the log is exactly the
  batch: what came before is untouched, the batch follows, the log ends with the batch, and
  nothing below the first new entry changes.
\<close>

theorem append_entries_overwrites:
  assumes "log_wf l" and "batch_after p es" and "p \<le> last_index l"
    and "append_entries ops l p es = (Inr True, l')"
  shows "\<exists>k < length es. (\<forall>j<k. \<not> not_held l (es ! j)) \<and> not_held l (es ! k) \<and>
     (\<forall>i \<le> p + k. entry_at l' i = entry_at l i) \<and>
     (\<forall>j. k \<le> j \<and> j < length es \<longrightarrow> entry_at l' (p + j + 1) = Some (es ! j)) \<and>
     last_index l' = p + length es \<and> log_wf l'"
proof -
  obtain e rest where d: "dropWhile (\<lambda>e. \<not> not_held l e) es = e # rest"
    using append_entries_True [OF assms] by blast
  define pre where "pre = takeWhile (\<lambda>e. \<not> not_held l e) es"
  note k = append_entries_True_entry_at [OF assms d]
  have es: "es = pre @ e # rest" using d by (metis pre_def takeWhile_dropWhile_id)
  have nh: "not_held l e" using d by (metis hd_dropWhile list.distinct(1) list.sel(1))
  have h: "\<forall>x\<in>set pre. \<not> not_held l x" unfolding pre_def by (auto dest: set_takeWhileD)
  have pre: "\<not> not_held l (es ! j)" if "j < length pre" for j
    using that h by (simp add: es nth_append)
  have ie: "le_index e = p + length pre + 1"
    using batch_after_nth [OF assms(2), of "length pre"] by (simp add: es)
  have new: "entry_at l' (p + j + 1) = Some (es ! j)" if j: "length pre \<le> j" "j < length es" for j
  proof -
    have "es ! j \<in> set (e # rest)"
      using j nth_mem [of "j - length pre" "e # rest"] by (simp add: es nth_append del: set_simps)
    from k(2) [OF this] show ?thesis using batch_after_nth [OF assms(2) j(2)] by simp
  qed
  show ?thesis using nh pre ie k(1,3) new append_entries_wf [OF assms]
    by (intro exI [of _ "length pre"]) (auto simp: es)
qed

theorem append_entries_overwrites_witness:
  "\<exists>k < length ex_batch. (\<forall>j<k. \<not> not_held ex_log (ex_batch ! j)) \<and> not_held ex_log (ex_batch ! k) \<and>
     (\<forall>i \<le> 3 + k. entry_at ex_log' i = entry_at ex_log i) \<and>
     (\<forall>j. k \<le> j \<and> j < length ex_batch \<longrightarrow> entry_at ex_log' (3 + j + 1) = Some (ex_batch ! j)) \<and>
     last_index ex_log' = 3 + length ex_batch \<and> log_wf ex_log'"
  by (rule append_entries_overwrites [OF ex_append])

text \<open>
  C39. Delivering a batch twice is the same as delivering it once: the second call writes
  nothing and reports so. Entries a snapshot covers never count as missing.
\<close>

theorem append_entries_idempotent:
  assumes "log_wf l" and "batch_after p es" and "p \<le> last_index l"
    and "append_entries ops l p es = (Inr w, l')"
  shows "append_entries ops l' p es = (Inr False, l')"
  using append_entries_again [OF assms] .

theorem append_entries_idempotent_witness:
  "append_entries mem_ops ex_log' 3 ex_batch = (Inr False, ex_log')"
  by (rule append_entries_idempotent [OF ex_append])

text \<open>
  C40. A batch for one peer is never empty when there is something to send, never leaves a
  hole, stays within the byte budget unless its first entry alone exceeds it, and stops only
  because the next entry would not fit.
\<close>

theorem entries_within_budget:
  assumes "log_wf l" and "entries_range l lo hi = Inr es" and "m < u64_max" and "es \<noteq> []"
    and "\<forall>e\<in>set es. length (le_data e) < u64_max"
  shows "\<exists>k. entries_within l lo hi m = Inr (take k es) \<and> 0 < k \<and> k \<le> length es \<and>
     batch_after (lo - 1) (take k es) \<and>
     (1 < k \<longrightarrow> batch_bytes (take k es) \<le> m) \<and>
     (k < length es \<longrightarrow> m < batch_bytes (take (Suc k) es))"
  using within_count_batch [OF assms(3-5)] entries_range_batch [OF assms(1,2)] assms(2)
  by (auto simp: entries_within_def intro: batch_after_take)

theorem entries_within_budget_witness:
  "\<exists>k. entries_within (log_of 0 0 [sized_entry 1 1 3, sized_entry 1 2 4, sized_entry 1 3 5]) 1 3 8 =
      Inr (take k [sized_entry 1 1 3, sized_entry 1 2 4, sized_entry 1 3 5]) \<and> 0 < k \<and> k \<le> 3 \<and>
     batch_after 0 (take k [sized_entry 1 1 3, sized_entry 1 2 4, sized_entry 1 3 5])"
proof -
  let ?es = "[sized_entry 1 1 3, sized_entry 1 2 4, sized_entry 1 3 5]"
  have "log_wf (log_of 0 0 ?es)" "entries_range (log_of 0 0 ?es) 1 3 = Inr ?es" by code_simp+
  moreover have "(8::nat) < u64_max" "\<forall>e\<in>set ?es. length (le_data e) < u64_max"
    by (simp_all add: u64_max_def sized_entry_def)
  ultimately show ?thesis using entries_within_budget [of "log_of 0 0 ?es" 1 3 ?es 8] by force
qed

end
