(* ===== verification/Node_Properties.thy ===== *)
theory Node_Properties
  imports Raft_Examples
begin

text \<open>
  What each operation of a node does on every branch: votes and pre-votes, the commit rule,
  \<open>AppendEntries\<close> refusals, proposals, compaction, check-quorum, leases and reads.
\<close>

section \<open>Votes\<close>

text \<open>
  C23. A vote is granted exactly when the request is not fenced off by a live leader, its
  term is not stale, this node is a voter that has not voted for another candidate in that term,
  and the candidate's log is at least as up to date. A granted vote is recorded for that candidate
  and term, and marked for the disk; the reply carries the term.
\<close>

theorem request_vote_grant:
  "(let (resp, n') = handle_request_vote_at env req n;
        free = (rv_term req > term_of n \<or> vote_of n = 0 \<or> vote_of n = rv_candidate_id req)
    in (rvr_vote_granted resp \<longleftrightarrow>
          role n \<in> {Follower, Candidate, Leader} \<and> (rv_transfer req \<or> \<not> vote_refusal_active n (env_now env)) \<and>
          rv_term req \<ge> term_of n \<and> free \<and>
          log_ok (rlog n) (rv_last_log_term req) (rv_last_log_index req)) \<and>
       (rvr_vote_granted resp \<longrightarrow> term_of n' = rv_term req \<and> vote_of n' = rv_candidate_id req \<and>
          rvr_term resp = rv_term req \<and> unsaved n' = Some (hard n')) \<and>
       rvr_term resp = term_of n' \<and> rlog n' = rlog n \<and> volatile n' = volatile n)"
  by (cases "role n") (auto simp: handle_request_vote_at_def Let_def)

theorem request_vote_grant_witness:
  "rvr_vote_granted (fst (handle_request_vote_at (at_time 400)
     \<lparr>rv_term = 1, rv_candidate_id = 2, rv_last_log_index = 0, rv_last_log_term = 0, rv_group_id = 7, rv_transfer = False\<rparr>
     (boot 1 [2, 3])))"
proof -
  let ?req = "\<lparr>rv_term = 1, rv_candidate_id = 2, rv_last_log_index = 0, rv_last_log_term = 0, rv_group_id = 7, rv_transfer = False\<rparr>"
  have "role (boot 1 [2, 3]) = Follower" "\<not> vote_refusal_active (boot 1 [2, 3]) (env_now (at_time 400))"
    "term_of (boot 1 [2, 3]) = 0" "log_ok (rlog (boot 1 [2, 3])) (rv_last_log_term ?req) (rv_last_log_index ?req)"
    by code_simp+
  then show ?thesis using request_vote_grant [of "at_time 400" ?req "boot 1 [2, 3]"]
    by (simp add: Let_def split: prod.splits)
qed

text \<open>
  C24. A pre-vote is an honest forecast and costs nothing: granted or refused, it leaves the node as it
  was and answers with its term; and a node that grants one would, asked at the same instant, grant the
  real vote of any candidate with the same term and log end.
\<close>

theorem pre_vote_sound:
  assumes "handle_pre_vote_at (env_now env) pv n = (resp, n')"
  shows "n' = n \<and> pvr_term resp = term_of n \<and>
     (pvr_vote_granted resp \<longrightarrow> (\<forall>rv. rv_term rv = pv_term pv \<and> rv_last_log_index rv = pv_last_log_index pv \<and>
        rv_last_log_term rv = pv_last_log_term pv \<longrightarrow> rvr_vote_granted (fst (handle_request_vote_at env rv n))))"
  using assms by (auto simp: handle_pre_vote_at_def handle_request_vote_at_def Let_def split: if_splits)

text \<open>A probe that voter 1 grants, and one of an old term that it refuses.\<close>

theorem pre_vote_sound_witness:
  "rvr_vote_granted (fst (handle_request_vote_at (at_time 400)
     \<lparr>rv_term = 1, rv_candidate_id = 2, rv_last_log_index = 0, rv_last_log_term = 0, rv_group_id = 7, rv_transfer = False\<rparr>
     (boot 1 [2, 3]))) \<and>
   snd (handle_pre_vote_at 400
     \<lparr>pv_term = 0, pv_candidate_id = 2, pv_last_log_index = 0, pv_last_log_term = 0, pv_group_id = 7\<rparr> (boot 1 [2, 3])) = boot 1 [2, 3]"
proof -
  let ?pv = "\<lambda>t. \<lparr>pv_term = t, pv_candidate_id = 2, pv_last_log_index = 0, pv_last_log_term = 0, pv_group_id = 7\<rparr>"
  have "pvr_vote_granted (fst (handle_pre_vote_at (env_now (at_time 400)) (?pv 1) (boot 1 [2, 3])))" by code_simp
  moreover have "env_now (at_time 400) = 400" by (simp add: at_time_def)
  ultimately show ?thesis
    using pre_vote_sound [OF prod.collapse [symmetric], of "at_time 400" "?pv 1" "boot 1 [2, 3]"]
      pre_vote_sound [OF prod.collapse [symmetric], of "at_time 400" "?pv 0" "boot 1 [2, 3]"] by simp
qed

section \<open>The commit rule\<close>

text \<open>The voters that hold index \<open>i\<close>: this node by its durable log, a peer by its match index.\<close>

definition holders :: "'s storage_ops \<Rightarrow> 's raft_node \<Rightarrow> leader_state \<Rightarrow> u64 \<Rightarrow> node_id set" where
  "holders ops n ls i = {v \<in> voter_set (config n).
     if v = node_id (config n) then i \<le> stable_index ops (rlog n) else i \<le> ls_match_index_for ls v}"

lemma card_holders: "config_wf (config n) \<Longrightarrow> card (holders ops n ls i) = ack_total ops n ls i"
proof -
  assume w: "config_wf (config n)"
  let ?P = "filter (\<lambda>p. i \<le> ls_match_index_for ls p) (peers (config n))"
  have self: "node_id (config n) \<notin> set (peers (config n))" and dist: "distinct ?P"
    using w by (auto simp: config_wf_def)
  have "holders ops n ls i =
      (if i \<le> stable_index ops (rlog n) then {node_id (config n)} else {}) \<union> set ?P"
    using self by (auto simp: holders_def voter_set_def)
  moreover have "node_id (config n) \<notin> set ?P" using self by simp
  ultimately show ?thesis using distinct_card [OF dist] by (simp add: ack_total_def)
qed

lemma majority_holders:
  "config_wf (config n) \<Longrightarrow> majority (voter_set (config n)) (holders ops n ls i) \<longleftrightarrow>
     quorum (config n) \<le> ack_total ops n ls i"
proof -
  assume w: "config_wf (config n)"
  have "holders ops n ls i \<subseteq> voter_set (config n)" by (auto simp: holders_def)
  then show ?thesis by (simp add: majority_def card_holders [OF w] card_voter_set [OF w] quorum_def Suc_le_eq)
qed

text \<open>
  C10. The commit rule. A leader's commit index moves only to an index that holds an entry of
  its own term and that a majority of the voters holds, its own copy counted only once it is
  durable. It moves as far as it can: afterwards no higher index qualifies. It never moves back,
  and learners and observers do not count.
\<close>

theorem commit_rule:
  assumes "config_wf (config n)" and "leader_st n = Some ls"
    and c_def: "c = commit_of (try_advance_commit_index ops n)"
  shows "(c = commit_of n \<or> (commit_of n < c \<and> c \<le> last_index (rlog n) \<and>
       term_at (rlog n) c = Some (term_of n) \<and> majority (voter_set (config n)) (holders ops n ls c))) \<and>
     (\<forall>i. c < i \<and> i \<le> last_index (rlog n) \<and> term_at (rlog n) i = Some (term_of n) \<longrightarrow>
       \<not> majority (voter_set (config n)) (holders ops n ls i))"
proof (cases "find (can_commit ops n ls) (rev [commit_of n + 1..<last_index (rlog n) + 1])")
  case None
  then have "c = commit_of n" by (simp add: c_def try_advance_commit_index_def assms(2))
  moreover have "\<not> can_commit ops n ls i" if "commit_of n < i" "i \<le> last_index (rlog n)" for i
    using None that by (auto simp del: upt_Suc simp: find_None_iff)
  ultimately show ?thesis by (auto simp: can_commit_def majority_holders [OF assms(1)])
next
  case (Some k)
  then have c: "c = k" by (simp add: c_def try_advance_commit_index_def assms(2))
  have k: "commit_of n < k" "k \<le> last_index (rlog n)" "can_commit ops n ls k"
    using find_Some_set [OF Some] by auto
  moreover have "\<not> can_commit ops n ls i" if "k < i" "i \<le> last_index (rlog n)" for i
    using find_rev_upt_max [OF Some, of i] that k by auto
  ultimately show ?thesis by (auto simp: c can_commit_def majority_holders [OF assms(1)])
qed

text \<open>Leader 1 of voters 1, 2, 3 after 2 acknowledged the no-op of term 1.\<close>

definition acked3 :: "mem_storage raft_node" where
  "acked3 = leader3\<lparr>leader_st := map_option (set_match_index 2 1) (leader_st leader3)\<rparr>"

theorem commit_rule_witness:
  "commit_of (try_advance_commit_index mem_ops acked3) = 1 \<and> commit_of acked3 = 0 \<and>
   majority (voter_set (config acked3)) (holders mem_ops acked3 (the (leader_st acked3)) 1)"
proof -
  have l: "leader_st acked3 = Some (the (leader_st acked3))"
  proof -
    have "leader_st acked3 \<noteq> None" by code_simp
    then show ?thesis by simp
  qed
  have w: "config_wf (config acked3)" by code_simp
  have c: "commit_of (try_advance_commit_index mem_ops acked3) = 1" "commit_of acked3 = 0" by code_simp+
  show ?thesis using commit_rule [OF w l refl, of mem_ops] c by simp
qed

section \<open>AppendEntries\<close>

lemma queued_follow_leader: "queued (follow_leader env req n) = queued n"
  by (simp add: follow_leader_def become_follower_def persist_hard_state_def Let_def)

text \<open>
  C13. A follower accepts a batch exactly when the sender's term is not behind, it can resume from its
  log, no committed entry is missing, the entry before the batch matches, and storage takes the
  write. Having accepted, it holds every entry of the batch at its term, its commit index is the
  highest of what it was and what the leader has committed of the shared prefix, and it claims no
  more than that prefix. Having refused, its commit and applied indices and its queue are as they
  were, and so is its log unless storage failed.
\<close>

theorem append_entries_reply:
  assumes "log_wf (rlog n)" and "batch_after (ae_prev_log_index req) (ae_entries req)"
    and "handle_append_entries ops env req n = (resp, n')"
  shows "(aer_success resp \<longleftrightarrow> term_of n \<le> ae_term req \<and> \<not> wants_snapshot (replica n) \<and> \<not> has_apply_gap n \<and>
        prev_log_ok (rlog n) req \<and>
        (\<exists>w. fst (append_entries ops (rlog n) (ae_prev_log_index req) (ae_entries req)) = Inr w)) \<and>
     (aer_success resp \<longrightarrow> (\<forall>e\<in>set (ae_entries req). \<not> not_held (rlog n') e) \<and>
        commit_of n' = max (commit_of n) (min (ae_leader_commit req) (ae_matched req)) \<and>
        aer_last_log_index resp \<le> ae_matched req \<and> log_wf (rlog n')) \<and>
     (\<not> aer_success resp \<longrightarrow> volatile n' = volatile n \<and> queued n' = queued n \<and>
        (rlog n' = rlog n \<or> (\<exists>e. fst (append_entries ops (rlog n) (ae_prev_log_index req) (ae_entries req)) = Inl e)))"
proof -
  let ?p = "ae_prev_log_index req" and ?es = "ae_entries req"
  have gap: "has_apply_gap (follow_leader env req n) = has_apply_gap n"
    by (simp add: has_apply_gap_def first_available_index_def)
  obtain r l where a: "append_entries ops (rlog n) ?p ?es = (r, l)" by fastforce
  note d = handle_append_entries_def ae_reply_def queued_follow_leader gap a Let_def
  show ?thesis
  proof (cases "term_of n \<le> ae_term req \<and> \<not> wants_snapshot (replica n) \<and> \<not> has_apply_gap n \<and> prev_log_ok (rlog n) req")
    case True
    note p = prev_log_ok_le [OF assms(1), of req]
    show ?thesis
    proof (cases r)
      case (Inl e)
      then show ?thesis using True assms(3) by (auto simp: d)
    next
      case (Inr w)
      have "\<not> not_held l e" if "e \<in> set ?es" for e
        using append_entries_held_after [OF assms(1,2) p a [unfolded Inr] that] True
          append_entries_snapshot [OF a] by (auto simp: not_held_def)
      moreover have "log_wf l" using append_entries_wf [OF assms(1,2) p] a Inr True by blast
      ultimately show ?thesis using True Inr assms(3)
        by (auto simp: d claimable_match_def)
    qed
  next
    case False
    then show ?thesis using assms(3) by (auto simp: d split: if_splits)
  qed
qed

text \<open>The follower of the example takes two entries, one of them in place of an old one.\<close>

definition mid3 :: "mem_storage raft_node" where
  "mid3 = run mem_ops (take 1 follower_run) (boot 1 [2, 3])"

definition overwrite_msg :: append_entries_request where
  "overwrite_msg = append_msg 2 2 1 [entry 2 3, entry 2 4] 3"

theorem append_entries_reply_witness:
  "aer_success (fst (handle_append_entries mem_ops (at_time 20) overwrite_msg mid3)) \<and>
   commit_of mid3 = 2 \<and> commit_of (snd (handle_append_entries mem_ops (at_time 20) overwrite_msg mid3)) = 3 \<and>
   \<not> not_held (rlog (snd (handle_append_entries mem_ops (at_time 20) overwrite_msg mid3))) (entry 2 3)"
proof -
  have h: "log_wf (rlog mid3)" "batch_after (ae_prev_log_index overwrite_msg) (ae_entries overwrite_msg)"
    "aer_success (fst (handle_append_entries mem_ops (at_time 20) overwrite_msg mid3))"
    "entry 2 3 \<in> set (ae_entries overwrite_msg)" "commit_of mid3 = 2"
    "max (2::nat) (min (ae_leader_commit overwrite_msg) (ae_matched overwrite_msg)) = 3" by code_simp+
  show ?thesis using append_entries_reply [OF h(1,2) prod.collapse [symmetric], of mem_ops "at_time 20"] h(3-6)
    by auto
qed

section \<open>Proposals\<close>

text \<open>
  C27. A proposal has four outcomes. A node that does not lead, or that is handing its leadership over,
  refuses and is unchanged; the first refusal names the leader it knows. A storage error leaves
  the entries of the log as they were and sends nothing. Otherwise the new entry, of the leader's
  term, is the last of the log, one past the former end, its index is the answer, and no entry
  before it changes.
\<close>

theorem propose_outcomes:
  assumes "log_wf (rlog n)" and "propose ops env data n = (r, n')"
  shows "(role n \<noteq> Leader \<and> r = Inl (NotLeader (leader_hint n) (term_of n)) \<and> n' = n) \<or>
     (role n = Leader \<and> transfer n \<noteq> None \<and> r = Inl LeadershipTransferInProgress \<and> n' = n) \<or>
     (role n = Leader \<and> transfer n = None \<and>
        (\<exists>e. r = Inl e \<and> rl_entries (rlog n') = rl_entries (rlog n) \<and> pending_ready n' = pending_ready n)) \<or>
     (role n = Leader \<and> transfer n = None \<and> r = Inr (last_index (rlog n) + 1) \<and>
        last_index (rlog n') = last_index (rlog n) + 1 \<and> log_wf (rlog n') \<and>
        entry_at (rlog n') (last_index (rlog n')) =
          Some \<lparr>le_term = term_of n, le_index = last_index (rlog n) + 1, le_data = data\<rparr> \<and>
        (\<forall>i \<le> last_index (rlog n). entry_at (rlog n') i = entry_at (rlog n) i))"
proof -
  let ?e = "\<lparr>le_term = term_of n, le_index = last_index (rlog n) + 1, le_data = data\<rparr>"
  obtain q l where a: "log_append ops (rlog n) ?e = (q, l)" by fastforce
  show ?thesis
  proof (cases q)
    case (Inl x)
    then show ?thesis using assms(2) a
      by (auto simp: propose_def log_append_def Let_def split: if_splits sum.splits prod.splits)
  next
    case (Inr u)
    then have e: "rl_entries l = rl_entries (rlog n) @ [?e]" "snapshot_index l = snapshot_index (rlog n)"
      using a by (auto simp: log_append_def split: sum.splits prod.splits)
    have wf: "log_wf l" using log_append_wf [OF assms(1) _ a] by simp
    have "last_index l = last_index (rlog n) + 1"
      using e by (simp add: last_index_wf [OF wf] last_index_wf [OF assms(1)])
    moreover have "entry_at l (last_index (rlog n) + 1) = Some ?e" "\<forall>i \<le> last_index (rlog n). entry_at l i = entry_at (rlog n) i"
      using e by (auto simp: entry_at_wf [OF wf] entry_at_wf [OF assms(1)] last_index_wf [OF assms(1)] nth_append)
    ultimately show ?thesis using assms(2) a Inr wf
      by (auto simp: propose_def Let_def split: if_splits)
  qed
qed

theorem propose_outcomes_witness:
  "fst (propose mem_ops (at_time 450) [5] leader3) = Inr 2 \<and>
   entry_at (rlog (snd (propose mem_ops (at_time 450) [5] leader3))) 2 = Some \<lparr>le_term = 1, le_index = 2, le_data = [5]\<rparr>"
proof -
  have h: "log_wf (rlog leader3)" "fst (propose mem_ops (at_time 450) [5] leader3) = Inr 2"
    "last_index (rlog leader3) = 1" "term_of leader3 = 1" by code_simp+
  show ?thesis using propose_outcomes [OF h(1) prod.collapse [symmetric], of mem_ops "at_time 450" "[5]"] h(2-4)
    by (auto simp: numeral_2_eq_2)
qed

end
