(* ===== verification/Raft_Tracking.thy ===== *)
theory Raft_Tracking
  imports Raft_Step
begin

text \<open>
  The consistency of a leader's replication state with its role and configuration
  (\<open>LeaderState\<close> in \<open>state.rs\<close> under \<open>node/internal.rs\<close> and \<open>node/membership.rs\<close>): leader state
  exists exactly while the node leads, it tracks exactly the voters and learners, once each, and
  for each of them the next index to send is past the index known to match. Every event keeps it.
\<close>

section \<open>One peer\<close>

definition ahead :: "leader_state \<Rightarrow> node_id \<Rightarrow> bool" where
  "ahead ls p \<longleftrightarrow> ls_match_index_for ls p < next_index_for ls p \<and> ls_match_index_for ls p < u64_max"

definition track_ok :: "node_id set \<Rightarrow> leader_state \<Rightarrow> bool" where
  "track_ok P ls \<longleftrightarrow> tracking_wf ls \<and> set (ls_peers ls) = P \<and> (\<forall>p\<in>P. ahead ls p)"

lemma match_index_untracked:
  "tracking_wf ls \<Longrightarrow> p \<notin> set (ls_peers ls) \<Longrightarrow> ls_match_index_for ls p = 0"
  using tracking_wf_same_keys [of ls]
  by (auto simp: ls_match_index_for_def get_or_def map_of_eq_None_iff split: option.split)
    (metis map_of_eq_None_iff option.distinct(1))

lemma next_index_add:
  "next_index_for (ls_add_peer p li ls) q = (if q = p \<and> p \<notin> set (ls_peers ls) then li + 1 else next_index_for ls q)"
  by (auto simp: next_index_for_def ls_add_peer_def ls_peers_def get_or_def map_add_def
      split: option.splits dest: map_of_SomeD simp: map_of_eq_None_iff rev_image_eqI)

lemma track_ok_add: "track_ok P ls \<Longrightarrow> track_ok (insert p P) (ls_add_peer p li ls)"
  using match_index_untracked [of ls p]
  by (auto simp: track_ok_def tracking_wf_add ahead_def match_index_add next_index_add u64_max_def)

lemma next_index_remove: "q \<noteq> p \<Longrightarrow> next_index_for (ls_remove_peer p ls) q = next_index_for ls q"
  by (simp add: next_index_for_def ls_remove_peer_def get_or_def map_of_filter_key)

lemma track_ok_remove: "track_ok P ls \<Longrightarrow> track_ok (P - {p}) (ls_remove_peer p ls)"
  by (auto simp: track_ok_def tracking_wf_remove ahead_def match_index_remove next_index_remove)

lemma track_ok_new: "distinct ps \<Longrightarrow> track_ok (set ps) (leader_state_new ps obs li)"
  by (auto simp: track_ok_def tracking_wf_new ahead_def next_index_new u64_max_def)

lemma track_ok_fold_add: "track_ok P ls \<Longrightarrow> track_ok (P \<union> set qs) (fold (\<lambda>q. ls_add_peer q li) qs ls)"
proof (induction qs arbitrary: P ls)
  case (Cons q qs)
  from Cons.IH [OF track_ok_add [OF Cons.prems]] show ?case by simp
qed simp

lemma track_ok_raise: "track_ok P ls \<Longrightarrow> i < u64_max \<Longrightarrow> track_ok P (raise_match p i ls)"
  by (auto simp: track_ok_def raise_match_def ahead_def)

lemma track_ok_answer [simp]: "track_ok P (note_answer p st ls) = track_ok P ls"
  by (simp add: track_ok_def note_answer_def ahead_def Let_def)

lemma track_ok_observer [simp]: "track_ok P (observer_state_mut p f ls) = track_ok P ls"
  by (simp add: track_ok_def ahead_def)

lemma track_ok_back_off:
  "track_ok P ls \<Longrightarrow> track_ok P (set_next_index p (back_off i (next_index_for ls p) (ls_match_index_for ls p)) ls)"
  by (auto simp: track_ok_def ahead_def back_off_def sat_add_u64_def Let_def)

section \<open>One node\<close>

abbreviation tracked :: "raft_config \<Rightarrow> node_id set" where
  "tracked c \<equiv> set (peers c) \<union> set (learners c)"

definition lead_ok :: "raft_config \<Rightarrow> node_role \<Rightarrow> leader_state option \<Rightarrow> bool" where
  "lead_ok c r st \<longleftrightarrow> config_wf c \<and>
     (case st of None \<Rightarrow> r \<noteq> Leader | Some ls \<Rightarrow> r = Leader \<and> track_ok (tracked c) ls)"

definition leader_inv :: "'s raft_node \<Rightarrow> bool" where
  "leader_inv n \<longleftrightarrow> lead_ok (config n) (role n) (leader_st n)"

lemma lead_ok_simps [simp]:
  "lead_ok c r None \<longleftrightarrow> config_wf c \<and> r \<noteq> Leader"
  "lead_ok c r (Some ls) \<longleftrightarrow> config_wf c \<and> r = Leader \<and> track_ok (tracked c) ls"
  by (simp_all add: lead_ok_def)

lemma lead_ok_config: "lead_ok c r st \<Longrightarrow> config_wf c"
  by (simp add: lead_ok_def)

lemma leader_inv_same:
  "leader_inv n \<Longrightarrow> config m = config n \<Longrightarrow> role m = role n \<Longrightarrow> leader_st m = leader_st n \<Longrightarrow> leader_inv m"
  by (simp add: leader_inv_def)

lemma leader_inv_updates [simp]:
  "leader_inv (n\<lparr>hard := h\<rparr>) = leader_inv n" "leader_inv (n\<lparr>volatile := v\<rparr>) = leader_inv n"
  "leader_inv (n\<lparr>rlog := l\<rparr>) = leader_inv n" "leader_inv (n\<lparr>pending_ready := r\<rparr>) = leader_inv n"
  "leader_inv (n\<lparr>transfer := t\<rparr>) = leader_inv n" "leader_inv (n\<lparr>pre_vote := q\<rparr>) = leader_inv n"
  "leader_inv (n\<lparr>heartbeat_deadline := d\<rparr>) = leader_inv n" "leader_inv (n\<lparr>lease := s\<rparr>) = leader_inv n"
  "leader_inv (n\<lparr>votes_received := vs\<rparr>) = leader_inv n" "leader_inv (n\<lparr>leader_id := i\<rparr>) = leader_inv n"
  "leader_inv (n\<lparr>compaction_ceiling := c\<rparr>) = leader_inv n" "leader_inv (n\<lparr>replica := st\<rparr>) = leader_inv n"
  "leader_inv (n\<lparr>repl_floor := f\<rparr>) = leader_inv n"
  by (simp_all add: leader_inv_def)

lemma leader_inv_follower: "leader_inv n \<Longrightarrow> leader_inv (become_follower env t n)"
  by (auto simp: leader_inv_def dest: lead_ok_config)

lemma leader_inv_take_lead: "config_wf (config n) \<Longrightarrow> leader_inv (take_lead ops env n)"
  by (auto simp: leader_inv_def leader_state_for_def config_wf_def intro!: track_ok_fold_add track_ok_new)

lemma leader_inv_sends [simp]:
  "leader_inv n \<Longrightarrow> leader_inv (send_append_entries env p n)"
  "leader_inv n \<Longrightarrow> leader_inv (try_advance_commit_index ops n)"
  "leader_inv n \<Longrightarrow> leader_inv (refresh_quorum_contact now n)"
  "leader_inv n \<Longrightarrow> leader_inv (try_emit_timeout_now n)"
  "leader_inv n \<Longrightarrow> leader_inv (reset_election_timeout env n)"
  "leader_inv n \<Longrightarrow> leader_inv (persist_hard_state n)"
  "leader_inv n \<Longrightarrow> leader_inv (collect_committed_entries n)"
  by (rule leader_inv_same; simp add: persist_hard_state_def)+

lemma leader_inv_send_observer [simp]:
  "leader_inv n \<Longrightarrow> leader_inv (send_append_entries_to_observer env p n)"
  by (cases "leader_st n")
    (auto simp: leader_inv_def send_append_entries_to_observer_def push_snapshot_needed_def push_message_def Let_def
      split: option.splits)

lemma leader_inv_fold [simp]:
  "leader_inv n \<Longrightarrow> leader_inv (fold (send_append_entries env) ps n)"
  "leader_inv n \<Longrightarrow> leader_inv (fold (send_append_entries_to_observer env) ps n)"
  by (induction ps arbitrary: n) simp_all

lemma leader_inv_replicate [simp]: "leader_inv n \<Longrightarrow> leader_inv (replicate_to_all env n)"
  by (simp add: replicate_to_all_def)

lemma leader_inv_become_leader: "leader_inv n \<Longrightarrow> leader_inv (become_leader ops env n)"
  using leader_inv_take_lead [of n ops env] by (auto simp: become_leader_def Let_def leader_inv_def [of n] dest: lead_ok_config)

lemma leader_inv_candidate:
  "leader_inv n \<Longrightarrow> role n \<noteq> Leader \<Longrightarrow> config m = config n \<Longrightarrow> role m = Candidate \<Longrightarrow> leader_st m = leader_st n \<Longrightarrow>
     leader_inv m"
  by (cases "leader_st n") (auto simp: leader_inv_def)

lemma leader_inv_start_election:
  assumes "leader_inv n" and "role n \<noteq> Leader"
  shows "leader_inv (start_election ops env n)"
proof -
  have "leader_inv (n\<lparr>pre_vote := None, hard := h, role := Candidate, votes_received := {}, leader_id := 0\<rparr>)" for h
    using assms by (rule leader_inv_candidate) simp_all
  then show ?thesis using assms(1) by (simp add: start_election_def Let_def leader_inv_become_leader)
qed

lemma leader_inv_start_pre_election:
  "leader_inv n \<Longrightarrow> role n \<noteq> Leader \<Longrightarrow> leader_inv (start_pre_election ops env n)"
  by (simp add: start_pre_election_def Let_def leader_inv_start_election)

lemma leader_inv_tick: "leader_inv n \<Longrightarrow> leader_inv (tick ops env n)"
  by (auto simp: tick_def Let_def leader_inv_start_pre_election leader_inv_follower
      split: node_role.split option.split)

lemma leader_inv_follow_leader: "leader_inv n \<Longrightarrow> leader_inv (follow_leader env req n)"
  by (rule leader_inv_same [of "if ae_term req > term_of n \<or> role n = Candidate \<or>
        (role n = Leader \<and> ae_leader_id req \<noteq> node_id (config n)) then become_follower env (ae_term req) n else n"])
    (auto simp: follow_leader_def Let_def leader_inv_follower)

lemma leader_inv_handle_append_entries: "leader_inv n \<Longrightarrow> leader_inv (snd (handle_append_entries ops env req n))"
  using leader_inv_follow_leader [of n env req]
  by (auto simp: handle_append_entries_def Let_def follow_commit_def split: sum.split prod.split)

lemma leader_inv_response:
  assumes "leader_inv n" and "aer_last_log_index resp < u64_max"
  shows "leader_inv (handle_append_entries_response ops env p resp n)"
proof (cases "leader_st n")
  case None
  then show ?thesis using assms
    by (auto simp: handle_append_entries_response_def leader_inv_follower observer_response_def)
next
  case (Some ls)
  then have t: "track_ok (tracked (config n)) ls" "role n = Leader" "config_wf (config n)"
    using assms(1) by (auto simp: leader_inv_def)
  let ?ls = "note_answer p (aer_replica resp) ls" and ?n = "peer_contact env p resp ls n"
  have "leader_inv (n\<lparr>leader_st := Some l\<rparr>)" if "track_ok (tracked (config n)) l" for l
    using t that by (simp add: leader_inv_def)
  then have o: "leader_inv (observer_response env p resp n)"
    using Some t by (simp add: observer_response_def Let_def)
  have s: "leader_inv (peer_success ops env p (aer_last_log_index resp) ?ls ?n)"
    using t track_ok_raise [OF t(1) assms(2)] track_ok_raise [of _ ?ls, OF _ assms(2)] by (simp add: leader_inv_def)
  have "track_ok (tracked (config n)) (set_next_index p
      (back_off (aer_last_log_index resp) (next_index_for ?ls p) (ls_match_index_for ?ls p)) ?ls)"
    by (rule track_ok_back_off) (use t in simp)
  then have r: "leader_inv (peer_rejection env p resp ?ls ?n)"
    using t by (simp add: peer_rejection_def leader_inv_def)
  show ?thesis using Some o s r assms(1)
    by (simp add: handle_append_entries_response_def Let_def leader_inv_follower)
qed

section \<open>Membership\<close>

lemma track_ok_fold_if_add:
  "track_ok P ls \<Longrightarrow> track_ok (P \<union> {q \<in> set qs. C q}) (fold (\<lambda>q l. if C q then ls_add_peer q li l else l) qs ls)"
proof (induction qs arbitrary: P ls)
  case (Cons q qs)
  have "track_ok (if C q then insert q P else P) (if C q then ls_add_peer q li ls else ls)"
    using track_ok_add Cons.prems by simp
  from Cons.IH [OF this] show ?case by (cases "C q") (auto simp: insert_Collect Collect_disj_eq elim!: back_subst [of "\<lambda>P. track_ok P _"])
qed simp

lemma track_ok_fold_if_remove:
  "track_ok P ls \<Longrightarrow> track_ok (P - {q \<in> set qs. C q}) (fold (\<lambda>q l. if C q then ls_remove_peer q l else l) qs ls)"
proof (induction qs arbitrary: P ls)
  case (Cons q qs)
  have "track_ok (if C q then P - {q} else P) (if C q then ls_remove_peer q ls else ls)"
    using track_ok_remove Cons.prems by simp
  from Cons.IH [OF this] show ?case by (cases "C q") (auto elim!: back_subst [of "\<lambda>P. track_ok P _"])
qed simp

lemma leader_inv_set_voters:
  assumes "leader_inv n" and "distinct vs" and "node_id (config n) \<notin> set vs" and "set vs \<inter> set (learners (config n)) = {}"
  shows "leader_inv (set_voters vs n)"
proof -
  let ?c = "config n"
  have c: "config_wf (?c\<lparr>peers := vs\<rparr>)" using assms by (auto simp: leader_inv_def config_wf_def dest!: lead_ok_config)
  show ?thesis
  proof (cases "leader_st n")
    case None
    then show ?thesis using c assms(1) by (simp add: set_voters_def leader_inv_def Let_def)
  next
    case (Some ls)
    then have "track_ok (tracked ?c) ls" and r: "role n = Leader" using assms(1) by (auto simp: leader_inv_def)
    then have "track_ok ((tracked ?c \<union> {q \<in> set vs. q \<notin> set (peers ?c) \<and> q \<notin> set (learners ?c)}) -
        {q \<in> set (peers ?c). q \<notin> set vs \<and> q \<notin> set (learners ?c)})
      (fold (\<lambda>q l. if q \<notin> set vs \<and> q \<notin> set (learners ?c) then ls_remove_peer q l else l) (peers ?c)
        (fold (\<lambda>q l. if q \<notin> set (peers ?c) \<and> q \<notin> set (learners ?c) then ls_add_peer q (last_index (rlog n)) l else l) vs ls))"
      by (intro track_ok_fold_if_remove track_ok_fold_if_add)
    moreover have "(tracked ?c \<union> {q \<in> set vs. q \<notin> set (peers ?c) \<and> q \<notin> set (learners ?c)}) -
        {q \<in> set (peers ?c). q \<notin> set vs \<and> q \<notin> set (learners ?c)} = set vs \<union> set (learners ?c)" by blast
    ultimately show ?thesis using c r Some by (simp add: set_voters_def leader_inv_def Let_def)
  qed
qed

lemma leader_inv_wf: "leader_inv n \<Longrightarrow> config_wf (config n)"
  by (auto simp: leader_inv_def dest: lead_ok_config)

lemma leader_inv_add_peer: "leader_inv n \<Longrightarrow> leader_inv (add_peer p n)"
  using leader_inv_wf [of n] by (auto simp: add_peer_def config_wf_def intro!: leader_inv_set_voters)

lemma leader_inv_remove_peer: "leader_inv n \<Longrightarrow> leader_inv (remove_peer p n)"
  using leader_inv_wf [of n] by (auto simp: remove_peer_def config_wf_def intro!: leader_inv_set_voters)

lemma leader_inv_add_learner: "leader_inv n \<Longrightarrow> leader_inv (add_learner p n)"
  using track_ok_add [of "tracked (config n)" _ p "last_index (rlog n)"]
  by (cases "leader_st n") (auto simp: leader_inv_def add_learner_def config_wf_def)

lemma leader_inv_remove_learner:
  assumes "leader_inv n"
  shows "leader_inv (remove_learner p n)"
proof (cases "p \<in> set (learners (config n))")
  case True
  have w: "config_wf (config n)" using assms by (rule leader_inv_wf)
  have e: "set (peers (config n)) \<union> {q \<in> set (learners (config n)). q \<noteq> p} = tracked (config n) - {p}"
    using w True by (auto simp: config_wf_def)
  have "config_wf ((config n)\<lparr>learners := filter (\<lambda>i. i \<noteq> p) (learners (config n))\<rparr>)"
    using w by (auto simp: config_wf_def)
  then show ?thesis using assms True track_ok_remove
    by (cases "leader_st n") (simp_all add: leader_inv_def remove_learner_def e)
qed (use assms in \<open>simp add: remove_learner_def\<close>)

lemma leader_inv_promote_learner: "leader_inv n \<Longrightarrow> leader_inv (snd (promote_learner p n))"
proof -
  assume i: "leader_inv n"
  have "p \<in> set (learners (config n)) \<Longrightarrow>
      insert p (set (peers (config n)) \<union> {q \<in> set (learners (config n)). q \<noteq> p}) = tracked (config n)" by auto
  then show ?thesis using i leader_inv_wf [OF i]
    by (cases "leader_st n") (auto simp: leader_inv_def promote_learner_def config_wf_def)
qed

lemma leader_inv_promote_self: "leader_inv n \<Longrightarrow> leader_inv (promote_self_to_voter n)"
  by (cases "leader_st n") (auto simp: leader_inv_def promote_self_to_voter_def config_wf_def)

lemma leader_inv_transfer: "leader_inv n \<Longrightarrow> leader_inv (snd (transfer_leadership env p n))"
  by (simp add: transfer_leadership_def Let_def)

lemma leader_inv_set_replica: "leader_inv n \<Longrightarrow> leader_inv (set_replica_state env st n)"
  by (auto simp: set_replica_state_def stand_down_for_snapshot_def Let_def leader_inv_follower
      split: node_role.split option.split)

section \<open>Every event\<close>

text \<open>Indices that peers report leave room for the next one.\<close>

definition index_ok :: "node_event \<Rightarrow> 's raft_node \<Rightarrow> bool" where
  "index_ok ev n = (case ev of
     RecvAppendResp _ resp \<Rightarrow> aer_last_log_index resp < u64_max
   | SnapshotInstalled _ i \<Rightarrow> i < u64_max
   | _ \<Rightarrow> True)"

lemma leader_inv_installed: "leader_inv n \<Longrightarrow> i < u64_max \<Longrightarrow> leader_inv (record_snapshot_installed p i n)"
  by (cases "leader_st n") (auto simp: leader_inv_def record_snapshot_installed_def track_ok_raise)

lemma leader_inv_propose: "leader_inv n \<Longrightarrow> leader_inv (snd (propose ops env d n))"
  by (auto simp: propose_def Let_def split: sum.split prod.split)

lemma leader_inv_vote: "leader_inv n \<Longrightarrow> leader_inv (snd (handle_request_vote_at env req n))"
  by (auto simp: handle_request_vote_at_def Let_def leader_inv_follower)

lemma leader_inv_vote_response: "leader_inv n \<Longrightarrow> leader_inv (handle_request_vote_response ops env p resp n)"
  by (simp add: handle_request_vote_response_def Let_def leader_inv_follower leader_inv_become_leader)

lemma leader_inv_pre_vote_response: "leader_inv n \<Longrightarrow> leader_inv (handle_pre_vote_response ops env p resp n)"
  by (simp add: handle_pre_vote_response_def Let_def leader_inv_follower leader_inv_start_election split: option.split)

lemma leader_inv_save: "leader_inv n \<Longrightarrow> leader_inv (snd (save_durable_applied_index ops i n))"
  by (rule leader_inv_same) simp_all

lemma leader_inv_resume: "leader_inv n \<Longrightarrow> leader_inv (resume_at_boundary i n)"
  by (rule leader_inv_same) simp_all

lemma leader_inv_adopt: "leader_inv n \<Longrightarrow> leader_inv (snd (adopt_snapshot_boundary ops i t n))"
  by (auto simp: adopt_snapshot_boundary_def Let_def intro!: leader_inv_save leader_inv_resume
      split: sum.split prod.split)

lemma leader_inv_exec: "leader_inv n \<Longrightarrow> index_ok ev n \<Longrightarrow> leader_inv (exec ops env ev n)"
proof (cases ev)
  case (RecvSnapshot req)
  assume "leader_inv n"
  then show ?thesis unfolding RecvSnapshot
    by (simp add: handle_install_snapshot_def snd_case_result Let_def leader_inv_adopt leader_inv_follower)
next
  case (RecvTimeoutNow req)
  assume "leader_inv n"
  then show ?thesis unfolding RecvTimeoutNow
    by (simp add: handle_timeout_now_def Let_def leader_inv_start_election)
next
  case (CompactLog i)
  assume "leader_inv n"
  then show ?thesis unfolding CompactLog
    by (auto simp: compact_log_up_to_def Let_def split: option.split sum.split prod.split)
next
  case (MaybeCompact i)
  assume "leader_inv n"
  then show ?thesis unfolding MaybeCompact
    by (auto simp: maybe_compact_log_def compact_log_up_to_def Let_def split: option.split sum.split prod.split)
qed (auto simp: index_ok_def leader_inv_tick leader_inv_propose leader_inv_handle_append_entries leader_inv_response
    leader_inv_vote leader_inv_vote_response handle_pre_vote_at_def leader_inv_pre_vote_response leader_inv_adopt
    leader_inv_installed leader_inv_add_peer leader_inv_remove_peer notify_removed_peer_def leader_inv_add_learner
    leader_inv_remove_learner leader_inv_promote_learner leader_inv_promote_self leader_inv_transfer
    leader_inv_set_replica start_read_index_def on_storage_progress_def take_ready_def persist_hard_state_if_dirty_def
    advance_applied_def requeue_committed_def leader_inv_save set_compaction_ceiling_def Let_def
    split: option.split sum.split prod.split)

lemma leader_inv_new: "config_wf cfg \<Longrightarrow> leader_inv (node_new env cfg s)"
  by (simp add: leader_inv_def node_new_def)

end
