(* ===== verification/Lease_Properties.thy ===== *)
theory Lease_Properties
  imports Raft_Examples Raft_Tracking
begin

text \<open>
  What stands behind a leader's authority (\<open>node/quorum_contact.rs\<close>, \<open>node/leader_lease.rs\<close>,
  \<open>node/read_index.rs\<close>): the check-quorum window, the lease anchor and the read-index probe each
  rest on a majority of the voters, and a voter that a valid lease counts refuses to vote.
\<close>

section \<open>Majorities from order statistics\<close>

lemma nth_highest_count:
  assumes "nth_highest k xs = Some v"
  shows "k < length (filter (\<lambda>x. v \<le> x) xs)"
proof -
  define ys where "ys = rev (sort xs)"
  have k: "k < length ys" and v: "v = ys ! k"
    using assms by (auto simp: nth_highest_def ys_def Let_def split: if_splits)
  have desc: "sorted_wrt (\<ge>) ys" by (simp add: ys_def sorted_wrt_rev)
  have "v \<le> y" if "y \<in> set (take (Suc k) ys)" for y
  proof -
    from that obtain i where "i < length (take (Suc k) ys)" "take (Suc k) ys ! i = y"
      by (meson in_set_conv_nth)
    then have "i < Suc k" "y = ys ! i" by auto
    then show ?thesis using sorted_wrt_nth_less [OF desc, of i k] k v by (cases "i = k") auto
  qed
  then have "filter (\<lambda>x. v \<le> x) (take (Suc k) ys) = take (Suc k) ys" by (simp add: filter_id_conv)
  then have "filter (\<lambda>x. v \<le> x) ys = take (Suc k) ys @ filter (\<lambda>x. v \<le> x) (drop (Suc k) ys)"
    by (metis append_take_drop_id filter_append)
  then have "Suc k \<le> length (filter (\<lambda>x. v \<le> x) ys)" using k by simp
  also have "\<dots> = length (filter (\<lambda>x. v \<le> x) xs)"
    by (simp add: ys_def filter_sort flip: rev_filter)
  finally show ?thesis by simp
qed

lemma length_filter_map_filter:
  "length (filter Q (List.map_filter f xs)) = length (filter (\<lambda>x. \<exists>y. f x = Some y \<and> Q y) xs)"
  by (induction xs) (auto simp: List.map_filter_simps split: option.split)

text \<open>This node and the peers that satisfy \<open>P\<close>.\<close>

definition backers :: "raft_config \<Rightarrow> (node_id \<Rightarrow> bool) \<Rightarrow> node_id set" where
  "backers c P = insert (node_id c) {p \<in> set (peers c). P p}"

lemma majority_backers:
  assumes "config_wf c" and "quorum c - 1 \<le> length (filter P (peers c))"
  shows "majority (voter_set c) (backers c P)"
proof -
  have "distinct (filter P (peers c))" and self: "node_id c \<notin> set (peers c)"
    using assms(1) by (auto simp: config_wf_def)
  then have "card {p \<in> set (peers c). P p} = length (filter P (peers c))"
    using distinct_card by fastforce
  then have "quorum c \<le> card (backers c P)"
    using assms(2) self by (simp add: backers_def quorum_def)
  then show ?thesis
    by (intro quorum_majority [OF assms(1)]) (auto simp: backers_def voter_set_def)
qed

section \<open>Check-quorum\<close>

definition heard_since :: "'s raft_node \<Rightarrow> instant \<Rightarrow> node_id \<Rightarrow> bool" where
  "heard_since n t p \<longleftrightarrow> (\<exists>a. voter_ack_of n p = Some a \<and> t \<le> va_arrived a)"

lemma refresh_quorum_contact_backed:
  assumes "config_wf (config n)" and "role n = Leader" and "last_quorum_contact n = Some prev"
  shows "\<exists>t. last_quorum_contact (refresh_quorum_contact now n) = Some t \<and>
     (t = prev \<or> majority (voter_set (config n)) (backers (config n) (heard_since n t))) \<and>
     (prev \<le> t \<or> peers (config n) = [])"
proof (cases "quorum (config n) - 1 = 0")
  case True
  then have "peers (config n) = []" by (cases "peers (config n)") (auto simp: quorum_def cluster_size_def)
  moreover have "majority (voter_set (config n)) (backers (config n) P)" for P
    using True by (intro majority_backers [OF assms(1)]) simp
  ultimately show ?thesis using True assms(2) by (simp add: refresh_quorum_contact_def)
next
  case False
  let ?xs = "List.map_filter (\<lambda>peer. map_option va_arrived (voter_ack_of n peer)) (peers (config n))"
  show ?thesis
  proof (cases "nth_highest (quorum (config n) - 1 - 1) ?xs")
    case None
    then show ?thesis using False assms(2,3) by (simp add: refresh_quorum_contact_def Let_def)
  next
    case (Some c)
    have "(\<lambda>p. \<exists>y. map_option va_arrived (voter_ack_of n p) = Some y \<and> c \<le> y) = heard_since n c"
      by (auto simp: heard_since_def fun_eq_iff)
    then have "quorum (config n) - 1 \<le> length (filter (heard_since n c) (peers (config n)))"
      using nth_highest_count [OF Some] False by (simp add: length_filter_map_filter)
    from majority_backers [OF assms(1) this] show ?thesis
      using Some False assms(2,3) by (auto simp: refresh_quorum_contact_def Let_def)
  qed
qed

text \<open>
  C17. Check-quorum. A leader that ticks either stays leader with a contact time less than the maximal
  election timeout ago, a time that is the one it had or one since which a majority of the voters
  answered it, itself counted; or it steps down to follower, in the same term and with the same
  vote, gives up its leader state, starts no new messages, and had no such contact.
\<close>

theorem check_quorum:
  assumes "config_wf (config n)" and "role n = Leader" and "last_quorum_contact n = Some prev"
    and "n' = tick ops env n"
  shows "(role n' = Leader \<and> (\<exists>t. last_quorum_contact n' = Some t \<and>
        env_now env - t < election_timeout_max (config n) \<and>
        (t = prev \<or> majority (voter_set (config n)) (backers (config n) (heard_since n t))))) \<or>
     (role n' = Follower \<and> hard n' = hard n \<and> leader_st n' = None \<and>
        rd_messages (pending_ready n') = rd_messages (pending_ready n) \<and>
        (peers (config n) \<noteq> [] \<longrightarrow> election_timeout_max (config n) \<le> env_now env - prev))"
proof -
  define n1 where "n1 = (case transfer n of
    Some t \<Rightarrow> if env_now env \<ge> lt_deadline t then n\<lparr>transfer := None\<rparr> else n | None \<Rightarrow> n)"
  have n1: "config n1 = config n" "role n1 = Leader" "last_quorum_contact n1 = Some prev" "hard n1 = hard n"
      "pending_ready n1 = pending_ready n" "heard_since n1 = heard_since n"
    using assms(2,3) by (auto simp: n1_def heard_since_def voter_ack_of_def fun_eq_iff split: option.split)
  obtain t where t: "last_quorum_contact (refresh_quorum_contact (env_now env) n1) = Some t"
      "t = prev \<or> majority (voter_set (config n)) (backers (config n) (heard_since n t))"
      "prev \<le> t \<or> peers (config n) = []"
    using refresh_quorum_contact_backed [of n1 prev "env_now env"] assms(1) n1 by auto
  show ?thesis using t n1 assms(2,4)
    by (auto simp: tick_def n1_def [symmetric] quorum_contact_lost_def become_follower_def persist_hard_state_def Let_def)
qed

lemma leader3_facts:
  "config_wf (config leader3)" "role leader3 = Leader" "last_quorum_contact leader3 = Some 430"
  by code_simp+

theorem check_quorum_witness:
  "role (tick mem_ops (at_time 500) leader3) = Leader \<and> role (tick mem_ops (at_time 900) leader3) = Follower \<and>
   hard (tick mem_ops (at_time 900) leader3) = hard leader3"
proof -
  have "role (tick mem_ops (at_time 500) leader3) = Leader" "role (tick mem_ops (at_time 900) leader3) = Follower"
    by code_simp+
  then show ?thesis using check_quorum [OF leader3_facts refl, of mem_ops "at_time 900"] by auto
qed

section \<open>The lease\<close>

lemma settle_moves:
  assumes "settle r s = (a, s')" and "anchor s' \<noteq> anchor s"
  shows "\<exists>at. (r, at) \<in> set (sent s) \<and> anchor s' = Some at \<and> (\<forall>old. anchor s = Some old \<longrightarrow> old < at)"
  using assms by (auto simp: settle_def Let_def dest!: search_round_Some split: option.splits if_splits)

text \<open>
  C15. The lease anchor. When a settle moves the anchor, the new anchor is the send time of a round of
  this term that a majority of the voters, the leader counted, acknowledged or acknowledged a
  later one. The anchor never falls.
\<close>

theorem lease_anchor_backed:
  assumes "config_wf (config n)" and "settle_lease n = (a, n')" and "anchor (lease n') \<noteq> anchor (lease n)"
  shows "\<exists>r at. (r, at) \<in> set (sent (lease n)) \<and> anchor (lease n') = Some at \<and>
     (\<forall>old. anchor (lease n) = Some old \<longrightarrow> old < at) \<and>
     majority (voter_set (config n)) (backers (config n) (\<lambda>p. r \<le> acked_round n p))"
proof -
  let ?k = "quorum (config n) - 1"
  obtain r where k: "?k \<noteq> 0" and r: "nth_highest (?k - 1) (map (acked_round n) (peers (config n))) = Some r"
    and st: "settle r (lease n) = (a, lease n')"
    using assms(2,3) by (auto simp: settle_lease_def Let_def split: if_splits option.splits prod.splits)
  have "?k \<le> length (filter (\<lambda>p. r \<le> acked_round n p) (peers (config n)))"
    using nth_highest_count [OF r] k by (simp add: filter_map o_def)
  from majority_backers [OF assms(1) this] show ?thesis using settle_moves [OF st assms(3)] by blast
qed

text \<open>Leader 1 hears from voter 2 about round 1, sent when it took the lead.\<close>

definition heard3 :: "mem_storage raft_node" where
  "heard3 = record_lease_ack 2 1 445 leader3"

theorem lease_anchor_backed_witness:
  "anchor (lease heard3) = None \<and> anchor (lease (snd (settle_lease heard3))) = Some 430 \<and>
   (\<exists>r at. (r, at) \<in> set (sent (lease heard3)) \<and>
      majority (voter_set (config heard3)) (backers (config heard3) (\<lambda>p. r \<le> acked_round heard3 p)))"
proof -
  have a: "anchor (lease heard3) = None" "anchor (lease (snd (settle_lease heard3))) = Some 430" by code_simp+
  have w: "config_wf (config heard3)" by code_simp
  show ?thesis using lease_anchor_backed [OF w prod.collapse [symmetric]] a by fastforce
qed

text \<open>
  C14. A valid lease fences elections. Take a leader whose lease is valid, and a voter that recorded
  contact from it for a round no older than the anchor. Suppose the voter's clock measures no more
  time since that contact than the leader's clock measures since the anchor, plus the drift
  margin. Then the voter refuses every vote request but a leadership transfer, and neither its
  term nor anything else of it changes.
\<close>

theorem lease_fences_votes:
  assumes "lease_valid drift ldr now" and "peers (config ldr) \<noteq> []" and "anchor (lease ldr) = Some a" and "a \<le> now"
    and "contact v = Some c" and "role v \<in> {Follower, Candidate, Leader}"
    and "election_timeout_min (config v) = election_timeout_min (config ldr)"
    and "env_now env - lc_at c \<le> (now - a) + lease_drift_margin drift (config ldr)"
    and "\<not> rv_transfer req"
  shows "handle_request_vote_at env req v = (\<lparr>rvr_term = term_of v, rvr_vote_granted = False\<rparr>, v)"
proof -
  have "now < a + lease_duration drift (config ldr)"
    using assms(1-3) by (auto simp: lease_valid_def expires_at_def split: if_splits)
  then have "vote_refusal_active v (env_now env)"
    using assms(4,5,7,8) by (auto simp: vote_refusal_active_def lease_duration_def)
  then show ?thesis using assms(6,9) by (simp add: handle_request_vote_at_def Let_def)
qed

text \<open>
  Leader 1 with its no-op committed and a lease anchored at 430; voter 2 took its heartbeat at 440.
\<close>

definition leased3 :: "mem_storage raft_node" where
  "leased3 = exec mem_ops (at_time 445) (RecvAppendResp 2 (ack 1 1 1)) leader3"

definition voter2 :: "mem_storage raft_node" where
  "voter2 = exec mem_ops (at_time 440) (RecvAppend ((append_msg 1 0 0 [entry 1 1] 0)\<lparr>ae_leader_id := 1\<rparr>)) (boot 2 [1, 3])"

definition rival :: request_vote_request where
  "rival = \<lparr>rv_term = 2, rv_candidate_id = 3, rv_last_log_index = 1, rv_last_log_term = 1, rv_group_id = 7,
     rv_transfer = False\<rparr>"

theorem lease_fences_votes_witness:
  "lease_valid (\<lambda>d. d div 10) leased3 560 \<and>
   handle_request_vote_at (at_time 565) rival voter2 = (\<lparr>rvr_term = 1, rvr_vote_granted = False\<rparr>, voter2)"
proof -
  have l: "lease_valid (\<lambda>d. d div 10) leased3 560" "peers (config leased3) \<noteq> []"
    "anchor (lease leased3) = Some 430" "(430::nat) \<le> 560" by code_simp+
  have c: "contact voter2 = Some (the (contact voter2))"
  proof -
    have "contact voter2 \<noteq> None" by code_simp
    then show ?thesis by simp
  qed
  have v: "role voter2 \<in> {Follower, Candidate, Leader}"
    "election_timeout_min (config voter2) = election_timeout_min (config leased3)"
    "env_now (at_time 565) - lc_at (the (contact voter2)) \<le>
       (560 - 430) + lease_drift_margin (\<lambda>d. d div 10) (config leased3)"
    "\<not> rv_transfer rival" "term_of voter2 = 1" by code_simp+
  show ?thesis using lease_fences_votes [OF l c v(1-4)] l(1) v(5) by simp
qed

section \<open>Read index\<close>

lemma ack_count_untracked:
  assumes "track_ok P ls" and "0 < ack_count_for ls p"
  shows "p \<in> P"
proof -
  have "fst ` set (ack_count ls) = P" using assms(1) tracking_wf_same_keys [of ls] by (simp add: track_ok_def)
  then show ?thesis using assms(2) by (force simp: ack_count_for_def get_or_def split: option.splits dest: map_of_SomeD)
qed

text \<open>Counted peers of an older configuration that are all voters now.\<close>

lemma majority_counted:
  assumes "config_wf c" and "distinct ps" and "quorum c - 1 \<le> length (filter P ps)"
    and "\<And>p. p \<in> set ps \<Longrightarrow> P p \<Longrightarrow> p \<in> set (peers c)"
  shows "majority (voter_set c) (backers c P)"
proof (rule majority_backers [OF assms(1)])
  have "length (filter P ps) = card (set (filter P ps))" using distinct_card [of "filter P ps"] assms(2) by simp
  also have "\<dots> \<le> card (set (filter P (peers c)))" using assms(4) by (intro card_mono) auto
  also have "\<dots> \<le> length (filter P (peers c))" by (rule card_length)
  finally show "quorum c - 1 \<le> length (filter P (peers c))" using assms(3) by simp
qed

text \<open>
  C16. The read-index protocol. When a probe that a leader started is confirmed later on the node, the
  node leads in the same term, what was committed when the read began is at most the read index
  and the read index is committed. The read index covers an entry of the leader's own term. The answers
  since the probe started are counted against the quorum of the configuration at the confirmation: they
  come, the leader counted, from a majority of the voters of that configuration, if the leader tracks
  exactly its members and none that was a voter at the start is a learner now; and from a majority of the voters at the start,
  if the quorum has not become smaller in between.
\<close>

theorem read_index_sound:
  assumes "config_wf (config n0)" and "commit_of n0 \<le> last_index (rlog n0)"
    and "leader_st n0 = Some ls0" and "start_read_index env n0 = (Some probe, n1)"
    and "leader_st n = Some ls" and "read_index_confirmed n probe"
  defines "answered \<equiv> \<lambda>p. ack_count_for ls0 p < ack_count_for ls p"
  shows "role n = Leader \<and> term_of n = term_of n0 \<and>
     commit_of n0 \<le> read_index probe \<and> read_index probe \<le> commit_of n \<and>
     (leader_inv n \<and> set (peers (config n0)) \<inter> set (learners (config n)) = {} \<longrightarrow>
        majority (voter_set (config n)) (backers (config n) answered)) \<and>
     (quorum (config n0) \<le> quorum (config n) \<longrightarrow>
        majority (voter_set (config n0)) (backers (config n0) answered)) \<and>
     (read_index probe \<le> last_index (rlog n0) \<longrightarrow> term_at (rlog n0) (read_index probe) = Some (term_of n0))"
proof -
  have p: "probe = \<lparr>read_index = term_read_floor n0, rp_term = term_of n0,
      rp_acks = map (\<lambda>i. (i, ack_count_for ls0 i)) (peers (config n0))\<rparr>"
    using assms(3,4) by (auto simp: start_read_index_def Let_def split: if_splits)
  have q: "quorum (config n) - 1 \<le> length (filter answered (peers (config n0)))"
    using assms(5,6) by (auto simp: answered_def read_index_confirmed_def read_index_status_def p filter_map o_def split: if_splits)
  have now: "majority (voter_set (config n)) (backers (config n) answered)"
    if "leader_inv n" and "set (peers (config n0)) \<inter> set (learners (config n)) = {}"
  proof (rule majority_counted [OF _ _ q])
    have t: "config_wf (config n)" "track_ok (tracked (config n)) ls" using that(1) assms(5) by (simp_all add: leader_inv_def)
    then show "config_wf (config n)" "distinct (peers (config n0))" using assms(1) by (simp_all add: config_wf_def)
    show "x \<in> set (peers (config n))" if "x \<in> set (peers (config n0))" "answered x" for x
      using ack_count_untracked [OF t(2), of x] that \<open>set (peers (config n0)) \<inter> _ = {}\<close> by (auto simp: answered_def)
  qed
  have start: "majority (voter_set (config n0)) (backers (config n0) answered)" if "quorum (config n0) \<le> quorum (config n)"
    by (rule majority_backers [OF assms(1)]) (use q that in linarith)
  have "commit_of n0 \<le> term_read_floor n0 \<and>
      (term_read_floor n0 \<le> last_index (rlog n0) \<longrightarrow> term_at (rlog n0) (term_read_floor n0) = Some (term_of n0))"
    using assms(2) by (auto simp: term_read_floor_def current_term_committed_def Let_def simp del: upt_Suc
        dest!: find_Some_set split: option.split)
  then show ?thesis using assms(5,6) now start
    by (auto simp: read_index_confirmed_def read_index_status_def p split: if_splits)
qed

text \<open>A read on the leased leader, confirmed by voter 2.\<close>

definition read3 :: "mem_storage raft_node" where
  "read3 = exec mem_ops (at_time 460) (RecvAppendResp 2 (ack 1 1 3)) (snd (start_read_index (at_time 450) leased3))"

definition read_run :: "(step_env \<times> node_event) list" where
  "read_run = campaign @ [(at_time 445, RecvAppendResp 2 (ack 1 1 1)), (at_time 450, StartRead),
     (at_time 460, RecvAppendResp 2 (ack 1 1 3))]"

definition probe3 :: read_index_probe where
  "probe3 = the (fst (start_read_index (at_time 450) leased3))"

theorem read_index_sound_witness:
  "role read3 = Leader \<and> commit_of leased3 = 1 \<and> read_index probe3 = 1 \<and>
   majority (voter_set (config read3)) (backers (config read3)
     (\<lambda>p. ack_count_for (the (leader_st leased3)) p < ack_count_for (the (leader_st read3)) p)) \<and>
   majority (voter_set (config leased3)) (backers (config leased3)
     (\<lambda>p. ack_count_for (the (leader_st leased3)) p < ack_count_for (the (leader_st read3)) p))"
proof -
  have "fst (start_read_index (at_time 450) leased3) \<noteq> None" "leader_st leased3 \<noteq> None" "leader_st read3 \<noteq> None"
    by code_simp+
  then have s: "start_read_index (at_time 450) leased3 = (Some probe3, snd (start_read_index (at_time 450) leased3))"
    "leader_st leased3 = Some (the (leader_st leased3))" "leader_st read3 = Some (the (leader_st read3))"
    by (simp_all add: probe3_def prod_eq_iff)
  have h: "config_wf (config leased3)" "commit_of leased3 \<le> last_index (rlog leased3)" "read_index_confirmed read3 probe3"
    "commit_of leased3 = 1" "read_index probe3 = 1" "quorum (config leased3) \<le> quorum (config read3)"
    "learners (config read3) = []" by code_simp+
  have "run_ok index_ok mem_ops read_run (boot 1 [2, 3])" by code_simp
  moreover have "leader_inv (boot 1 [2, 3])" unfolding boot_def by (rule leader_inv_new) code_simp
  ultimately have "leader_inv (run mem_ops read_run (boot 1 [2, 3]))"
    by (intro run_ok_invariant [where P = leader_inv, OF leader_inv_exec])
  then have "leader_inv read3" by (simp add: read_run_def read3_def leased3_def leader3_def run_def)
  then show ?thesis using read_index_sound [OF h(1,2) s(2,1,3) h(3)] h(4-7) by simp
qed

text \<open>
  Why the claim asks about learners. The leader of three voters starts a read; voter 2 is removed, comes
  back as a learner and answers. Its answer counts: the read is confirmed though voter 3, the only other
  voter now, has not answered since it began.
\<close>

definition demoting_run :: "(step_env \<times> node_event) list" where
  "demoting_run = [(at_time 450, StartRead), (at_time 451, RemovePeer 2), (at_time 452, AddLearner 2),
     (at_time 460, RecvAppendResp 2 (ack 1 1 3))]"

definition heard_by3 :: "mem_storage raft_node" where
  "heard_by3 = exec mem_ops (at_time 445) (RecvAppendResp 3 (ack 1 1 2)) leader3"

lemma demoted_voter_counts:
  "read_index_confirmed (run mem_ops demoting_run heard_by3) (the (fst (start_read_index (at_time 450) heard_by3))) \<and>
   peers (config (run mem_ops demoting_run heard_by3)) = [3] \<and>
   ack_count_for (the (leader_st (run mem_ops demoting_run heard_by3))) 3 = ack_count_for (the (leader_st heard_by3)) 3"
  by code_simp

end
