(* ===== verification/Snapshot_Properties.thy ===== *)
theory Snapshot_Properties
  imports Raft_Examples
begin

text \<open>
  Compaction and snapshots (\<open>node/durability.rs\<close>, \<open>node/rpc/install_snapshot.rs\<close>): how far the log
  may be cut, what an adopted boundary moves and keeps, and what a kept suffix does to a vote.
\<close>

section \<open>The end of the log across a boundary move\<close>

lemma apply_snapshot_end:
  assumes "log_wf l" and "apply_snapshot ops l i t = (Inr u, l')"
  shows "last_index l' = max i (last_index l)"
proof (cases "snapshot_index l < i")
  case True
  then have "rl_entries l' = drop (i - snapshot_index l) (rl_entries l)" "snapshot_index l' = i"
    using batch_after_filter_gt [of "snapshot_index l" "rl_entries l" i] assms
    by (auto simp: apply_snapshot_def log_wf_batch Suc_le_eq split: if_splits sum.splits prod.splits)
  then show ?thesis using True
    by (simp add: last_index_wf [OF assms(1)] last_index_wf [OF apply_snapshot_wf [OF assms]])
next
  case False
  then show ?thesis using assms by (auto simp: apply_snapshot_def last_index_wf)
qed

section \<open>Compaction\<close>

abbreviation compaction_bound :: "u64 \<Rightarrow> 's raft_node \<Rightarrow> u64" where
  "compaction_bound requested n \<equiv> (case compaction_ceiling n of Some c \<Rightarrow> min requested c | None \<Rightarrow> requested)"

text \<open>
  C25. Compaction has four outcomes. A request that the ceiling bounds to the boundary or below does
  nothing. A request past what is applied and durably recorded as applied is refused with both
  indices, and nothing changes. A storage error leaves entries and boundary as they were.
  Otherwise the boundary moves to the bounded request, with the term of the entry there; every
  entry above it and the end of the log stay.
\<close>

theorem compaction_outcomes:
  assumes "log_wf (rlog n)" and "compact_log_up_to ops requested n = (r, n')"
    and "b = compaction_bound requested n" and "safe = min (durable_applied n) (applied_of n)"
  shows "(b \<le> snapshot_index (rlog n) \<and> r = Inr False \<and> n' = n) \<or>
     (snapshot_index (rlog n) < b \<and> safe < b \<and> r = Inl (CompactionAheadOfApplied b safe) \<and> n' = n) \<or>
     (snapshot_index (rlog n) < b \<and> b \<le> safe \<and> (\<exists>e. r = Inl e) \<and> rl_entries (rlog n') = rl_entries (rlog n) \<and>
        snapshot_index (rlog n') = snapshot_index (rlog n)) \<or>
     (snapshot_index (rlog n) < b \<and> b \<le> safe \<and> r = Inr True \<and> snapshot_index (rlog n') = b \<and>
        term_at (rlog n) b = Some (snapshot_term (rlog n')) \<and> last_index (rlog n') = last_index (rlog n) \<and>
        (\<forall>i>b. entry_at (rlog n') i = entry_at (rlog n) i) \<and> volatile n' = volatile n)"
proof -
  note c = assms(2) [unfolded compact_log_up_to_def Let_def, folded assms(3,4)]
  show ?thesis
  proof (cases "snapshot_index (rlog n) < b \<and> b \<le> safe \<and> term_at (rlog n) b \<noteq> None")
    case True
    then obtain t q l where t: "term_at (rlog n) b = Some t" and a: "apply_snapshot ops (rlog n) b t = (q, l)"
      by fastforce
    have "b \<le> last_index (rlog n)" using t term_at_None_iff [OF assms(1), of b] by fastforce
    then have li: "last_index l = last_index (rlog n)" if "q = Inr u" for u
      using apply_snapshot_end [OF assms(1) a [unfolded that]] by simp
    show ?thesis
    proof (cases q)
      case (Inl e)
      then show ?thesis using apply_snapshot_failed [OF a [unfolded Inl]] True t a c by auto
    next
      case (Inr u)
      then show ?thesis
        using apply_snapshot_boundary [OF a [unfolded Inr]] apply_snapshot_entry_at [OF assms(1) a] li True t a c
        by auto
    qed
  next
    case False
    then show ?thesis using c by (auto split: if_splits)
  qed
qed

text \<open>The follower of the example when its first two entries are applied and recorded.\<close>

definition saved3 :: "mem_storage raft_node" where
  "saved3 = run mem_ops (take 6 follower_run) (boot 1 [2, 3])"

theorem compaction_outcomes_witness:
  "fst (compact_log_up_to mem_ops 2 saved3) = Inr True \<and>
   snapshot_index (rlog (snd (compact_log_up_to mem_ops 2 saved3))) = 2 \<and>
   last_index (rlog (snd (compact_log_up_to mem_ops 2 saved3))) = 4 \<and>
   compact_log_up_to mem_ops 3 saved3 = (Inl (CompactionAheadOfApplied 3 2), saved3)"
proof -
  have h: "log_wf (rlog saved3)" "fst (compact_log_up_to mem_ops 2 saved3) = Inr True"
    "compaction_bound 2 saved3 = 2" "compaction_bound 3 saved3 = 3" "last_index (rlog saved3) = 4"
    "snapshot_index (rlog saved3) = 0"
    "min (durable_applied saved3) (applied_of saved3) = 2" by code_simp+
  note c = compaction_outcomes [where ops = mem_ops, OF h(1) prod.collapse [symmetric] refl refl]
  show ?thesis using c [of 2] c [of 3] h(2-7) by (auto simp: prod_eq_iff)
qed

section \<open>Adopting a boundary\<close>

lemma save_durable_ok:
  "save_durable_applied_index ops i n = (Inr u, n') \<Longrightarrow>
     \<exists>s. n' = n\<lparr>rlog := (rlog n)\<lparr>rl_storage := s\<rparr>, durable_applied := max (durable_applied n) i\<rparr>"
  by (cases "i \<le> durable_applied n")
    (auto simp: save_durable_applied_index_def max_def split: sum.splits prod.splits
      intro: exI [of _ "rl_storage (rlog n)"])

text \<open>
  C26. Adopting a snapshot at index \<open>idx\<close>. When boundary and applied index both cover \<open>idx\<close> already, the
  call succeeds and changes nothing, whatever the durable applied index is. Otherwise, on success, the
  commit index and the durable applied index cover \<open>idx\<close> and do not fall, and exactly the queued entries
  above \<open>idx\<close> are left. In both cases the boundary and the applied index cover \<open>idx\<close>, the entries above
  the boundary are the ones the log had, and the node invariant holds.
\<close>

theorem adopt_snapshot_outcome:
  assumes "node_inv n" and "adopt_snapshot_boundary ops idx t n = (Inr u, n')"
  defines "covered \<equiv> idx \<le> snapshot_index (rlog n) \<and> idx \<le> applied_of n"
  shows "snapshot_index (rlog n') = max idx (snapshot_index (rlog n)) \<and> applied_of n' = max (applied_of n) idx \<and>
     last_index (rlog n') = max idx (last_index (rlog n)) \<and>
     (\<forall>i > max idx (snapshot_index (rlog n)). entry_at (rlog n') i = entry_at (rlog n) i) \<and>
     (if covered then n' = n
      else commit_of n' = max (commit_of n) idx \<and> durable_applied n' = max (durable_applied n) idx \<and>
        queued n' = filter (\<lambda>e. idx < le_index e) (queued n)) \<and> node_inv n'"
proof -
  have wf: "log_wf (rlog n)" using assms(1) by (simp add: node_inv_def)
  have inv: "node_inv n'"
    using safe_adopt_snapshot [OF safe_step_refl [OF assms(1)], of ops idx t] assms(2)
    by (auto dest: safe_step_inv)
  show ?thesis
  proof (cases "snapshot_index (rlog n) < idx \<or> applied_of n < idx")
    case True
    obtain v l where l: "(if snapshot_index (rlog n) < idx then apply_snapshot ops (rlog n) idx t else (Inr (), rlog n)) = (Inr v, l)"
      and sv: "save_durable_applied_index ops idx (resume_at_boundary idx (n\<lparr>rlog := l\<rparr>)) = (Inr u, n')"
      using assms(2) True by (auto simp: adopt_snapshot_boundary_def Let_def split: if_splits sum.splits prod.splits)
    have "snapshot_index l = max idx (snapshot_index (rlog n)) \<and> last_index l = max idx (last_index (rlog n)) \<and>
      (\<forall>i > max idx (snapshot_index (rlog n)). entry_at l i = entry_at (rlog n) i)"
    proof (cases "snapshot_index (rlog n) < idx")
      case True
      then have a: "apply_snapshot ops (rlog n) idx t = (Inr v, l)" using l by simp
      show ?thesis
        using apply_snapshot_boundary [OF a] apply_snapshot_end [OF wf a] apply_snapshot_entry_at [OF wf a] by simp
    next
      case False
      then show ?thesis using l last_index_wf [OF wf] by simp
    qed
    moreover have "\<not> covered" using True by (auto simp: covered_def)
    ultimately show ?thesis using inv save_durable_ok [OF sv] by (auto simp: resume_at_boundary_def Let_def)
  next
    case False
    then have "covered" by (simp add: covered_def)
    then show ?thesis using False assms(1,2) inv last_index_wf [OF wf] by (auto simp: adopt_snapshot_boundary_def)
  qed
qed

text \<open>A snapshot at 5 on the follower whose log ends at 4; its queue still holds entry 3.\<close>

theorem adopt_snapshot_outcome_witness:
  "fst (adopt_snapshot_boundary mem_ops 5 3 saved3) = Inr () \<and>
   snapshot_index (rlog (snd (adopt_snapshot_boundary mem_ops 5 3 saved3))) = 5 \<and>
   applied_of (snd (adopt_snapshot_boundary mem_ops 5 3 saved3)) = 5 \<and>
   durable_applied (snd (adopt_snapshot_boundary mem_ops 5 3 saved3)) = 5 \<and>
   node_inv (snd (adopt_snapshot_boundary mem_ops 5 3 saved3))"
proof -
  have h: "node_inv saved3" unfolding node_inv_def by code_simp
  have f: "fst (adopt_snapshot_boundary mem_ops 5 3 saved3) = Inr ()" "snapshot_index (rlog saved3) = 0"
    "applied_of saved3 = 2" "durable_applied saved3 = 2" by code_simp+
  show ?thesis using adopt_snapshot_outcome [OF h pair_eqI [OF f(1)]] f by simp
qed

text \<open>
  The comment on the last step of the call says that the durable floor moves with the boundary. When that
  write fails the boundary and the applied index have moved; the same call again reports success, writes
  nothing, and the floor stays below the boundary.
\<close>

lemma adopt_retry_skips_floor:
  assumes "adopt_snapshot_boundary ops idx t n = (Inl e, n')" and "idx \<le> snapshot_index (rlog n')"
  shows "adopt_snapshot_boundary ops idx t n' = (Inr (), n') \<and> durable_applied n' = durable_applied n \<and>
     durable_applied n' < idx"
proof -
  have m: "\<not> (idx \<le> snapshot_index (rlog n) \<and> idx \<le> applied_of n)" using assms(1) by (auto simp: adopt_snapshot_boundary_def)
  obtain r l where l: "(if snapshot_index (rlog n) < idx then apply_snapshot ops (rlog n) idx t else (Inr (), rlog n)) = (r, l)"
    by fastforce
  have "r = Inr ()"
  proof (rule ccontr)
    assume "r \<noteq> Inr ()"
    then obtain e' where e': "r = Inl e'" by (cases r) auto
    then have a: "snapshot_index (rlog n) < idx" "apply_snapshot ops (rlog n) idx t = (Inl e', l)"
      using l by (auto split: if_splits)
    then have "n' = n\<lparr>rlog := l\<rparr>" using assms(1) by (auto simp: adopt_snapshot_boundary_def)
    then show False using apply_snapshot_failed [OF a(2)] a(1) assms(2) by simp
  qed
  then have s: "save_durable_applied_index ops idx (resume_at_boundary idx (n\<lparr>rlog := l\<rparr>)) = (Inl e, n')"
    using assms(1) l m by (auto simp: adopt_snapshot_boundary_def Let_def split: if_splits sum.splits prod.splits)
  then have "durable_applied n' = durable_applied n" "durable_applied n < idx" "applied_of n' = max (applied_of n) idx"
    by (auto simp: save_durable_applied_index_def resume_at_boundary_def Let_def split: if_splits sum.splits prod.splits)
  then show ?thesis using assms(2) by (simp add: adopt_snapshot_boundary_def)
qed

section \<open>A suffix kept across a boundary\<close>

lemma apply_snapshot_suffix:
  assumes "log_wf l" and "apply_snapshot ops l i t = (Inr u, l')" and "snapshot_index l < i" and "i < last_index l"
  shows "snapshot_index l' = i" and "snapshot_term l' = t" and "last_index l' = last_index l" and "last_term l' = last_term l"
proof -
  have l': "rl_entries l' = drop (i - snapshot_index l) (rl_entries l)" "snapshot_index l' = i" "snapshot_term l' = t"
    using batch_after_filter_gt [of "snapshot_index l" "rl_entries l" i] assms(1-3)
    by (auto simp: apply_snapshot_def log_wf_batch Suc_le_eq split: if_splits sum.splits prod.splits)
  then show "snapshot_index l' = i" "snapshot_term l' = t" by simp_all
  show li: "last_index l' = last_index l" using apply_snapshot_end [OF assms(1,2)] assms(4) by simp
  have "i - snapshot_index l < length (rl_entries l)" using assms(3,4) last_index_wf [OF assms(1)] by simp
  then show "last_term l' = last_term l" using l'(1) by (auto simp: last_term_def last_drop)
qed

text \<open>
  C30. An installed snapshot can leave a suffix of another history in the log, and the vote check then
  reads the term of that suffix. Take any node whose log goes past the index of the snapshot, ends in a
  term below the snapshot's, and installs it. It keeps the suffix and the end of the log, and it grants
  its vote to a candidate of a higher term whose last entry is of a term between the two, whatever the
  index of that entry, also one below the snapshot: the candidate lacks what the snapshot covers. The
  node is a voter, and it is not refusing votes because of a recent leader.
\<close>

theorem stale_suffix_vote:
  assumes "log_wf (rlog n)" and "handle_install_snapshot ops env req n = (Inr resp, n')" and "is_done req"
    and "term_of n \<le> is_term req" and "snapshot_index (rlog n) < is_last_included_index req"
    and "is_last_included_index req < last_index (rlog n)"
    and "last_term (rlog n) < rv_last_log_term rv" and "rv_last_log_term rv < is_last_included_term req"
    and "is_term req < rv_term rv" and "role n \<notin> {Learner, Observer}"
    and "rv_transfer rv \<or> \<not> vote_refusal_active n' (env_now env')"
  shows "snapshot_index (rlog n') = is_last_included_index req \<and> snapshot_term (rlog n') = is_last_included_term req \<and>
     (\<forall>i > is_last_included_index req. entry_at (rlog n') i = entry_at (rlog n) i) \<and>
     last_index (rlog n') = last_index (rlog n) \<and> last_term (rlog n') = last_term (rlog n) \<and>
     rvr_vote_granted (fst (handle_request_vote_at env' rv n'))"
proof -
  define n2 where "n2 = reset_election_timeout env
    ((if is_term req > term_of n then become_follower env (is_term req) n else n)\<lparr>leader_id := is_leader_id req\<rparr>)"
  have n2: "rlog n2 = rlog n" "term_of n2 = is_term req" "role n2 \<notin> {Learner, Observer}"
    using assms(4,10) by (auto simp: n2_def become_follower_def Let_def split: node_role.splits)
  obtain u where ad: "adopt_snapshot_boundary ops (is_last_included_index req) (is_last_included_term req) n2 = (Inr u, n')"
    using assms(2-4) by (auto simp: handle_install_snapshot_def Let_def n2_def split: if_splits sum.splits prod.splits)
  then obtain v l where l: "apply_snapshot ops (rlog n) (is_last_included_index req) (is_last_included_term req) = (Inr v, l)"
    and sv: "save_durable_applied_index ops (is_last_included_index req) (resume_at_boundary (is_last_included_index req) (n2\<lparr>rlog := l\<rparr>)) = (Inr u, n')"
    using assms(5) n2(1) by (auto simp: adopt_snapshot_boundary_def Let_def split: if_splits sum.splits prod.splits)
  note x = apply_snapshot_suffix [OF assms(1) l assms(5,6)] and e = apply_snapshot_entry_at [OF assms(1) l]
  obtain s where n': "n' = (resume_at_boundary (is_last_included_index req) (n2\<lparr>rlog := l\<rparr>))
      \<lparr>rlog := l\<lparr>rl_storage := s\<rparr>, durable_applied := max (durable_applied n2) (is_last_included_index req)\<rparr>"
    using save_durable_ok [OF sv] by (auto simp: resume_at_boundary_def Let_def)
  then have f: "role n' = role n2" "term_of n' = is_term req" "rlog n' = l\<lparr>rl_storage := s\<rparr>"
    using n2(2) by (simp_all add: resume_at_boundary_def Let_def)
  have "rvr_vote_granted (fst (handle_request_vote_at env' rv n'))"
    using assms(7,9,11) n2(3) f x(4)
    by (auto simp: handle_request_vote_at_def Let_def log_ok_def become_follower_def split: node_role.splits)
  then show ?thesis using x e f by simp
qed

text \<open>
  A follower holds entries 1 to 4 of term 2. The leader of term 5 compacted its log at 2, where its
  entry has term 5, and sends the snapshot. A candidate of term 6 whose log ends at index 1 in term 3
  then gets its vote.
\<close>

definition stale_before :: "mem_storage raft_node" where
  "stale_before = run mem_ops [(at_time 10, RecvAppend (append_msg 2 0 0 [entry 2 1, entry 2 2, entry 2 3, entry 2 4] 0))] (boot 1 [2, 3])"

definition stale_snapshot :: install_snapshot_request where
  "stale_snapshot = \<lparr>is_term = 5, is_leader_id = 3, is_last_included_index = 2, is_last_included_term = 5,
     is_offset = 0, is_data = [], is_done = True, is_group_id = 7, is_total_size = 0,
     is_voters = [1, 2, 3], is_learners = []\<rparr>"

definition stale_after :: "mem_storage raft_node" where
  "stale_after = snd (handle_install_snapshot mem_ops (at_time 20) stale_snapshot stale_before)"

definition behind :: request_vote_request where
  "behind = \<lparr>rv_term = 6, rv_candidate_id = 2, rv_last_log_index = 1, rv_last_log_term = 3, rv_group_id = 7,
     rv_transfer = False\<rparr>"

theorem stale_suffix_vote_witness:
  "snapshot_index (rlog stale_after) = 2 \<and> snapshot_term (rlog stale_after) = 5 \<and> last_term (rlog stale_after) = 2 \<and>
   rv_last_log_index behind < 2 \<and> rv_last_log_term behind < 5 \<and>
   rvr_vote_granted (fst (handle_request_vote_at (at_time 500) behind stale_after))"
proof -
  have h: "log_wf (rlog stale_before)" "is_done stale_snapshot" "term_of stale_before \<le> is_term stale_snapshot"
    "snapshot_index (rlog stale_before) < is_last_included_index stale_snapshot"
    "is_last_included_index stale_snapshot < last_index (rlog stale_before)"
    "last_term (rlog stale_before) < rv_last_log_term behind" "rv_last_log_term behind < is_last_included_term stale_snapshot"
    "is_term stale_snapshot < rv_term behind" "role stale_before \<notin> {Learner, Observer}"
    "rv_transfer behind \<or> \<not> vote_refusal_active stale_after (env_now (at_time 500))" "last_term (rlog stale_before) = 2"
    "fst (handle_install_snapshot mem_ops (at_time 20) stale_snapshot stale_before) = Inr \<lparr>isr_term = 5\<rparr>" by code_simp+
  have i: "handle_install_snapshot mem_ops (at_time 20) stale_snapshot stale_before = (Inr \<lparr>isr_term = 5\<rparr>, stale_after)"
    unfolding stale_after_def by (rule pair_eqI [OF h(12)])
  show ?thesis using stale_suffix_vote [OF h(1) i h(2-10)] h(11) by (simp add: stale_snapshot_def behind_def)
qed

end
