(* ===== verification/Replication_Properties.thy ===== *)
theory Replication_Properties
  imports Raft_Examples Raft_Tracking
begin

text \<open>
  Replication to one peer (\<open>node/internal.rs\<close>, \<open>node/rpc/append_entries.rs\<close>): the search for the
  point where two logs agree ends, and the leader's per-peer indices stay consistent.
\<close>

section \<open>Rejections\<close>

lemma back_off_bounds:
  "matched < u64_max \<Longrightarrow> matched + 1 \<le> back_off x next matched"
  "matched < u64_max \<Longrightarrow> back_off x next matched \<le> max (matched + 1) (next - 1)"
  by (auto simp: back_off_def sat_add_u64_def Let_def)

text \<open>A rejection of this term from a replication peer that can resume from its log.\<close>

definition rejects :: "'s raft_node \<Rightarrow> node_id \<Rightarrow> append_entries_response \<Rightarrow> bool" where
  "rejects n peer resp \<longleftrightarrow> aer_term resp = term_of n \<and> \<not> aer_success resp \<and> \<not> wants_snapshot (aer_replica resp) \<and>
     peer \<notin> set (observers (config n))"

lemma rejection_leader_state:
  assumes "role n = Leader" and "leader_st n = Some ls" and "rejects n peer resp"
  shows "leader_st (handle_append_entries_response ops env peer resp n) =
     Some (set_next_index peer (back_off (aer_last_log_index resp) (next_index_for ls peer) (ls_match_index_for ls peer))
       (note_answer peer (aer_replica resp) ls))"
  using assms by (simp add: handle_append_entries_response_def rejects_def peer_rejection_def note_answer_def Let_def)

lemma rejection_frame:
  assumes "role n = Leader" and "leader_st n = Some ls" and "rejects n peer resp"
  shows "role (handle_append_entries_response ops env peer resp n) = Leader \<and>
     hard (handle_append_entries_response ops env peer resp n) = hard n \<and>
     config (handle_append_entries_response ops env peer resp n) = config n"
  using assms by (simp add: handle_append_entries_response_def rejects_def peer_rejection_def peer_contact_def Let_def)

lemma note_answer_indices [simp]:
  "next_index_for (note_answer p st ls) q = next_index_for ls q"
  "ls_match_index_for (note_answer p st ls) q = ls_match_index_for ls q"
  "ls_peers (note_answer p st ls) = ls_peers ls" "tracking_wf (note_answer p st ls) = tracking_wf ls"
  by (simp_all add: note_answer_def Let_def)

text \<open>The request that answers a rejection starts at the new next index, or a snapshot is due.\<close>

definition resent :: "node_id \<Rightarrow> u64 \<Rightarrow> 's raft_node \<Rightarrow> bool" where
  "resent peer next n \<longleftrightarrow> peer \<in> set (rd_snapshots_needed (pending_ready n)) \<or>
     (\<exists>req. (peer, req) \<in> set (rd_messages (pending_ready n)) \<and> ae_prev_log_index req = next - 1)"

lemma resent_try_emit [simp]: "resent peer next (try_emit_timeout_now n) = resent peer next n"
  by (simp add: resent_def try_emit_timeout_now_def split: option.split)

lemma resent_push [simp]:
  "resent peer next (push_snapshot_needed peer n)"
  "ae_prev_log_index req = next - 1 \<Longrightarrow> resent peer next (push_message peer req n)"
  by (auto simp: resent_def push_snapshot_needed_def push_message_def)

lemma resent_send:
  "leader_st n = Some ls \<Longrightarrow> resent peer (next_index_for ls peer) (send_append_entries env peer n)"
  by (simp add: send_append_entries_def append_request_def Let_def split: option.split prod.split)

lemma rejection_resent:
  assumes "role n = Leader" and "leader_st n = Some ls" and "rejects n peer resp" and "peer \<in> set (ls_peers ls)"
  shows "resent peer (back_off (aer_last_log_index resp) (next_index_for ls peer) (ls_match_index_for ls peer))
     (handle_append_entries_response ops env peer resp n)"
proof -
  let ?b = "back_off (aer_last_log_index resp) (next_index_for ls peer) (ls_match_index_for ls peer)"
  let ?ls = "set_next_index peer ?b (note_answer peer (aer_replica resp) ls)"
  have "resent peer (next_index_for ?ls peer) (send_append_entries env peer (m\<lparr>leader_st := Some ?ls\<rparr>))"
    for m :: "'a raft_node"
    by (rule resent_send) simp
  then show ?thesis using assms
    by (simp add: handle_append_entries_response_def rejects_def peer_rejection_def Let_def)
qed

text \<open>
  C20. The search for the common prefix ends. However a follower answers, as long as it rejects, each
  rejection moves its next index down by at least one until it is just past what is known to
  match, and never below that; what is known to match stays. After \<open>next - match - 1\<close> rejections
  the next request starts right after the matched prefix. Every rejection is answered with a
  request at the new index or with a snapshot.
\<close>

theorem rejections_converge:
  assumes "role n = Leader" and "leader_st n = Some ls" and "peer \<in> set (ls_peers ls)" and "tracking_wf ls"
    and "ls_match_index_for ls peer < u64_max" and "\<forall>(env, resp) \<in> set rs. rejects n peer resp"
    and n'_def: "n' = fold (\<lambda>(env, resp). handle_append_entries_response ops env peer resp) rs n"
  shows "\<exists>ls'. leader_st n' = Some ls' \<and> ls_match_index_for ls' peer = ls_match_index_for ls peer \<and>
     next_index_for ls' peer \<le> max (ls_match_index_for ls peer + 1) (next_index_for ls peer - length rs) \<and>
     (rs \<noteq> [] \<longrightarrow> ls_match_index_for ls peer < next_index_for ls' peer \<and> resent peer (next_index_for ls' peer) n')"
proof -
  let ?run = "\<lambda>rs. fold (\<lambda>(env, resp). handle_append_entries_response ops env peer resp) rs n"
  let ?m = "ls_match_index_for ls peer"
  have "role (?run rs) = Leader \<and> hard (?run rs) = hard n \<and> config (?run rs) = config n \<and>
     (\<exists>ls'. leader_st (?run rs) = Some ls' \<and> peer \<in> set (ls_peers ls') \<and> tracking_wf ls' \<and>
        ls_match_index_for ls' peer = ?m \<and>
        next_index_for ls' peer \<le> max (?m + 1) (next_index_for ls peer - length rs) \<and>
        (rs \<noteq> [] \<longrightarrow> ?m < next_index_for ls' peer \<and> resent peer (next_index_for ls' peer) (?run rs)))"
    using assms(6)
  proof (induction rs rule: rev_induct)
    case (snoc x rs)
    obtain env resp where x: "x = (env, resp)" by fastforce
    obtain ls1 where l: "leader_st (?run rs) = Some ls1" "role (?run rs) = Leader" "peer \<in> set (ls_peers ls1)"
        "tracking_wf ls1" "ls_match_index_for ls1 peer = ?m"
        "next_index_for ls1 peer \<le> max (?m + 1) (next_index_for ls peer - length rs)"
      and f: "hard (?run rs) = hard n" "config (?run rs) = config n" using snoc by auto
    have r: "rejects (?run rs) peer resp" using snoc.prems x f by (simp add: rejects_def)
    note b = back_off_bounds [OF assms(5), of "aer_last_log_index resp" "next_index_for ls1 peer"]
    show ?case
      using rejection_leader_state [OF l(2,1) r, of ops env] rejection_frame [OF l(2,1) r, of ops env]
        rejection_resent [OF l(2,1) r l(3), of ops env] b l f by (auto simp: x)
  qed (use assms in auto)
  then show ?thesis unfolding n'_def by blast
qed

text \<open>Leader 1 and peer 3, whose empty log rejects a request far past its end.\<close>

definition no3 :: append_entries_response where
  "no3 = (ack 1 0 0)\<lparr>aer_success := False\<rparr>"

definition grown3 :: "mem_storage raft_node" where
  "grown3 = leader3\<lparr>leader_st := map_option (set_next_index 3 9) (leader_st leader3)\<rparr>"

theorem rejections_converge_witness:
  "\<exists>ls'. leader_st (handle_append_entries_response mem_ops (at_time 450) 3 no3 grown3) = Some ls' \<and>
     ls_match_index_for ls' 3 = 0 \<and> next_index_for ls' 3 \<le> 8 \<and>
     resent 3 (next_index_for ls' 3) (handle_append_entries_response mem_ops (at_time 450) 3 no3 grown3)"
proof -
  let ?ls = "the (leader_st grown3)"
  have "leader_st grown3 \<noteq> None" by code_simp
  then have l: "leader_st grown3 = Some ?ls" by simp
  have h: "role grown3 = Leader" "3 \<in> set (ls_peers ?ls)" "tracking_wf ?ls" "ls_match_index_for ?ls 3 < u64_max"
    "\<forall>(env, resp) \<in> set [(at_time 450, no3)]. rejects grown3 3 resp"
    "ls_match_index_for ?ls 3 = 0" "next_index_for ?ls 3 = 9" by code_simp+
  show ?thesis using rejections_converge [OF h(1) l h(2-5) refl, of mem_ops] h(6,7) by auto
qed

section \<open>Tracking\<close>

text \<open>
  C19. What a leader tracks. After any run from boot, through elections, membership changes, snapshots
  and replies in any order, leader state exists exactly while the node leads. It tracks exactly
  the voters and learners of the configuration, each once, and for each of them the next index to
  send is past the index known to match. The configuration has no voter twice, no voter that is
  also a learner, and not the node itself.
\<close>

theorem leader_tracking:
  assumes "config_wf cfg" and "run_ok index_ok ops evs (node_new env cfg s)"
    and "n = run ops evs (node_new env cfg s)"
  shows "config_wf (config n) \<and> (leader_st n \<noteq> None \<longleftrightarrow> role n = Leader) \<and>
     (\<forall>ls. leader_st n = Some ls \<longrightarrow> distinct (ls_peers ls) \<and>
        set (ls_peers ls) = set (peers (config n)) \<union> set (learners (config n)) \<and>
        (\<forall>p \<in> set (ls_peers ls). ls_match_index_for ls p < next_index_for ls p))"
proof -
  have "leader_inv n" unfolding assms(3)
    by (rule run_ok_invariant [where P = leader_inv, OF _ assms(2) leader_inv_new [OF assms(1)]])
      (rule leader_inv_exec)
  then show ?thesis
    by (cases "leader_st n") (auto simp: leader_inv_def track_ok_def ahead_def tracking_wf_def ls_peers_def)
qed

text \<open>The leader of the example adds voter 4 and learner 5, and hears from voter 2.\<close>

definition member_run :: "(step_env \<times> node_event) list" where
  "member_run = campaign @ [(at_time 440, AddPeer 4), (at_time 440, AddLearner 5),
     (at_time 445, RecvAppendResp 2 (ack 1 1 1)), (at_time 446, RemovePeer 3)]"

definition member3 :: "mem_storage raft_node" where
  "member3 = run mem_ops member_run (node_new (at_time 0) (config_of 1 [2, 3]) mem_storage_new)"

theorem leader_tracking_witness:
  "role member3 = Leader \<and> peers (config member3) = [2, 4] \<and> learners (config member3) = [5] \<and>
   set (ls_peers (the (leader_st member3))) = {2, 4, 5}"
proof -
  have h: "config_wf (config_of 1 [2, 3])"
    "run_ok index_ok mem_ops member_run (node_new (at_time 0) (config_of 1 [2, 3]) mem_storage_new)"
    "role member3 = Leader" "peers (config member3) = [2, 4]" "learners (config member3) = [5]" by code_simp+
  show ?thesis using leader_tracking [OF h(1,2) member3_def] h(3-5) by auto
qed

end
