(* ===== verification/Membership_Properties.thy ===== *)
theory Membership_Properties
  imports Raft_Examples Raft_Tracking
begin

text \<open>
  Membership changes and the hand-over of leadership (\<open>node/membership.rs\<close>,
  \<open>node/rpc/timeout_now.rs\<close>): quorums before and after a change share a voter, and a transfer asks
  a caught-up voter to stand, once.
\<close>

section \<open>Single-server changes\<close>

lemma majorities_meet_step:
  assumes "finite V" and "W = insert p V \<or> W = V - {p}" and "majority V Q" and "majority W R"
  shows "Q \<inter> R \<noteq> {}"
proof -
  have "finite W" using assms(1,2) by auto
  moreover have "card (V \<union> W) < card Q + card R"
  proof (cases "V = W")
    case True
    then show ?thesis using assms(3,4) by (auto simp: majority_def)
  next
    case False
    then have "(p \<notin> V \<and> W = insert p V) \<or> (p \<in> V \<and> W = V - {p})" using assms(2) by auto
    moreover have "V \<union> (V - {p}) = V" by blast
    ultimately show ?thesis using assms(1,3,4)
      by (auto simp: majority_def insert_absorb Un_insert_right)
  qed
  ultimately show ?thesis using card_sum_meet [of "V \<union> W" Q R] assms(1,3,4) by (auto simp: majority_def)
qed

lemma member_change_voters:
  assumes "config_wf (config n)" and "p \<noteq> node_id (config n)"
  shows "voter_set (config (add_peer p n)) \<in> {voter_set (config n), insert p (voter_set (config n))}"
    and "voter_set (config (remove_peer p n)) = voter_set (config n) - {p}"
    and "voter_set (config (snd (promote_learner p n))) \<in> {voter_set (config n), insert p (voter_set (config n))}"
  using assms
  by (auto simp: add_peer_def remove_peer_def promote_learner_def set_voters_def voter_set_def Let_def config_wf_def)

text \<open>
  C21. Membership changes one voter at a time. The voter set before and the voter set after adding a
  voter, removing one, or promoting a learner differ in at most that one node, so a majority of
  the old set and a majority of the new set always share a voter.
\<close>

theorem membership_quorums_meet:
  assumes "config_wf (config n)" and "p \<noteq> node_id (config n)"
    and "m \<in> {add_peer p n, remove_peer p n, snd (promote_learner p n)}"
    and "majority (voter_set (config n)) Q" and "majority (voter_set (config m)) R"
  shows "Q \<inter> R \<noteq> {}"
proof -
  have f: "finite (voter_set (config n))" by (simp add: voter_set_def)
  have "voter_set (config m) = insert p (voter_set (config n)) \<or> voter_set (config m) = voter_set (config n) - {p} \<or>
      voter_set (config m) = voter_set (config n)"
    using member_change_voters [OF assms(1,2)] assms(3) by auto
  then show ?thesis using majorities_meet_step [OF f _ assms(4,5)]
    by (metis insert_absorb Diff_insert_absorb Diff_empty Diff_insert0)
qed

theorem membership_quorums_meet_witness:
  "{1, 2} \<inter> {2, 3, 4} \<noteq> {} \<and> voter_set (config (add_peer 4 leader3)) = {1, 2, 3, 4::nat}"
proof -
  have h: "config_wf (config leader3)" "4 \<noteq> node_id (config leader3)"
    "voter_set (config leader3) = {1, 2, 3}" "voter_set (config (add_peer 4 leader3)) = {1, 2, 3, 4}" by code_simp+
  have "majority (voter_set (config leader3)) {1, 2}" "majority (voter_set (config (add_peer 4 leader3))) {2, 3, 4}"
    unfolding h by (simp_all add: majority_def)
  then show ?thesis using membership_quorums_meet [OF h(1,2), of "add_peer 4 leader3"] h(4) by blast
qed

section \<open>Leadership transfer\<close>

text \<open>
  C22. A leader that starts a transfer stops serving. It leads, the target is one of its voters, its
  lease is no longer valid at any time, and it refuses every proposal until the transfer ends. It
  asks the target to stand exactly when the target holds the whole log, with one message, and asks
  only once: trying again changes nothing.
\<close>

theorem transfer_fences:
  assumes "transfer n = None" and "transfer_leadership env t n = (Inr u, n')"
  shows "role n = Leader \<and> t \<in> set (peers (config n)) \<and> t \<noteq> node_id (config n) \<and> transfer n' \<noteq> None \<and>
     \<not> lease_valid drift n' now \<and> propose ops env' d n' = (Inl LeadershipTransferInProgress, n') \<and>
     rd_timeout_now (pending_ready n') = rd_timeout_now (pending_ready n) @
       (if match_index_for n t = Some (last_index (rlog n))
        then [(t, \<lparr>tn_term = term_of n, tn_leader_id = node_id (config n), tn_group_id = group_id (config n)\<rparr>)]
        else []) \<and>
     try_emit_timeout_now n' = n'"
proof -
  let ?n = "n\<lparr>transfer := Some \<lparr>lt_target = t, lt_emitted = False,
    lt_deadline = env_now env + election_timeout_max (config n)\<rparr>, lease := revoke (lease n)\<rparr>"
  have l: "role n = Leader" "t \<in> set (peers (config n))" "t \<noteq> node_id (config n)" and n': "n' = try_emit_timeout_now ?n"
    using assms by (auto simp: transfer_leadership_def Let_def split: if_splits)
  have m: "match_index_for ?n p = match_index_for n p" for p by (simp add: match_index_for_def)
  have k: "transfer n' \<noteq> None" "role n' = Leader" using l by (auto simp: n' try_emit_timeout_now_def)
  then have "\<not> lease_valid drift n' now" "propose ops env' d n' = (Inl LeadershipTransferInProgress, n')"
    by (simp_all add: lease_valid_def propose_def)
  moreover have "rd_timeout_now (pending_ready n') = rd_timeout_now (pending_ready n) @
      (if match_index_for n t = Some (last_index (rlog n))
       then [(t, \<lparr>tn_term = term_of n, tn_leader_id = node_id (config n), tn_group_id = group_id (config n)\<rparr>)] else [])"
    by (simp add: n' try_emit_timeout_now_def m)
  moreover have "try_emit_timeout_now n' = n'"
    by (cases "match_index_for n t = Some (last_index (rlog n))") (simp_all add: n' try_emit_timeout_now_def m)
  ultimately show ?thesis using l k by blast
qed

theorem transfer_fences_witness:
  "propose mem_ops (at_time 460) [5] (snd (transfer_leadership (at_time 450) 2 leader3)) =
     (Inl LeadershipTransferInProgress, snd (transfer_leadership (at_time 450) 2 leader3)) \<and>
   rd_timeout_now (pending_ready (snd (transfer_leadership (at_time 450) 2 leader3))) = []"
proof -
  have h: "transfer leader3 = None" "fst (transfer_leadership (at_time 450) 2 leader3) = Inr ()"
    "match_index_for leader3 2 \<noteq> Some (last_index (rlog leader3))" "rd_timeout_now (pending_ready leader3) = []"
    by code_simp+
  show ?thesis using transfer_fences [OF h(1) pair_eqI [OF h(2)]] h(3,4) by simp
qed

end
