(* ===== verification/Apply_Properties.thy ===== *)
theory Apply_Properties
  imports Raft_Examples
begin

text \<open>
  The hand-over of committed entries (\<open>raft_loop/tick/apply_committed.rs\<close>,
  \<open>control/distributed_applier/applier.rs\<close>): what an accepted batch delivers, and what happens to a
  batch that the apply window or the channel refuses.
\<close>

section \<open>When the queue grows\<close>

definition queue_waits :: "'s raft_node \<Rightarrow> 's raft_node \<Rightarrow> bool" where
  "queue_waits m n \<longleftrightarrow> commit_of m \<le> commit_of n \<and> applied_of n = applied_of m \<and>
     (commit_of n = commit_of m \<longrightarrow> queued n = queued m)"

lemma queue_waits_trans: "queue_waits a b \<Longrightarrow> queue_waits b c \<Longrightarrow> queue_waits a c"
  by (auto simp: queue_waits_def)

lemma queue_waits_same: "volatile n = volatile m \<Longrightarrow> queued n = queued m \<Longrightarrow> queue_waits m n"
  by (simp add: queue_waits_def)

lemma queue_waits_advance: "queue_waits n (try_advance_commit_index ops n)"
  by (auto simp: queue_waits_def try_advance_commit_index_def dest!: find_Some_set split: option.split)

lemma queue_waits_become_leader: "queue_waits n (become_leader ops env n)"
proof -
  let ?t = "take_lead ops env n" and ?a = "try_advance_commit_index ops (take_lead ops env n)"
  have t: "queue_waits n ?t" by (rule queue_waits_same) simp_all
  have a: "queue_waits n ?a" by (rule queue_waits_trans [OF t queue_waits_advance])
  have "queue_waits n (replicate_to_all env ?t)" by (rule queue_waits_trans [OF t queue_waits_same]) simp_all
  moreover have "queue_waits n (replicate_to_all env ?a)" by (rule queue_waits_trans [OF a queue_waits_same]) simp_all
  ultimately show ?thesis by (simp add: become_leader_def Let_def)
qed

lemma queue_waits_start_election: "queue_waits n (start_election ops env n)"
proof -
  let ?c = "reset_election_timeout env (persist_hard_state (n\<lparr>pre_vote := None,
    hard := \<lparr>current_term = wrap_add_u64 (term_of n) 1, voted_for = node_id (config n)\<rparr>,
    role := Candidate, votes_received := {}, leader_id := 0\<rparr>))"
  have c: "queue_waits n ?c" by (rule queue_waits_same) simp_all
  have "queue_waits n (become_leader ops env ?c)" by (rule queue_waits_trans [OF c queue_waits_become_leader])
  then show ?thesis
    by (auto simp: start_election_def Let_def intro: queue_waits_same)
qed

lemma queue_waits_tick: "queue_waits n (tick ops env n)"
  by (auto simp: tick_def start_pre_election_def Let_def
      intro: queue_waits_start_election queue_waits_same split: node_role.split option.split)

lemma queue_waits_group_tick:
  assumes "group_tick ops env n = (Inr r, n')"
  shows "commit_of n \<le> commit_of n' \<and> applied_of n' = applied_of n \<and>
     (commit_of n' = commit_of n \<longrightarrow> rd_committed_entries r = queued n)"
proof -
  let ?t = "tick ops env (on_storage_progress ops n)"
  have "queue_waits n (on_storage_progress ops n)"
    by (simp add: on_storage_progress_def queue_waits_advance queue_waits_same)
  from queue_waits_trans [OF this queue_waits_tick] have "queue_waits n ?t" .
  moreover have "volatile n' = volatile ?t" "rd_committed_entries r = queued ?t"
    using assms by (auto simp: group_tick_def persist_hard_state_if_dirty_def take_ready_def Let_def
        split: sum.splits prod.splits if_splits)
  ultimately show ?thesis by (auto simp: queue_waits_def)
qed

section \<open>Accepted and refused batches\<close>

lemma apply_group_commits_open:
  assumes "batch_inv n b" and "watermark_of g a \<le> applied_of n" and es: "es = filter (\<lambda>e. applied_of n < le_index e) b"
  shows "apply_group_commits True True w c g b (n, a) =
     (if es = [] then (n, a)
      else if w \<and> c then (advance_applied (applied_of n + length es) n,
        a\<lparr>ap_delivered := (ap_delivered a)(g \<mapsto> applied_of n + length es), ap_sent := ap_sent a @ [(g, es)]\<rparr>)
      else (n, a\<lparr>ap_delivered := (ap_delivered a)(g \<mapsto> applied_of n)\<rparr>))"
proof -
  have "batch_after (applied_of n) es" using assms(1) by (simp add: es batch_inv_def)
  from apply_committed_batch [OF this _ assms(2), of w c] show ?thesis
    by (auto simp: apply_group_commits_def admit_batch_eq [OF assms(1)] es [symmetric] Let_def)
qed

text \<open>
  C28. An accepted batch is delivered whole. When the gate is open, the membership changes are saved
  and window and channel take the batch, what is appended to the hand-over are exactly the entries
  of the batch above the applied index, in order and without a gap, and the applied index moves to
  the last of them.
\<close>

theorem accepted_batch_delivered:
  assumes "batch_inv n b" and "watermark_of g a \<le> applied_of n" and "\<exists>e\<in>set b. applied_of n < le_index e"
    and "apply_group_commits True True True True g b (n, a) = (n', a')"
    and es_def: "es = filter (\<lambda>e. applied_of n < le_index e) b"
  shows "handed g a' = handed g a @ es \<and> batch_after (applied_of n) es \<and>
     applied_of n' = applied_of n + length es \<and> applied_of n < applied_of n'"
proof -
  have ne: "es \<noteq> []" using assms(3) by (auto simp: es_def filter_empty_conv)
  moreover have "batch_after (applied_of n) es" using assms(1) by (simp add: es_def batch_inv_def)
  ultimately show ?thesis using apply_group_commits_open [OF assms(1,2) es_def, of True True] assms(4)
    by (auto simp: advance_applied_def)
qed

theorem accepted_batch_delivered_witness:
  "handed 7 (snd solo_apply) = [entry 1 1] \<and> applied_of (fst solo_apply) = 1"
proof -
  have h: "batch_inv (dg_node solo1) (the (dg_batch solo1))" unfolding batch_inv_def by code_simp
  have w: "watermark_of 7 (dg_applier solo1) \<le> applied_of (dg_node solo1)"
    "\<exists>e\<in>set (the (dg_batch solo1)). applied_of (dg_node solo1) < le_index e"
    "filter (\<lambda>e. applied_of (dg_node solo1) < le_index e) (the (dg_batch solo1)) = [entry 1 1]"
    "applied_of (dg_node solo1) = 0" "handed 7 (dg_applier solo1) = []" by code_simp+
  have "apply_group_commits True True True True 7 (the (dg_batch solo1)) (dg_node solo1, dg_applier solo1) =
      (fst solo_apply, snd solo_apply)" by (simp add: solo_apply_def)
  from accepted_batch_delivered [OF h w(1,2) this refl] show ?thesis using w(3-5) by simp
qed

text \<open>
  C29. A refused batch waits for the next commit, not for the next tick. When the apply window or
  the channel refuses a batch that has entries above the applied index, the node is unchanged.
  The next tick of the group then delivers none of them as long as the commit index stays where it
  is, although they are committed and not applied.
\<close>

theorem refused_batch_waits:
  assumes "batch_inv n b" and "watermark_of g a \<le> applied_of n" and "queued n = []"
    and "\<not> (window \<and> channel)" and "apply_group_commits True True window channel g b (n, a) = (n1, a1)"
    and "group_tick ops env n1 = (Inr r, n2)" and "commit_of n2 = commit_of n"
  shows "n1 = n \<and> handed g a1 = handed g a \<and> rd_committed_entries r = [] \<and> applied_of n2 = applied_of n"
proof -
  have h: "n1 = n \<and> handed g a1 = handed g a"
    using apply_group_commits_open [OF assms(1,2) refl, of window channel] assms(4,5)
    by (auto simp: handed_def split: if_splits)
  then show ?thesis using queue_waits_group_tick [OF assms(6)] assms(3,7) by simp
qed

text \<open>The single voter whose window is full when its first batch arrives, and its next tick.\<close>

definition solo_refused :: "mem_storage raft_node \<times> applier" where
  "solo_refused = apply_group_commits True True False True 7 (the (dg_batch solo1)) (dg_node solo1, dg_applier solo1)"

definition solo_next :: "ready result \<times> mem_storage raft_node" where
  "solo_next = group_tick mem_ops (at_time 450) (fst solo_refused)"

theorem refused_batch_waits_witness:
  "handed 7 (snd solo_refused) = [] \<and> rd_committed_entries (projr (fst solo_next)) = [] \<and>
   applied_of (snd solo_next) = 0 \<and> commit_of (snd solo_next) = 1"
proof -
  have h: "batch_inv (dg_node solo1) (the (dg_batch solo1))" unfolding batch_inv_def by code_simp
  have w: "watermark_of 7 (dg_applier solo1) \<le> applied_of (dg_node solo1)" "queued (dg_node solo1) = []"
    "commit_of (snd solo_next) = commit_of (dg_node solo1)" "commit_of (dg_node solo1) = 1"
    "applied_of (dg_node solo1) = 0" "handed 7 (dg_applier solo1) = []" "\<not> isl (fst solo_next)" by code_simp+
  have a: "apply_group_commits True True False True 7 (the (dg_batch solo1)) (dg_node solo1, dg_applier solo1) =
      (fst solo_refused, snd solo_refused)" by (simp add: solo_refused_def)
  have t: "group_tick mem_ops (at_time 450) (fst solo_refused) = (Inr (projr (fst solo_next)), snd solo_next)"
    using w(7) by (simp add: solo_next_def prod_eq_iff)
  show ?thesis using refused_batch_waits [OF h w(1,2) _ a t w(3)] w(3-6) by simp
qed

end
