(* ===== verification/Byte_Codec.thy ===== *)
theory Byte_Codec
  imports Prelude
begin

text \<open>
  Wire formats: the contract of an encoder with its decoder as a locale, and the big-endian and
  little-endian integer conversions of the Rust standard library (\<open>to_be_bytes\<close> and its kin) with
  the facts the formats rest on.
\<close>

unbundle bit_operations_syntax

section \<open>Encoders and decoders\<close>

text \<open>
  \<open>dec\<close> accepts exactly what \<open>enc\<close> writes: it returns what was encoded, and the bytes it accepts
  are the encoding of what it returns.
\<close>

locale exact_codec =
  fixes enc :: "'a \<Rightarrow> 'e + byte list" and dec :: "byte list \<Rightarrow> 'e + 'a"
  assumes round_trip: "enc x = Inr bs \<Longrightarrow> dec bs = Inr x"
    and canonical: "dec bs = Inr x \<Longrightarrow> enc x = Inr bs"
begin

lemma enc_inj: "enc x = Inr bs \<Longrightarrow> enc y = Inr bs \<Longrightarrow> x = y"
  by (metis round_trip sum.inject(2))

lemma dec_iff: "dec bs = Inr x \<longleftrightarrow> enc x = Inr bs"
  using round_trip canonical by metis

lemma dec_inj: "dec bs = Inr x \<Longrightarrow> dec cs = Inr x \<Longrightarrow> bs = cs"
  by (metis canonical sum.inject(2))

end

section \<open>Integers as bytes\<close>

definition to_be16 :: "16 word \<Rightarrow> byte list" where
  "to_be16 w = [ucast (drop_bit 8 w), ucast w]"

definition from_be16 :: "byte \<Rightarrow> byte \<Rightarrow> 16 word" where
  "from_be16 a b = push_bit 8 (ucast a) OR ucast b"

definition to_be32 :: "32 word \<Rightarrow> byte list" where
  "to_be32 w = [ucast (drop_bit 24 w), ucast (drop_bit 16 w), ucast (drop_bit 8 w), ucast w]"

definition from_be32 :: "byte \<Rightarrow> byte \<Rightarrow> byte \<Rightarrow> byte \<Rightarrow> 32 word" where
  "from_be32 a b c d = push_bit 24 (ucast a) OR push_bit 16 (ucast b) OR push_bit 8 (ucast c) OR ucast d"

lemma length_be [simp]: "length (to_be16 w) = 2" "length (to_be32 v) = 4"
  by (simp_all add: to_be16_def to_be32_def)

lemma byte_bit_high: "\<not> bit (b :: byte) (8 + n)" "\<not> bit (b :: byte) (16 + n)" "\<not> bit (b :: byte) (24 + n)"
  using bit_imp_le_length [of b] by fastforce+

lemma from_to_be16 [simp]: "from_be16 (ucast (drop_bit 8 w)) (ucast w) = w"
  unfolding from_be16_def by (rule bit_word_eqI) (auto simp: bit_simps)

lemma to_from_be16 [simp]: "to_be16 (from_be16 a b) = [a, b]"
  unfolding to_be16_def from_be16_def by (auto intro!: bit_word_eqI simp: bit_simps byte_bit_high)

lemma from_to_be32 [simp]:
  "from_be32 (ucast (drop_bit 24 w)) (ucast (drop_bit 16 w)) (ucast (drop_bit 8 w)) (ucast w) = w"
  unfolding from_be32_def
proof (rule bit_word_eqI)
  fix n :: nat assume "n < LENGTH(32)"
  then consider "n < 8" | "8 \<le> n \<and> n < 16" | "16 \<le> n \<and> n < 24" | "24 \<le> n \<and> n < 32" by fastforce
  then show "bit (push_bit 24 (ucast (ucast (drop_bit 24 w) :: byte)) OR push_bit 16 (ucast (ucast (drop_bit 16 w) :: byte))
      OR push_bit 8 (ucast (ucast (drop_bit 8 w) :: byte)) OR ucast (ucast w :: byte) :: 32 word) n = bit w n"
    by cases (auto simp: bit_simps)
qed

lemma to_from_be32 [simp]: "to_be32 (from_be32 a b c d) = [a, b, c, d]"
  unfolding to_be32_def from_be32_def by (auto intro!: bit_word_eqI simp: bit_simps byte_bit_high)

definition to_le32 :: "32 word \<Rightarrow> byte list" where
  "to_le32 w = rev (to_be32 w)"

definition from_le32 :: "byte list \<Rightarrow> 32 word" where
  "from_le32 bs = from_be32 (bs ! 3) (bs ! 2) (bs ! 1) (bs ! 0)"

definition to_le64 :: "64 word \<Rightarrow> byte list" where
  "to_le64 w = map (\<lambda>i. ucast (drop_bit (8 * i) w)) [0..<8]"

definition from_le64 :: "byte list \<Rightarrow> 64 word" where
  "from_le64 bs = fold (\<lambda>i acc. acc OR push_bit (8 * i) (ucast (bs ! i))) [0..<8] 0"

lemma length_le [simp]: "length (to_le32 w) = 4" "length (to_le64 v) = 8"
  by (simp_all add: to_le32_def to_le64_def)

lemma from_to_le32 [simp]: "from_le32 (to_le32 w) = w"
  by (simp add: from_le32_def to_le32_def to_be32_def)

lemma to_from_le32 [simp]: "length bs = 4 \<Longrightarrow> to_le32 (from_le32 bs) = bs"
  by (auto simp: from_le32_def to_le32_def numeral_eq_Suc length_Suc_conv)

lemma bit_from_le64_fold:
  "bit (fold (\<lambda>i acc. acc OR push_bit (8 * i) (ucast (bs ! i :: byte))) is (a :: 64 word)) n \<longleftrightarrow>
     bit a n \<or> (n < 64 \<and> (\<exists>i\<in>set is. 8 * i \<le> n \<and> n < 8 * i + 8 \<and> bit (bs ! i) (n - 8 * i)))"
proof (induction "is" arbitrary: a)
  case (Cons i "is")
  have "bit (push_bit (8 * i) (ucast (bs ! i)) :: 64 word) n \<longleftrightarrow>
      n < 64 \<and> 8 * i \<le> n \<and> n < 8 * i + 8 \<and> bit (bs ! i) (n - 8 * i)"
    unfolding bit_push_bit_iff bit_unsigned_iff using bit_imp_le_length [of "bs ! i" "n - 8 * i"]
    by (auto simp: possible_bit_word)
  then show ?case by (auto simp: Cons bit_or_iff)
qed simp

lemma bit_from_le64: "bit (from_le64 bs) n \<longleftrightarrow> n < 64 \<and> bit (bs ! (n div 8)) (n mod 8)"
proof -
  have m: "n - 8 * (n div 8) = n mod 8" by (metis minus_mult_div_eq_mod)
  have "(\<exists>i\<in>set [0..<8]. 8 * i \<le> n \<and> n < 8 * i + 8 \<and> bit (bs ! i) (n - 8 * i)) \<longleftrightarrow>
      n div 8 < 8 \<and> bit (bs ! (n div 8)) (n mod 8)"
  proof
    assume "\<exists>i\<in>set [0..<8]. 8 * i \<le> n \<and> n < 8 * i + 8 \<and> bit (bs ! i) (n - 8 * i)"
    then obtain i where i: "i < 8" "8 * i \<le> n" "n < 8 * i + 8" "bit (bs ! i) (n - 8 * i)" by auto
    have "n div 8 = i" using i(2,3) by (auto intro: div_nat_eqI)
    then show "n div 8 < 8 \<and> bit (bs ! (n div 8)) (n mod 8)" using i m by auto
  next
    assume "n div 8 < 8 \<and> bit (bs ! (n div 8)) (n mod 8)"
    then show "\<exists>i\<in>set [0..<8]. 8 * i \<le> n \<and> n < 8 * i + 8 \<and> bit (bs ! i) (n - 8 * i)"
      by (intro bexI [of _ "n div 8"]) (use m in auto)
  qed
  then show ?thesis unfolding from_le64_def bit_from_le64_fold by (auto simp: div_less_iff_less_mult)
qed

lemma from_to_le64 [simp]: "from_le64 (to_le64 w) = w"
proof (rule bit_word_eqI)
  fix n :: nat assume n: "n < LENGTH(64)"
  then have "n div 8 < 8" by (simp add: div_less_iff_less_mult)
  then show "bit (from_le64 (to_le64 w)) n = bit w n"
    using n by (simp add: bit_from_le64 to_le64_def bit_unsigned_iff bit_drop_bit_eq)
qed

lemma to_from_le64 [simp]: "length bs = 8 \<Longrightarrow> to_le64 (from_le64 bs) = bs"
proof (rule nth_equalityI)
  fix i assume l: "length bs = 8" and "i < length (to_le64 (from_le64 bs))"
  then have i: "i < 8" by simp
  show "to_le64 (from_le64 bs) ! i = bs ! i"
  proof (rule bit_word_eqI)
    fix n :: nat assume "n < LENGTH(8)"
    then show "bit (to_le64 (from_le64 bs) ! i) n = bit (bs ! i) n"
      using i by (simp add: to_le64_def bit_unsigned_iff bit_drop_bit_eq bit_from_le64)
  qed
qed simp

end
