(* ===== verification/Snapshot_Framing.thy ===== *)
theory Snapshot_Framing
  imports Byte_Codec
begin

text \<open>
  The frame of a snapshot chunk (\<open>nodedb-raft/src/snapshot_framing.rs\<close>). The CRC-32C functions come
  from another crate and are parameters: \<open>crc\<close> of a byte string, and \<open>crc_append\<close>, which continues
  a checksum. The format needs nothing of them. The decoder accepts exactly the frames the encoder
  writes, whatever the checksum.
\<close>

section \<open>Definitions\<close>

definition SNAPSHOT_MAGIC :: "byte list" where
  "SNAPSHOT_MAGIC = [0x4E, 0x44, 0x53, 0x4E]"

definition SNAPSHOT_FORMAT_VERSION :: "16 word" where
  "SNAPSHOT_FORMAT_VERSION = 1"

definition HEADER_LEN :: nat where
  "HEADER_LEN = 4 + 2 + 2 + 4"

datatype snapshot_engine_id = Vector | Graph | DocumentSchemaless | DocumentStrict | Columnar | KeyValue
  | Fts | Spatial | Crdt | Composite

fun engine_u16 :: "snapshot_engine_id \<Rightarrow> 16 word" where
  "engine_u16 Vector = 1" | "engine_u16 Graph = 2" | "engine_u16 DocumentSchemaless = 3"
| "engine_u16 DocumentStrict = 4" | "engine_u16 Columnar = 5" | "engine_u16 KeyValue = 6" | "engine_u16 Fts = 7"
| "engine_u16 Spatial = 8" | "engine_u16 Crdt = 9" | "engine_u16 Composite = 10"

datatype framing_error =
    MagicMismatch "byte list"
  | VersionMismatch "16 word"
  | CrcMismatch "32 word" "32 word"
  | UnknownEngineId "16 word"
  | Truncated nat

definition from_u16 :: "16 word \<Rightarrow> framing_error + snapshot_engine_id" where
  "from_u16 v =
     (if v = 1 then Inr Vector else if v = 2 then Inr Graph else if v = 3 then Inr DocumentSchemaless
      else if v = 4 then Inr DocumentStrict else if v = 5 then Inr Columnar else if v = 6 then Inr KeyValue
      else if v = 7 then Inr Fts else if v = 8 then Inr Spatial else if v = 9 then Inr Crdt
      else if v = 10 then Inr Composite else Inl (UnknownEngineId v))"

definition encode_snapshot_chunk ::
  "(byte list \<Rightarrow> 32 word) \<Rightarrow> (32 word \<Rightarrow> byte list \<Rightarrow> 32 word) \<Rightarrow> snapshot_engine_id \<Rightarrow> byte list \<Rightarrow> byte list" where
  "encode_snapshot_chunk crc crc_append engine payload =
     (let engine_bytes = to_be16 (engine_u16 engine);
          checksum = crc_append (crc engine_bytes) payload
      in SNAPSHOT_MAGIC @ to_be16 SNAPSHOT_FORMAT_VERSION @ engine_bytes @ to_be32 checksum @ payload)"

definition decode_snapshot_chunk ::
  "(byte list \<Rightarrow> 32 word) \<Rightarrow> (32 word \<Rightarrow> byte list \<Rightarrow> 32 word) \<Rightarrow> byte list
     \<Rightarrow> framing_error + snapshot_engine_id \<times> byte list" where
  "decode_snapshot_chunk crc crc_append data =
     (if length data < HEADER_LEN then Inl (Truncated (length data))
      else if take 4 data \<noteq> SNAPSHOT_MAGIC then Inl (MagicMismatch (take 4 data))
      else let version = from_be16 (data ! 4) (data ! 5)
           in if version \<noteq> SNAPSHOT_FORMAT_VERSION then Inl (VersionMismatch version)
              else case from_u16 (from_be16 (data ! 6) (data ! 7)) of
                     Inl e \<Rightarrow> Inl e
                   | Inr engine \<Rightarrow>
                       let stored = from_be32 (data ! 8) (data ! 9) (data ! 10) (data ! 11);
                           payload = drop HEADER_LEN data;
                           computed = crc_append (crc (take 2 (drop 6 data))) payload
                       in if stored \<noteq> computed then Inl (CrcMismatch stored computed)
                          else Inr (engine, payload))"

section \<open>Engine identifiers\<close>

lemma from_engine_u16 [simp]: "from_u16 (engine_u16 e) = Inr e"
  by (cases e) (simp_all add: from_u16_def)

lemma from_u16_Inr: "from_u16 v = Inr e \<longleftrightarrow> v = engine_u16 e"
  by (auto simp: from_u16_def split: if_splits) (cases e; simp)+

section \<open>The frame\<close>

lemma length_8: "length xs = 8 \<Longrightarrow> \<exists>a b c d e f g h. xs = [a, b, c, d, e, f, g, h]"
  by (auto simp: numeral_eq_Suc length_Suc_conv)

lemma header_split:
  assumes "HEADER_LEN \<le> length data"
  obtains m v1 v2 g1 g2 c1 c2 c3 c4 p where "length m = 4" "data = m @ [v1, v2, g1, g2, c1, c2, c3, c4] @ p"
proof -
  have "length (take 8 (drop 4 data)) = 8" using assms by (simp add: HEADER_LEN_def)
  then obtain v1 v2 g1 g2 c1 c2 c3 c4 where h: "take 8 (drop 4 data) = [v1, v2, g1, g2, c1, c2, c3, c4]"
    using length_8 by blast
  have "data = take 4 data @ take 8 (drop 4 data) @ drop 8 (drop 4 data)" by (simp only: append_take_drop_id)
  with h that [of "take 4 data"] assms show thesis by (auto simp: HEADER_LEN_def)
qed

lemma decode_split:
  assumes "length m = 4"
  shows "decode_snapshot_chunk crc app (m @ [v1, v2, g1, g2, c1, c2, c3, c4] @ p) =
    (if m \<noteq> SNAPSHOT_MAGIC then Inl (MagicMismatch m)
     else if from_be16 v1 v2 \<noteq> SNAPSHOT_FORMAT_VERSION then Inl (VersionMismatch (from_be16 v1 v2))
     else case from_u16 (from_be16 g1 g2) of
            Inl e \<Rightarrow> Inl e
          | Inr engine \<Rightarrow>
              if from_be32 c1 c2 c3 c4 \<noteq> app (crc [g1, g2]) p
              then Inl (CrcMismatch (from_be32 c1 c2 c3 c4) (app (crc [g1, g2]) p))
              else Inr (engine, p))"
proof -
  obtain a b c d where "m = [a, b, c, d]" using assms by (auto simp: numeral_eq_Suc length_Suc_conv)
  then show ?thesis by (simp add: decode_snapshot_chunk_def HEADER_LEN_def Let_def cong: sum.case_cong if_cong)
qed

lemma decode_encode:
  "decode_snapshot_chunk crc app (encode_snapshot_chunk crc app e p) = Inr (e, p)"
proof -
  have m: "length SNAPSHOT_MAGIC = 4" by (simp add: SNAPSHOT_MAGIC_def)
  show ?thesis using decode_split [OF m]
    by (simp add: encode_snapshot_chunk_def to_be16_def to_be32_def Let_def)
qed

lemma encode_decode:
  assumes "decode_snapshot_chunk crc app data = Inr (e, p)"
  shows "encode_snapshot_chunk crc app e p = data"
proof -
  have "HEADER_LEN \<le> length data"
    using assms by (auto simp: decode_snapshot_chunk_def split: if_splits)
  then obtain m v1 v2 g1 g2 c1 c2 c3 c4 q where d: "length m = 4" "data = m @ [v1, v2, g1, g2, c1, c2, c3, c4] @ q"
    by (rule header_split)
  have *: "m = SNAPSHOT_MAGIC" "from_be16 v1 v2 = SNAPSHOT_FORMAT_VERSION" "from_be16 g1 g2 = engine_u16 e"
    "from_be32 c1 c2 c3 c4 = app (crc [g1, g2]) p" "q = p"
    using assms unfolding d(2) decode_split [OF d(1)] by (auto split: if_splits sum.splits simp: from_u16_Inr)
  have "to_be16 SNAPSHOT_FORMAT_VERSION = [v1, v2]" "to_be16 (engine_u16 e) = [g1, g2]"
    "to_be32 (app (crc [g1, g2]) p) = [c1, c2, c3, c4]"
    by (simp_all flip: *(2,3,4))
  then show ?thesis using * by (simp add: encode_snapshot_chunk_def d Let_def)
qed

interpretation framing: exact_codec "\<lambda>(e, p). Inr (encode_snapshot_chunk crc app e p)" "decode_snapshot_chunk crc app"
  for crc app
  by unfold_locales (auto simp: decode_encode encode_decode)

text \<open>
  C37. A snapshot frame and its payload determine each other. For every checksum function, the decoder
  returns an engine and a payload exactly for the bytes that the encoder writes for them: every
  frame round-trips, two chunks never share a frame, and any other byte string, of whatever length
  or content, is refused.
\<close>

theorem framing_exact:
  "decode_snapshot_chunk crc app data = Inr (e, p) \<longleftrightarrow> data = encode_snapshot_chunk crc app e p"
  using framing.dec_iff [of crc app data "(e, p)"] by auto

end
