(* ===== verification/Codec_Bounds.thy ===== *)
theory Codec_Bounds
  imports Byte_Codec
begin

text \<open>
  Errors and checked lengths shared by the column codecs (\<open>nodedb-codec/src/error.rs\<close>,
  \<open>nodedb-codec/src/bounds.rs\<close>). Error details are the strings of the source. \<open>usize\<close> is 64 bits
  wide, so \<open>u32_to_usize\<close> never fails.
\<close>

datatype codec_error =
    Truncated nat nat
  | Corrupt string
  | DecompressFailed string
  | CompressFailed string
  | ResourceLimit string nat nat
  | CodecMismatch string string
  | LayoutError string
  | UnresolvedAuto
  | UnknownCodec string string

type_synonym 'a codec_result = "codec_error + 'a"

definition MAX_DECODED_BYTES :: nat where
  "MAX_DECODED_BYTES = 64 * 1024 * 1024"

definition u32_to_usize :: "32 word \<Rightarrow> string \<Rightarrow> nat codec_result" where
  "u32_to_usize v context = Inr (unat v)"

definition checked_add :: "nat \<Rightarrow> nat \<Rightarrow> string \<Rightarrow> nat codec_result" where
  "checked_add l r context = (if l + r \<le> u64_max then Inr (l + r) else Inl (Corrupt (context @ '' overflows usize'')))"

definition checked_mul :: "nat \<Rightarrow> nat \<Rightarrow> string \<Rightarrow> nat codec_result" where
  "checked_mul l r context = (if l * r \<le> u64_max then Inr (l * r) else Inl (Corrupt (context @ '' overflows usize'')))"

definition decoded_len :: "nat \<Rightarrow> string \<Rightarrow> nat codec_result" where
  "decoded_len v codec =
     (if v > MAX_DECODED_BYTES then Inl (ResourceLimit (codec @ '' decoded bytes'') v MAX_DECODED_BYTES) else Inr v)"

definition checked_capacity :: "nat \<Rightarrow> nat \<Rightarrow> string \<Rightarrow> nat codec_result" where
  "checked_capacity count element_size context =
     (case checked_mul count element_size context of
        Inl e \<Rightarrow> Inl e
      | Inr bytes \<Rightarrow> (case decoded_len bytes context of Inl e \<Rightarrow> Inl e | Inr _ \<Rightarrow> Inr count))"

definition encode_u32_len :: "nat \<Rightarrow> string \<Rightarrow> 32 word codec_result" where
  "encode_u32_len v context =
     (if v \<le> u32_max then Inr (of_nat v) else Inl (ResourceLimit (context @ '' encoded length'') v u32_max))"

definition encode_input_len :: "nat \<Rightarrow> string \<Rightarrow> 32 word codec_result" where
  "encode_input_len v codec = (case decoded_len v codec of Inl e \<Rightarrow> Inl e | Inr _ \<Rightarrow> encode_u32_len v codec)"

section \<open>Value counts of the integer codecs (delta.rs, double_delta.rs)\<close>

definition validate_value_count :: "nat \<Rightarrow> string \<Rightarrow> unit codec_result" where
  "validate_value_count count codec =
     (case checked_mul count 8 ''integer decoded bytes'' of
        Inl e \<Rightarrow> Inl e
      | Inr bytes \<Rightarrow> (case decoded_len bytes codec of Inl e \<Rightarrow> Inl e | Inr _ \<Rightarrow> Inr ()))"

definition encode_value_count :: "nat \<Rightarrow> string \<Rightarrow> 32 word codec_result" where
  "encode_value_count len codec =
     (case validate_value_count len codec of Inl e \<Rightarrow> Inl e | Inr _ \<Rightarrow> encode_input_len len codec)"

text \<open>The most values one frame may hold.\<close>

abbreviation max_values :: nat where
  "max_values \<equiv> 8388608"

lemma validate_value_count_fits [simp]: "k \<le> max_values \<Longrightarrow> validate_value_count k c = Inr ()"
  by (simp add: validate_value_count_def checked_mul_def decoded_len_def MAX_DECODED_BYTES_def u64_max_def)

lemma validate_value_count_ok: "validate_value_count k c = Inr u \<longleftrightarrow> k \<le> max_values"
  by (auto simp: validate_value_count_def checked_mul_def decoded_len_def MAX_DECODED_BYTES_def u64_max_def
      split: sum.splits if_splits)

lemma encode_value_count_ok: "encode_value_count k c = Inr w \<longleftrightarrow> k \<le> max_values \<and> w = of_nat k"
proof (cases "k \<le> max_values")
  case True
  then show ?thesis
    by (auto simp: encode_value_count_def encode_input_len_def encode_u32_len_def decoded_len_def MAX_DECODED_BYTES_def
        u32_max_def)
next
  case False
  then obtain e where "validate_value_count k c = Inl e" by (metis validate_value_count_ok sum.exhaust)
  then show ?thesis using False by (simp add: encode_value_count_def)
qed

lemma checked_capacity_ok [simp]: "k \<le> max_values \<Longrightarrow> checked_capacity k 8 c = Inr k"
  by (simp add: checked_capacity_def checked_mul_def decoded_len_def MAX_DECODED_BYTES_def u64_max_def)

lemma unat_count: "k \<le> max_values \<Longrightarrow> unat (of_nat k :: 32 word) = k"
  by (simp add: unat_of_nat)

end
