(* ===== verification/Codec_Delta.thy ===== *)
theory Codec_Delta
  imports Codec_Bounds
begin

text \<open>
  The delta codec for counter columns (\<open>nodedb-codec/src/delta.rs\<close>): zigzag, LEB128 varints, and
  the frame. An \<open>i64\<close> is a \<open>64 word\<close>, read as signed by the shifts; \<open>wrapping_add\<close> and
  \<open>wrapping_sub\<close> are the operations of the word type. The decoder accepts exactly what the encoder
  writes.
\<close>

section \<open>ZigZag\<close>

definition zigzag_encode :: "64 word \<Rightarrow> 64 word" where
  "zigzag_encode v = push_bit 1 v XOR signed_drop_bit 63 v"

definition zigzag_decode :: "64 word \<Rightarrow> 64 word" where
  "zigzag_decode v = drop_bit 1 v XOR (- (v AND 1))"

lemma bit_neg_and_1: "bit (- (v AND 1) :: 64 word) n \<longleftrightarrow> n < 64 \<and> bit v 0"
proof (cases "bit v 0")
  case True
  then have "v AND 1 = 1" by (simp add: and_one_eq bit_0 odd_iff_mod_2_eq_one)
  then show ?thesis using True by simp
next
  case False
  then have "v AND 1 = 0" by (simp add: and_one_eq bit_0 even_iff_mod_2_eq_zero)
  then show ?thesis using False by simp
qed

lemma bit_zigzag_encode: "m < 64 \<Longrightarrow> bit (zigzag_encode v) m \<longleftrightarrow> ((0 < m \<and> bit v (m - 1)) \<noteq> bit v 63)"
  unfolding zigzag_encode_def bit_xor_iff bit_push_bit_iff bit_signed_drop_bit_iff
  by (cases m) auto

lemma bit_zigzag_decode: "m < 64 \<Longrightarrow> bit (zigzag_decode v) m \<longleftrightarrow> (bit v (Suc m) \<noteq> bit v 0)"
  unfolding zigzag_decode_def bit_xor_iff bit_drop_bit_eq bit_neg_and_1 by simp

lemma bit_64: "\<not> bit (v :: 64 word) 64"
  using bit_imp_le_length [of v 64] by auto

lemma zigzag_round_trip [simp]: "zigzag_decode (zigzag_encode v) = v"
proof (rule bit_word_eqI)
  fix n :: nat assume "n < LENGTH(64)"
  then have n: "n < 63 \<or> n = 63" by auto
  then show "bit (zigzag_decode (zigzag_encode v)) n = bit v n"
    by (auto simp: bit_zigzag_decode bit_zigzag_encode bit_64)
qed

lemma zigzag_decode_inv [simp]: "zigzag_encode (zigzag_decode v) = v"
proof (rule bit_word_eqI)
  fix n :: nat assume n: "n < LENGTH(64)"
  then show "bit (zigzag_encode (zigzag_decode v)) n = bit v n"
    by (cases n) (auto simp: bit_zigzag_decode bit_zigzag_encode bit_64)
qed

section \<open>Varints\<close>

lemma drop_7_less: "drop_bit 7 v \<noteq> 0 \<Longrightarrow> unat (drop_bit 7 (v :: 64 word)) < unat v"
proof -
  assume "drop_bit 7 v \<noteq> 0"
  then have "0 < unat v" by (cases "v = 0") (auto simp: unat_gt_0)
  then show ?thesis unfolding unat_drop_bit_eq by (simp add: drop_bit_eq_div)
qed

function write_varint :: "64 word \<Rightarrow> byte list" where
  "write_varint v =
     (let byte = ucast (v AND 0x7F) :: byte; v' = drop_bit 7 v
      in if v' \<noteq> 0 then (byte OR 0x80) # write_varint v' else [byte])"
  by auto
termination by (relation "measure unat") (auto simp: drop_7_less)

declare write_varint.simps [simp del]

fun read_varint_from :: "nat \<Rightarrow> nat \<Rightarrow> 64 word \<Rightarrow> byte list \<Rightarrow> (64 word \<times> nat) codec_result" where
  "read_varint_from len index value [] =
     (case checked_add len 1 ''Delta varint length'' of Inl e \<Rightarrow> Inl e | Inr expected \<Rightarrow> Inl (Truncated expected len))"
| "read_varint_from len index value (byte # rest) =
     (if index \<ge> 10 then Inl (Corrupt ''varint exceeds ten bytes'')
      else let payload = ucast (byte AND 0x7F) :: 64 word
           in if index = 9 \<and> (byte AND 0x80 \<noteq> 0 \<or> payload > 1) then Inl (Corrupt ''varint overflows u64'')
              else let value' = value OR push_bit (index * 7) payload
                   in if byte AND 0x80 = 0 then
                        (if index > 0 \<and> payload = 0 then Inl (Corrupt ''varint is noncanonical'')
                         else Inr (value', index + 1))
                      else read_varint_from len (index + 1) value' rest)"

definition read_varint :: "byte list \<Rightarrow> (64 word \<times> nat) codec_result" where
  "read_varint data = read_varint_from (length data) 0 0 data"

text \<open>The two halves of a varint byte.\<close>

lemma bit_7F: "bit (0x7F :: 64 word) n \<longleftrightarrow> n < 7" "bit (0x7F :: byte) n \<longleftrightarrow> n < 7"
proof -
  have "(0x7F :: 64 word) = mask 7" "(0x7F :: byte) = mask 7" by (simp_all add: mask_eq_exp_minus_1)
  then show "bit (0x7F :: 64 word) n \<longleftrightarrow> n < 7" "bit (0x7F :: byte) n \<longleftrightarrow> n < 7"
    using bit_mask_iff [where ?'a = "64 word", of 7 n] bit_mask_iff [where ?'a = byte, of 7 n] by auto
qed

lemma bit_80: "bit (0x80 :: byte) n \<longleftrightarrow> n = 7"
  using bit_exp_iff [where ?'a = byte, of 7 n] by auto

lemmas varint_bits = bit_and_iff bit_or_iff bit_unsigned_iff bit_push_bit_iff bit_drop_bit_eq bit_7F bit_80

lemma varint_byte:
  fixes v :: "64 word"
  shows "(ucast (v AND 0x7F) :: byte) AND 0x80 = 0"
    and "((ucast (v AND 0x7F) :: byte) OR 0x80) AND 0x80 \<noteq> 0"
    and "ucast ((ucast (v AND 0x7F) :: byte) AND 0x7F) = v AND 0x7F"
    and "ucast (((ucast (v AND 0x7F) :: byte) OR 0x80) AND 0x7F) = v AND 0x7F"
proof -
  show "(ucast (v AND 0x7F) :: byte) AND 0x80 = 0"
    by (rule bit_word_eqI) (unfold varint_bits, auto)
  have "bit (((ucast (v AND 0x7F) :: byte) OR 0x80) AND 0x80) 7" unfolding varint_bits by simp
  then show "((ucast (v AND 0x7F) :: byte) OR 0x80) AND 0x80 \<noteq> 0" by (intro notI) simp
  show "ucast ((ucast (v AND 0x7F) :: byte) AND 0x7F) = v AND 0x7F"
    by (rule bit_word_eqI) (unfold varint_bits, auto)
  show "ucast (((ucast (v AND 0x7F) :: byte) OR 0x80) AND 0x7F) = v AND 0x7F"
    by (rule bit_word_eqI) (unfold varint_bits, auto)
qed

text \<open>What is left of a value at byte \<open>index\<close> fits the bits that are left.\<close>

abbreviation fits :: "nat \<Rightarrow> 64 word \<Rightarrow> bool" where
  "fits index w \<equiv> (\<forall>n. bit w n \<longrightarrow> 7 * index + n < 64)"

lemma fits_drop: "fits i w \<Longrightarrow> fits (Suc i) (drop_bit 7 w)"
  unfolding bit_drop_bit_eq by fastforce

lemma word_low_7: "drop_bit 7 (w :: 64 word) = 0 \<Longrightarrow> w AND 0x7F = w"
proof -
  assume d: "drop_bit 7 w = 0"
  have "\<not> bit (drop_bit 7 w) k" for k by (simp only: d bit_0_eq bot_apply) simp
  then have h: "\<not> bit w (7 + k)" for k unfolding bit_drop_bit_eq by simp
  have "bit w n \<Longrightarrow> n < 7" for n using h [of "n - 7"] by (cases "n < 7") auto
  then show ?thesis by (intro bit_word_eqI) (unfold varint_bits, auto)
qed

lemma word_nonzero_bit: "(w :: 64 word) \<noteq> 0 \<Longrightarrow> \<exists>n. bit w n"
  by (metis bit_eqI bit_0_eq bot_apply bot_bool_def)

lemma fits_last: "fits 9 w \<Longrightarrow> w = 0 \<or> w = 1"
proof -
  assume f: "fits 9 w"
  then have "bit w n \<Longrightarrow> n = 0" for n by fastforce
  then show ?thesis by (cases "bit w 0") (auto intro!: bit_word_eqI simp: bit_1_iff)
qed

lemma fits_more: "fits i w \<Longrightarrow> drop_bit 7 w \<noteq> 0 \<Longrightarrow> i \<le> 8"
  using word_nonzero_bit [of "drop_bit 7 w"] unfolding bit_drop_bit_eq by fastforce

lemma split_7: "push_bit (i * 7) (w AND 0x7F) OR push_bit (Suc i * 7) (drop_bit 7 w) = push_bit (i * 7) (w :: 64 word)"
proof (rule bit_word_eqI)
  fix n :: nat assume n: "n < LENGTH(64)"
  have e: "Suc i * 7 \<le> n \<Longrightarrow> 7 + (n - Suc i * 7) = n - i * 7" by simp
  show "bit (push_bit (i * 7) (w AND 0x7F) OR push_bit (Suc i * 7) (drop_bit 7 w)) n = bit (push_bit (i * 7) w) n"
    unfolding varint_bits comp_apply using n e by (cases "Suc i * 7 \<le> n") auto
qed

lemma read_write_from:
  assumes "fits i w" and "i \<le> 9" and "i = 0 \<or> w \<noteq> 0"
  shows "read_varint_from len i val (write_varint w @ rest) =
     Inr (val OR push_bit (i * 7) w, i + length (write_varint w))"
  using assms
proof (induction w arbitrary: i val rule: write_varint.induct)
  case (1 w)
  show ?case
  proof (cases "drop_bit 7 w = 0")
    case True
    have "i = 9 \<Longrightarrow> \<not> w > 1" using fits_last [of w] 1(2) by auto
    then show ?thesis using 1 True word_low_7 [OF True] varint_byte [of w]
      by (simp add: write_varint.simps [of w] Let_def)
  next
    case False
    have "i \<noteq> 9" using fits_more [OF 1(2) False] by simp
    moreover note 1(1) [OF refl refl False fits_drop [OF 1(2)]]
    ultimately show ?thesis using 1(2-4) False varint_byte [of w] fits_more [OF 1(2) False] split_7 [of i w]
      by (simp add: write_varint.simps [of w] Let_def or.assoc)
  qed
qed

lemma read_write_varint: "read_varint (write_varint w @ rest) = Inr (w, length (write_varint w))"
proof -
  have "fits 0 w" using bit_imp_le_length [of w] by auto
  from read_write_from [OF this, of _ 0] show ?thesis by (simp add: read_varint_def)
qed

lemma byte_split:
  fixes b :: byte
  shows "ucast ((ucast (b AND 0x7F) :: 64 word) AND 0x7F) = b AND 0x7F"
    and "b AND 0x80 = 0 \<Longrightarrow> b AND 0x7F = b" and "b AND 0x80 \<noteq> 0 \<Longrightarrow> (b AND 0x7F) OR 0x80 = b"
proof -
  have b: "n < 7 \<or> n = 7" if "n < LENGTH(8)" for n using that by auto
  show "ucast ((ucast (b AND 0x7F) :: 64 word) AND 0x7F) = b AND 0x7F"
    by (rule bit_word_eqI) (unfold varint_bits, auto)
  have 7: "b AND 0x80 = (if bit b 7 then 0x80 else 0)"
    by (cases "bit b 7"; simp only: if_True if_False; rule bit_word_eqI; unfold varint_bits; auto)
  show "b AND 0x7F = b" if "b AND 0x80 = 0"
  proof -
    have "\<not> bit b 7" using that 7 by auto
    then show ?thesis by (intro bit_word_eqI) (use b in \<open>unfold varint_bits, auto\<close>)
  qed
  show "(b AND 0x7F) OR 0x80 = b" if "b AND 0x80 \<noteq> 0"
  proof -
    have "bit b 7" by (rule ccontr) (use that 7 in simp)
    then show ?thesis by (intro bit_word_eqI) (use b in \<open>unfold varint_bits, auto\<close>)
  qed
qed

lemma payload_bits: "bit (ucast (b AND 0x7F) :: 64 word) n \<longleftrightarrow> n < 7 \<and> bit (b :: byte) n"
  unfolding varint_bits by auto

lemma payload_low: "drop_bit 7 (ucast (b AND 0x7F) :: 64 word) = 0" for b :: byte
  by (rule bit_word_eqI) (unfold bit_drop_bit_eq, auto simp: payload_bits)

lemma payload_fits:
  fixes b :: byte
  defines "p \<equiv> (ucast (b AND 0x7F) :: 64 word)"
  assumes "i < 10" and "i = 9 \<Longrightarrow> p \<le> 1"
  shows "fits i p"
proof (cases "i = 9")
  case True
  then have "unat p = 0 \<or> unat p = 1" using assms(3) by (auto simp: word_le_nat_alt le_Suc_eq)
  then have "p = 0 \<or> p = 1" by (simp only: word_unat_eq_iff unsigned_0 unsigned_1)
  then show ?thesis using True by (auto simp: bit_1_iff)
next
  case False
  then show ?thesis using assms(2) unfolding p_def payload_bits by auto
qed

lemma read_from_canonical:
  assumes "read_varint_from len i val data = Inr (v, k)"
  shows "\<exists>w rest. data = write_varint w @ rest \<and> k = i + length (write_varint w) \<and>
     v = val OR push_bit (i * 7) w \<and> fits i w \<and> (i = 0 \<or> w \<noteq> 0)"
  using assms
proof (induction data arbitrary: i val)
  case Nil
  then show ?case by (auto split: sum.splits)
next
  case (Cons b rest)
  define p where "p = (ucast (b AND 0x7F) :: 64 word)"
  have d0: "drop_bit 7 p = 0" unfolding p_def by (rule payload_low)
  have lo: "p AND 0x7F = p" by (rule word_low_7 [OF d0])
  have pb: "(ucast p :: byte) = b AND 0x7F" using byte_split(1) [of b] lo unfolding p_def by simp
  have i: "i < 10" and ok: "\<not> (i = 9 \<and> (b AND 0x80 \<noteq> 0 \<or> p > 1))"
    using Cons.prems by (auto simp: p_def Let_def split: if_splits)
  show ?case
  proof (cases "b AND 0x80 = 0")
    case True
    then have r: "v = val OR push_bit (i * 7) p" "k = i + 1" "i = 0 \<or> p \<noteq> 0"
      using Cons.prems i ok by (auto simp: p_def Let_def split: if_splits)
    have "write_varint p = [b]"
      using byte_split(2) [OF True] by (simp add: write_varint.simps [of p] d0 lo pb)
    moreover have "fits i p" unfolding p_def by (rule payload_fits) (use i ok in \<open>auto simp: p_def\<close>)
    ultimately show ?thesis using r by (intro exI [of _ p]) auto
  next
    case False
    then have "i \<le> 8" using i ok by auto
    have rec: "read_varint_from len (Suc i) (val OR push_bit (i * 7) p) rest = Inr (v, k)"
      using Cons.prems i ok False by (auto simp: p_def Let_def split: if_splits)
    from Cons.IH [OF rec] obtain w r where w: "rest = write_varint w @ r" "k = Suc i + length (write_varint w)"
      "v = (val OR push_bit (i * 7) p) OR push_bit (Suc i * 7) w" "fits (Suc i) w" "w \<noteq> 0" by auto
    define x where "x = p OR push_bit 7 w"
    have bx: "bit x n \<longleftrightarrow> (n < 7 \<and> bit b n) \<or> (7 \<le> n \<and> bit w (n - 7))" for n
      using w(4) unfolding x_def p_def bit_or_iff bit_push_bit_iff payload_bits
      by (auto simp: possible_bit_word)
    have d: "drop_bit 7 x = w" by (rule bit_word_eqI) (unfold bit_drop_bit_eq, auto simp: bx)
    have a: "x AND 0x7F = p" by (rule bit_word_eqI) (unfold bit_and_iff bit_7F p_def payload_bits, auto simp: bx)
    have "write_varint x = b # write_varint w"
      using byte_split(3) [OF False] w(5) by (simp add: write_varint.simps [of x] d a pb)
    moreover have "fits i x" using w(4) \<open>i \<le> 8\<close> by (auto simp: bx)
    moreover have "x \<noteq> 0" using d w(5) by auto
    moreover have "v = val OR push_bit (i * 7) x" using split_7 [of i x] w(3) by (simp add: a d or.assoc)
    ultimately show ?thesis using w(1,2) by (intro exI [of _ x]) auto
  qed
qed

lemma read_varint_canonical:
  "read_varint data = Inr (v, k) \<Longrightarrow> \<exists>rest. data = write_varint v @ rest \<and> k = length (write_varint v)"
  using read_from_canonical [of "length data" 0 0 data v k] by (auto simp: read_varint_def)

lemma length_write_from: "fits i w \<Longrightarrow> i \<le> 9 \<Longrightarrow> i + length (write_varint w) \<le> 10"
proof (induction w arbitrary: i rule: write_varint.induct)
  case (1 w)
  show ?case
  proof (cases "drop_bit 7 w = 0")
    case True
    then show ?thesis using 1(3) by (simp add: write_varint.simps [of w])
  next
    case False
    have "Suc i + length (write_varint (drop_bit 7 w)) \<le> 10"
      using 1(1) [OF refl refl False fits_drop [OF 1(2)]] fits_more [OF 1(2) False] by simp
    then show ?thesis using False by (simp add: write_varint.simps [of w])
  qed
qed

lemma length_write_varint: "0 < length (write_varint w)" "length (write_varint w) \<le> 10"
proof -
  have "fits 0 w" using bit_imp_le_length [of w] by auto
  then show "length (write_varint w) \<le> 10" using length_write_from [of w 0] by simp
qed (simp add: write_varint.simps [of w] Let_def)

section \<open>The frame\<close>

fun delta_bytes :: "64 word \<Rightarrow> 64 word list \<Rightarrow> byte list" where
  "delta_bytes prev [] = []"
| "delta_bytes prev (v # vs) = write_varint (zigzag_encode (v - prev)) @ delta_bytes v vs"

definition delta_encode :: "64 word list \<Rightarrow> byte list codec_result" where
  "delta_encode values =
     (case encode_value_count (length values) ''Delta'' of
        Inl e \<Rightarrow> Inl e
      | Inr count \<Rightarrow>
          (case checked_mul (length values) 2 ''Delta output estimate'' of
             Inl e \<Rightarrow> Inl e
           | Inr m \<Rightarrow>
               (case checked_add 12 m ''Delta output estimate'' of
                  Inl e \<Rightarrow> Inl e
                | Inr _ \<Rightarrow>
                    Inr (to_le32 count @ (case values of [] \<Rightarrow> [] | v # vs \<Rightarrow> to_le64 v @ delta_bytes v vs)))))"

text \<open>The loop of the decoder: \<open>k\<close> values are left, \<open>prev\<close> is the last one.\<close>

fun delta_values :: "byte list \<Rightarrow> nat \<Rightarrow> 64 word \<Rightarrow> nat \<Rightarrow> (64 word list \<times> nat) codec_result" where
  "delta_values data off prev 0 = Inr ([], off)"
| "delta_values data off prev (Suc k) =
     (if off \<ge> length data then
        (case checked_add off 1 ''Delta varint offset'' of Inl e \<Rightarrow> Inl e | Inr x \<Rightarrow> Inl (Truncated x (length data)))
      else case read_varint (drop off data) of
             Inl e \<Rightarrow> Inl e
           | Inr (encoded_delta, consumed) \<Rightarrow>
               let v = prev + zigzag_decode encoded_delta
               in case checked_add off consumed ''Delta varint offset'' of
                    Inl e \<Rightarrow> Inl e
                  | Inr off' \<Rightarrow>
                      (case delta_values data off' v k of
                         Inl e \<Rightarrow> Inl e
                       | Inr (vs, end_off) \<Rightarrow> Inr (v # vs, end_off)))"

definition delta_decode :: "byte list \<Rightarrow> 64 word list codec_result" where
  "delta_decode data =
     (if length data < 4 then Inl (Truncated 4 (length data))
      else case u32_to_usize (from_le32 (take 4 data)) ''Delta value count'' of
             Inl e \<Rightarrow> Inl e
           | Inr count \<Rightarrow>
               (case validate_value_count count ''Delta'' of
                  Inl e \<Rightarrow> Inl e
                | Inr _ \<Rightarrow>
                    if count = 0 then
                      (if length data \<noteq> 4 then Inl (Corrupt ''trailing bytes after empty Delta frame'') else Inr [])
                    else if length data < 12 then Inl (Truncated 12 (length data))
                    else let first_value = from_le64 (take 8 (drop 4 data))
                         in case checked_capacity count 8 ''Delta values'' of
                              Inl e \<Rightarrow> Inl e
                            | Inr _ \<Rightarrow>
                                (case delta_values data 12 first_value (count - 1) of
                                   Inl e \<Rightarrow> Inl e
                                 | Inr (vs, off) \<Rightarrow>
                                     if off \<noteq> length data then Inl (Corrupt ''trailing bytes after Delta frame'')
                                     else Inr (first_value # vs))))"

lemma length_delta_bytes: "length (delta_bytes prev vs) \<le> 10 * length vs"
  by (induction vs arbitrary: prev) (auto intro: add_mono length_write_varint(2))

lemma delta_values_ok:
  assumes "drop off data = delta_bytes prev vs @ rest" and "off \<le> length data" and "length data \<le> u64_max"
  shows "delta_values data off prev (length vs) = Inr (vs, off + length (delta_bytes prev vs))"
  using assms
proof (induction vs arbitrary: off prev)
  case (Cons v vs)
  let ?w = "write_varint (zigzag_encode (v - prev))"
  have d: "drop off data = ?w @ delta_bytes v vs @ rest" using Cons.prems(1) by simp
  then have "length (drop off data) = length ?w + length (delta_bytes v vs @ rest)" by simp
  then have len: "off + length ?w \<le> length data" "off < length data"
    using length_write_varint(1) [of "zigzag_encode (v - prev)"] Cons.prems(2)
    unfolding length_drop length_append by linarith+
  have "drop (off + length ?w) data = delta_bytes v vs @ rest"
    using d by (metis add.commute append_eq_conv_conj drop_drop)
  from Cons.IH [OF this len(1) Cons.prems(3)] show ?case
    using len Cons.prems(3) read_write_varint [of "zigzag_encode (v - prev)" "delta_bytes v vs @ rest"]
    by (simp add: d checked_add_def Let_def add.assoc)
qed simp

lemma delta_values_canonical:
  assumes "delta_values data off prev k = Inr (vs, e)" and "off \<le> length data"
  shows "length vs = k \<and> e \<le> length data \<and> off \<le> e \<and> take (e - off) (drop off data) = delta_bytes prev vs"
  using assms
proof (induction k arbitrary: off prev vs)
  case (Suc k)
  from Suc.prems(1) obtain x c us where lt: "off < length data" and r: "read_varint (drop off data) = Inr (x, c)"
    and s: "off + c \<le> u64_max" and rec: "delta_values data (off + c) (prev + zigzag_decode x) k = Inr (us, e)"
    and vs: "vs = (prev + zigzag_decode x) # us"
    by (auto simp: Let_def checked_add_def split: if_splits sum.splits prod.splits)
  obtain rest where d: "drop off data = write_varint x @ rest" "c = length (write_varint x)"
    using read_varint_canonical [OF r] by blast
  then have "length (drop off data) = c + length rest" by simp
  then have le: "off + c \<le> length data" using lt by simp
  have dd: "drop (off + c) data = rest" using d by (metis add.commute append_eq_conv_conj drop_drop)
  from Suc.IH [OF rec le] show ?case using d dd
    by (auto simp: vs)
qed auto

abbreviation delta_frame :: "64 word list \<Rightarrow> byte list" where
  "delta_frame vs \<equiv>
     to_le32 (of_nat (length vs)) @ (case vs of [] \<Rightarrow> [] | v # us \<Rightarrow> to_le64 v @ delta_bytes v us)"

lemma delta_encode_ok: "delta_encode vs = Inr bs \<longleftrightarrow> length vs \<le> max_values \<and> bs = delta_frame vs"
proof (cases "length vs \<le> max_values")
  case True
  then have "encode_value_count (length vs) ''Delta'' = Inr (of_nat (length vs))" by (simp add: encode_value_count_ok)
  then show ?thesis using True by (auto simp: delta_encode_def checked_mul_def checked_add_def u64_max_def)
next
  case False
  then obtain e where "encode_value_count (length vs) ''Delta'' = Inl e"
    using encode_value_count_ok [of "length vs" "''Delta''"] by (cases "encode_value_count (length vs) ''Delta''") auto
  then show ?thesis using False by (simp add: delta_encode_def)
qed

lemma delta_round_trip: "length vs \<le> max_values \<Longrightarrow> delta_decode (delta_frame vs) = Inr vs"
proof (cases vs)
  case (Cons v us)
  assume le: "length vs \<le> max_values"
  define bs where "bs = delta_frame vs"
  have len: "length bs = 12 + length (delta_bytes v us)" by (simp add: bs_def Cons length_le)
  have "length bs \<le> u64_max" using len length_delta_bytes [of v us] le by (simp add: Cons u64_max_def)
  then have "delta_values bs 12 v (length us) = Inr (us, length bs)"
    using delta_values_ok [of 12 bs v us "[]"] by (simp add: bs_def Cons length_le)
  moreover have "from_le32 (take 4 bs) = of_nat (length vs)" "from_le64 (take 8 (drop 4 bs)) = v"
    by (simp_all add: bs_def Cons length_le)
  ultimately have "delta_decode bs = Inr vs"
    using le len unat_count [OF le] by (simp add: delta_decode_def u32_to_usize_def Cons)
  then show ?thesis by (simp add: bs_def)
qed (simp add: delta_decode_def u32_to_usize_def length_le)

lemma delta_canonical: "delta_decode bs = Inr vs \<Longrightarrow> length vs \<le> max_values \<and> bs = delta_frame vs"
proof -
  assume d: "delta_decode bs = Inr vs"
  define n where "n = from_le32 (take 4 bs)"
  have l4: "4 \<le> length bs" using d by (auto simp: delta_decode_def split: if_splits)
  then have n: "to_le32 n = take 4 bs" by (simp add: n_def)
  have le: "unat n \<le> max_values"
    using d l4 by (auto simp: delta_decode_def u32_to_usize_def n_def [symmetric] validate_value_count_ok
        split: sum.splits)
  show ?thesis
  proof (cases "unat n = 0")
    case True
    then have "vs = []" "length bs = 4"
      using d l4 by (auto simp: delta_decode_def u32_to_usize_def n_def [symmetric] split: if_splits)
    moreover have "n = 0" using True by (simp add: unat_eq_0)
    ultimately show ?thesis using n by simp
  next
    case False
    define v where "v = from_le64 (take 8 (drop 4 bs))"
    from d False l4 le obtain us where l12: "12 \<le> length bs"
      and r: "delta_values bs 12 v (unat n - 1) = Inr (us, length bs)" and vs: "vs = v # us"
      by (auto simp: delta_decode_def u32_to_usize_def n_def [symmetric] v_def [symmetric] Let_def
          split: if_splits sum.splits prod.splits)
    have us: "length us = unat n - 1" "drop 12 bs = delta_bytes v us"
      using delta_values_canonical [OF r l12] by auto
    have lv: "length vs = unat n" using us(1) False vs by simp
    have "to_le64 v = take 8 (drop 4 bs)" using l12 by (simp add: v_def)
    then have "bs = to_le32 n @ to_le64 v @ delta_bytes v us"
      using n us(2) by (metis append_take_drop_id drop_drop numeral_plus_numeral add_num_simps)
    moreover have "of_nat (length vs) = n" "length vs \<le> max_values" using le lv by simp_all
    ultimately show ?thesis using vs by simp
  qed
qed

interpretation delta: exact_codec delta_encode delta_decode
  by unfold_locales (auto simp: delta_encode_ok delta_round_trip dest: delta_canonical)

section \<open>Streaming\<close>

text \<open>The streaming encoder is its pending values; the decoder keeps the decoded values and a cursor.\<close>

record delta_decoder =
  dd_values :: "64 word list"
  dd_pos :: nat

definition delta_push :: "64 word list \<Rightarrow> 64 word \<Rightarrow> 64 word list codec_result" where
  "delta_push values v =
     (case checked_add (length values) 1 ''Delta streaming count'' of
        Inl e \<Rightarrow> Inl e
      | Inr k \<Rightarrow> (case validate_value_count k ''Delta streaming input'' of Inl e \<Rightarrow> Inl e | Inr _ \<Rightarrow> Inr (values @ [v])))"

definition delta_push_batch :: "64 word list \<Rightarrow> 64 word list \<Rightarrow> 64 word list codec_result" where
  "delta_push_batch values vs =
     (case checked_add (length values) (length vs) ''Delta streaming count'' of
        Inl e \<Rightarrow> Inl e
      | Inr k \<Rightarrow> (case validate_value_count k ''Delta streaming input'' of Inl e \<Rightarrow> Inl e | Inr _ \<Rightarrow> Inr (values @ vs)))"

definition delta_finish :: "64 word list \<Rightarrow> byte list codec_result" where
  "delta_finish values = delta_encode values"

definition delta_decoder_new :: "byte list \<Rightarrow> delta_decoder codec_result" where
  "delta_decoder_new data =
     (case delta_decode data of Inl e \<Rightarrow> Inl e | Inr values \<Rightarrow> Inr \<lparr> dd_values = values, dd_pos = 0 \<rparr>)"

definition delta_next_value :: "delta_decoder \<Rightarrow> 64 word option \<times> delta_decoder" where
  "delta_next_value d =
     (if dd_pos d < length (dd_values d)
      then (Some (dd_values d ! dd_pos d), d \<lparr> dd_pos := dd_pos d + 1 \<rparr>) else (None, d))"

definition delta_remaining :: "delta_decoder \<Rightarrow> nat" where
  "delta_remaining d = length (dd_values d) - dd_pos d"

lemma delta_push_ok: "delta_push vs v = Inr ws \<longleftrightarrow> length vs < max_values \<and> ws = vs @ [v]"
  by (auto simp: delta_push_def checked_add_def validate_value_count_ok u64_max_def split: sum.splits)

lemma delta_push_batch_ok: "delta_push_batch vs us = Inr ws \<longleftrightarrow> length vs + length us \<le> max_values \<and> ws = vs @ us"
  by (auto simp: delta_push_batch_def checked_add_def validate_value_count_ok u64_max_def split: sum.splits)

fun delta_drain :: "nat \<Rightarrow> delta_decoder \<Rightarrow> 64 word list" where
  "delta_drain 0 d = []"
| "delta_drain (Suc k) d =
     (case delta_next_value d of (None, d') \<Rightarrow> [] | (Some v, d') \<Rightarrow> v # delta_drain k d')"

lemma delta_drain_all: "delta_remaining d \<le> k \<Longrightarrow> delta_drain k d = drop (dd_pos d) (dd_values d)"
  by (induction k arbitrary: d) (auto simp: delta_next_value_def delta_remaining_def Cons_nth_drop_Suc)

fun delta_push_all :: "64 word list \<Rightarrow> 64 word list \<Rightarrow> 64 word list codec_result" where
  "delta_push_all values [] = Inr values"
| "delta_push_all values (v # vs) = (case delta_push values v of Inl e \<Rightarrow> Inl e | Inr ws \<Rightarrow> delta_push_all ws vs)"

lemma delta_push_all_ok: "delta_push_all vs us = Inr ws \<Longrightarrow> ws = vs @ us"
  by (induction us arbitrary: vs) (fastforce simp: delta_push_ok split: sum.splits)+

text \<open>
  C38. The delta decoder accepts exactly the frames the encoder writes and returns the values
  they came from, over all 64-bit values and their wrapping differences. A slice is encoded exactly
  when its values fit the 64 MiB limit on decoded bytes, and the streaming decoder then hands them out
  one by one, in order.
\<close>

theorem delta_exact:
  "(delta_decode bs = Inr vs \<longleftrightarrow> delta_encode vs = Inr bs) \<and>
   ((\<exists>fr d. delta_encode vs = Inr fr \<and> delta_decoder_new fr = Inr d \<and> delta_drain (length vs) d = vs) \<longleftrightarrow>
      length vs * 8 \<le> MAX_DECODED_BYTES)"
proof
  show "delta_decode bs = Inr vs \<longleftrightarrow> delta_encode vs = Inr bs" by (rule delta.dec_iff)
  have "delta_drain (length vs) \<lparr>dd_values = vs, dd_pos = 0\<rparr> = vs"
    using delta_drain_all [of "\<lparr>dd_values = vs, dd_pos = 0\<rparr>" "length vs"] by (simp add: delta_remaining_def)
  moreover have "length vs * 8 \<le> MAX_DECODED_BYTES \<longleftrightarrow> length vs \<le> max_values" by (simp add: MAX_DECODED_BYTES_def)
  ultimately show "(\<exists>fr d. delta_encode vs = Inr fr \<and> delta_decoder_new fr = Inr d \<and> delta_drain (length vs) d = vs) \<longleftrightarrow>
      length vs * 8 \<le> MAX_DECODED_BYTES"
    using delta_round_trip [of vs] by (auto simp: delta_encode_ok delta_decoder_new_def)
qed

end
