(* ===== verification/Raft_Spec.thy ===== *)
theory Raft_Spec
  imports Raft_Log
begin

text \<open>
  The specification of a replicated log that a Raft group implements: what a term's leader, a vote,
  an acknowledgement and a promise on disk are, and the eight ways they may change, with no messages,
  clocks or failures in sight. Shown here, for any family of quorums of which any two meet: logs
  that agree on the term of an entry agree up to it, and an entry of its leader's term that a quorum
  acknowledged is in the log of every later leader. The group of nodes of \<open>nodedb-raft\<close> is shown
  to implement it in \<open>Raft_Simulation\<close>, \<open>Raft_Refinement\<close> and \<open>Raft_Safety\<close>.
\<close>

section \<open>State and steps\<close>

record election =
  el_term :: u64
  el_leader :: node_id
  el_base :: "log_entry list"
  el_quorum :: "node_id set"

text \<open>
  The elections in the order they took place, each with the log the leader had when it won and the
  quorum that voted for it; the log each term's leader has built; per node the term its disk
  promises, its log, and the term it stands for election in.
\<close>

record spec =
  sp_elections :: "election list"
  sp_lead_log :: "u64 \<Rightarrow> log_entry list"
  sp_promise :: "node_id \<Rightarrow> u64"
  sp_votes :: "(node_id \<times> u64 \<times> node_id) set"
  sp_acks :: "(node_id \<times> u64 \<times> nat) set"
  sp_log :: "node_id \<Rightarrow> log_entry list"
  sp_stand :: "node_id \<Rightarrow> u64 option"

definition last_pos :: "log_entry list \<Rightarrow> u64 \<times> nat" where
  "last_pos xs = (if xs = [] then 0 else le_term (last xs), length xs)"

definition pos_le :: "u64 \<times> nat \<Rightarrow> u64 \<times> nat \<Rightarrow> bool" where
  "pos_le a b \<longleftrightarrow> fst a < fst b \<or> (fst a = fst b \<and> snd a \<le> snd b)"

definition led :: "spec \<Rightarrow> u64 \<Rightarrow> bool" where
  "led s t \<longleftrightarrow> t \<in> el_term ` set (sp_elections s)"

text \<open>How far two logs agree.\<close>

definition agree_le :: "log_entry list \<Rightarrow> log_entry list \<Rightarrow> nat \<Rightarrow> bool" where
  "agree_le xs ys n \<longleftrightarrow> (\<forall>j \<le> min (length xs) (length ys). take j xs = take j ys \<longrightarrow> j \<le> n)"

inductive spec_step :: "(node_id set \<Rightarrow> bool) \<Rightarrow> spec \<Rightarrow> spec \<Rightarrow> bool" for quorate where
  Promise: "sp_promise s v \<le> t \<Longrightarrow> spec_step quorate s (s\<lparr>sp_promise := (sp_promise s)(v := t)\<rparr>)"
| Stand: "sp_promise s c < t \<Longrightarrow> spec_step quorate s (s\<lparr>sp_stand := (sp_stand s)(c := Some t)\<rparr>)"
| StepDown: "spec_step quorate s (s\<lparr>sp_stand := (sp_stand s)(c := None)\<rparr>)"
| Vote: "t \<le> sp_promise s v \<Longrightarrow> t \<le> sp_promise s c \<Longrightarrow> (\<forall>d. (v, t, d) \<in> sp_votes s \<longrightarrow> d = c) \<Longrightarrow>
    (sp_stand s c = Some t \<Longrightarrow> sp_promise s v = t \<and> pos_le (last_pos (sp_log s v)) (last_pos (sp_log s c))) \<Longrightarrow>
    spec_step quorate s (s\<lparr>sp_votes := insert (v, t, c) (sp_votes s)\<rparr>)"
| Elect: "sp_stand s c = Some t \<Longrightarrow> c \<in> Q \<Longrightarrow> quorate Q \<Longrightarrow> (\<forall>v\<in>Q. (v, t, c) \<in> sp_votes s) \<Longrightarrow>
    spec_step quorate s (s\<lparr>sp_stand := (sp_stand s)(c := None),
      sp_elections := sp_elections s @ [\<lparr>el_term = t, el_leader = c, el_base = sp_log s c, el_quorum = Q\<rparr>],
      sp_lead_log := (sp_lead_log s)(t := sp_log s c)\<rparr>)"
| Append: "led s t \<Longrightarrow> sp_stand s c = None \<Longrightarrow> sp_log s c = sp_lead_log s t \<Longrightarrow> le_term e = t \<Longrightarrow>
    le_index e = Suc (length (sp_lead_log s t)) \<Longrightarrow>
    spec_step quorate s (s\<lparr>sp_lead_log := (sp_lead_log s)(t := sp_lead_log s t @ [e]),
      sp_log := (sp_log s)(c := sp_log s c @ [e])\<rparr>)"
| Accept: "led s t \<Longrightarrow> sp_promise s v \<le> t \<Longrightarrow> sp_stand s v = None \<Longrightarrow> agree_le (sp_log s v) (sp_lead_log s t) n \<Longrightarrow>
    spec_step quorate s (s\<lparr>sp_log := (sp_log s)(v := take n (sp_lead_log s t))\<rparr>)"
| Ack: "led s t \<Longrightarrow> sp_promise s v = t \<Longrightarrow> m \<le> length (sp_lead_log s t) \<Longrightarrow>
    take m (sp_log s v) = take m (sp_lead_log s t) \<Longrightarrow>
    spec_step quorate s (s\<lparr>sp_acks := insert (v, t, m) (sp_acks s)\<rparr>)"

definition spec_start :: "spec \<Rightarrow> bool" where
  "spec_start s \<longleftrightarrow> sp_elections s = [] \<and> sp_votes s = {} \<and> sp_acks s = {} \<and>
     (\<forall>t. sp_lead_log s t = []) \<and> (\<forall>v. sp_log s v = [] \<and> sp_stand s v = None)"

section \<open>The invariant\<close>

text \<open>Every entry comes with all that the leader of its term had before it.\<close>

definition coherent :: "(u64 \<Rightarrow> log_entry list) \<Rightarrow> log_entry list \<Rightarrow> bool" where
  "coherent L xs \<longleftrightarrow> (\<forall>k < length xs. take (Suc k) xs = take (Suc k) (L (le_term (xs ! k))))"

definition logs_ok :: "spec \<Rightarrow> bool" where
  "logs_ok s \<longleftrightarrow> (\<forall>v. coherent (sp_lead_log s) (sp_log s v) \<and> batch_after 0 (sp_log s v)) \<and>
     (\<forall>t. coherent (sp_lead_log s) (sp_lead_log s t) \<and> batch_after 0 (sp_lead_log s t) \<and>
        (\<not> led s t \<longrightarrow> sp_lead_log s t = []))"

definition votes_ok :: "spec \<Rightarrow> bool" where
  "votes_ok s \<longleftrightarrow> (\<forall>v t c. (v, t, c) \<in> sp_votes s \<longrightarrow> t \<le> sp_promise s v \<and> t \<le> sp_promise s c \<and>
     (\<forall>d. (v, t, d) \<in> sp_votes s \<longrightarrow> d = c))"

text \<open>An election: a quorum voted, the winner's log held older terms only, and it was only added to.\<close>

definition election_ok :: "(node_id set \<Rightarrow> bool) \<Rightarrow> spec \<Rightarrow> nat \<Rightarrow> bool" where
  "election_ok quorate s i \<longleftrightarrow> (let el = sp_elections s ! i in
     el_leader el \<in> el_quorum el \<and> quorate (el_quorum el) \<and>
     (\<forall>v\<in>el_quorum el. (v, el_term el, el_leader el) \<in> sp_votes s) \<and>
     (\<exists>new. sp_lead_log s (el_term el) = el_base el @ new \<and> (\<forall>e\<in>set new. le_term e = el_term el)) \<and>
     sorted (map le_term (el_base el)) \<and>
     (\<forall>e\<in>set (el_base el). le_term e < el_term el \<and> (\<exists>j<i. el_term (sp_elections s ! j) = le_term e)))"

definition elections_ok :: "(node_id set \<Rightarrow> bool) \<Rightarrow> spec \<Rightarrow> bool" where
  "elections_ok quorate s \<longleftrightarrow> distinct (map el_term (sp_elections s)) \<and>
     (\<forall>i < length (sp_elections s). election_ok quorate s i)"

text \<open>\<open>v\<close> acknowledged position \<open>k\<close> of the leader of \<open>t\<close>, an entry of that term.\<close>

definition acked :: "spec \<Rightarrow> node_id \<Rightarrow> u64 \<Rightarrow> nat \<Rightarrow> bool" where
  "acked s v t k \<longleftrightarrow> (\<exists>m. (v, t, m) \<in> sp_acks s \<and> k \<le> m) \<and>
     (\<exists>el\<in>set (sp_elections s). el_term el = t \<and> length (el_base el) < k)"

text \<open>Some later leader won without the first \<open>k\<close> entries of \<open>xs\<close>.\<close>

definition lacking :: "election list \<Rightarrow> u64 \<Rightarrow> nat \<Rightarrow> log_entry list \<Rightarrow> bool" where
  "lacking es t k xs \<longleftrightarrow> (\<exists>el\<in>set es. t < el_term el \<and> take k (el_base el) \<noteq> take k xs)"

definition acks_ok :: "spec \<Rightarrow> bool" where
  "acks_ok s \<longleftrightarrow> (\<forall>v t m. (v, t, m) \<in> sp_acks s \<longrightarrow> t \<le> sp_promise s v \<and> m \<le> length (sp_lead_log s t)) \<and>
     (\<forall>v t k. acked s v t k \<longrightarrow> take k (sp_log s v) = take k (sp_lead_log s t) \<or>
        lacking (sp_elections s) t k (sp_lead_log s t))"

definition stand_at :: "spec \<Rightarrow> node_id \<Rightarrow> u64 \<Rightarrow> bool" where
  "stand_at s c t \<longleftrightarrow>
     (\<forall>el\<in>set (sp_elections s). el_term el = t \<longrightarrow> el_leader el \<noteq> c) \<and>
     (\<forall>v. (v, t, c) \<in> sp_votes s \<longrightarrow>
        (\<forall>el\<in>set (sp_elections s). t \<le> el_term el \<longrightarrow> v \<in> el_quorum el \<longrightarrow> el_term el \<notin> le_term ` set (sp_log s c)) \<and>
        (\<forall>u k. acked s v u k \<longrightarrow> u < t \<longrightarrow> pos_le (u, k) (last_pos (sp_log s c)) \<or>
           lacking (sp_elections s) u k (sp_lead_log s u)))"

definition stands_ok :: "spec \<Rightarrow> bool" where
  "stands_ok s \<longleftrightarrow> (\<forall>c t. sp_stand s c = Some t \<longrightarrow> stand_at s c t)"

definition quorums_ok :: "spec \<Rightarrow> bool" where
  "quorums_ok s \<longleftrightarrow> (\<forall>i v u k. i < length (sp_elections s) \<longrightarrow> v \<in> el_quorum (sp_elections s ! i) \<longrightarrow>
     acked s v u k \<longrightarrow> u < el_term (sp_elections s ! i) \<longrightarrow>
     pos_le (u, k) (last_pos (el_base (sp_elections s ! i))) \<or>
     lacking (take i (sp_elections s)) u k (sp_lead_log s u))"

definition spec_inv :: "(node_id set \<Rightarrow> bool) \<Rightarrow> spec \<Rightarrow> bool" where
  "spec_inv quorate s \<longleftrightarrow> logs_ok s \<and> votes_ok s \<and> elections_ok quorate s \<and> acks_ok s \<and> stands_ok s \<and> quorums_ok s"

section \<open>Coherent logs\<close>

lemma coherent_take: "coherent L xs \<Longrightarrow> coherent L (take n xs)"
  by (auto simp: coherent_def min_def)

lemma coherent_at:
  assumes "coherent L xs" and "k < length xs"
  shows "take (Suc k) xs = take (Suc k) (L (le_term (xs ! k)))" and "k < length (L (le_term (xs ! k)))"
proof -
  show e: "take (Suc k) xs = take (Suc k) (L (le_term (xs ! k)))" using assms by (simp add: coherent_def)
  show "k < length (L (le_term (xs ! k)))" using arg_cong [OF e, of length] assms(2) by (simp add: min_def split: if_splits)
qed

text \<open>Log matching: two logs with an entry of the same term at a position agree up to it.\<close>

lemma coherent_match:
  assumes "coherent L xs" and "coherent L ys" and "k < length xs" and "k < length ys"
    and "le_term (xs ! k) = le_term (ys ! k)"
  shows "take (Suc k) xs = take (Suc k) ys"
  using coherent_at(1) [OF assms(1,3)] coherent_at(1) [OF assms(2,4)] assms(5) by simp

definition lead_le :: "(u64 \<Rightarrow> log_entry list) \<Rightarrow> (u64 \<Rightarrow> log_entry list) \<Rightarrow> bool" where
  "lead_le L L' \<longleftrightarrow> (\<forall>t. \<exists>zs. L' t = L t @ zs)"

lemma lead_le_take: "lead_le L L' \<Longrightarrow> k \<le> length (L t) \<Longrightarrow> take k (L' t) = take k (L t)"
  unfolding lead_le_def by (metis append_Nil2 diff_is_0_eq take0 take_append)

lemma lead_le_length: "lead_le L L' \<Longrightarrow> length (L t) \<le> length (L' t)"
  unfolding lead_le_def by (metis le_add1 length_append)

lemma coherent_mono:
  assumes "coherent L xs" and "lead_le L L'"
  shows "coherent L' xs"
  unfolding coherent_def
proof (intro allI impI)
  fix k assume k: "k < length xs"
  show "take (Suc k) xs = take (Suc k) (L' (le_term (xs ! k)))"
    using coherent_at [OF assms(1) k] lead_le_take [OF assms(2), of "Suc k" "le_term (xs ! k)"] by simp
qed

lemma coherent_snoc:
  assumes "coherent L xs" and "L (le_term e) = xs @ [e]"
  shows "coherent L (xs @ [e])"
  unfolding coherent_def
proof (intro allI impI)
  fix k assume k: "k < length (xs @ [e])"
  show "take (Suc k) (xs @ [e]) = take (Suc k) (L (le_term ((xs @ [e]) ! k)))"
  proof (cases "k < length xs")
    case True
    then show ?thesis using coherent_at(1) [OF assms(1) True] by (simp add: nth_append)
  next
    case False
    then have "k = length xs" using k by simp
    then show ?thesis using assms(2) by simp
  qed
qed

section \<open>What the invariant gives\<close>

lemma led_iff: "led s t \<longleftrightarrow> (\<exists>el\<in>set (sp_elections s). el_term el = t)"
  by (auto simp: led_def)

lemma election_okD:
  assumes "elections_ok quorate s" and "el \<in> set (sp_elections s)"
  shows "el_leader el \<in> el_quorum el" and "quorate (el_quorum el)"
    and "\<forall>v\<in>el_quorum el. (v, el_term el, el_leader el) \<in> sp_votes s"
    and "\<exists>new. sp_lead_log s (el_term el) = el_base el @ new \<and> (\<forall>e\<in>set new. le_term e = el_term el)"
    and "sorted (map le_term (el_base el))" and "\<forall>e\<in>set (el_base el). le_term e < el_term el"
  using assms unfolding elections_ok_def election_ok_def Let_def in_set_conv_nth by blast+

lemma one_election:
  "elections_ok quorate s \<Longrightarrow> el \<in> set (sp_elections s) \<Longrightarrow> el' \<in> set (sp_elections s) \<Longrightarrow>
     el_term el = el_term el' \<Longrightarrow> el = el'"
  by (auto simp: elections_ok_def distinct_map dest: inj_onD)

lemma sorted_lead:
  assumes "elections_ok quorate s" and "led s t"
  shows "sorted (map le_term (sp_lead_log s t))"
proof -
  obtain el where el: "el \<in> set (sp_elections s)" "el_term el = t" using assms(2) by (auto simp: led_iff)
  obtain new where new: "sp_lead_log s t = el_base el @ new" "\<forall>e\<in>set new. le_term e = t"
    using election_okD(4) [OF assms(1) el(1)] el(2) by auto
  have "sorted (map le_term new)" using new(2) by (auto simp: sorted_iff_nth_mono)
  then show ?thesis
    using election_okD(5,6) [OF assms(1) el(1)] new el(2) by (auto simp: sorted_append less_imp_le)
qed

lemma coherent_led: "logs_ok s \<Longrightarrow> coherent (sp_lead_log s) xs \<Longrightarrow> e \<in> set xs \<Longrightarrow> led s (le_term e)"
  using coherent_at(2) [of "sp_lead_log s" xs] by (force simp: in_set_conv_nth logs_ok_def)

lemma coherent_prefix: "coherent L xs \<Longrightarrow> xs \<noteq> [] \<Longrightarrow> xs = take (length xs) (L (le_term (last xs)))"
  using coherent_at(1) [of L xs "length xs - 1"] by (simp add: last_conv_nth)

lemma coherent_last:
  assumes "coherent L xs" and "xs \<noteq> []"
  shows "L (le_term (last xs)) ! (length xs - 1) = last xs"
proof -
  have k: "length xs - 1 < length xs" using assms(2) by simp
  have "take (Suc (length xs - 1)) xs ! (length xs - 1) =
      take (Suc (length xs - 1)) (L (le_term (xs ! (length xs - 1)))) ! (length xs - 1)"
    using coherent_at(1) [OF assms(1) k] by (rule arg_cong)
  then show ?thesis using assms(2) by (simp add: last_conv_nth)
qed

lemma sorted_coherent:
  assumes "elections_ok quorate s" and "logs_ok s" and "coherent (sp_lead_log s) xs"
  shows "sorted (map le_term xs)"
proof (cases "xs = []")
  case False
  have "led s (le_term (last xs))" using coherent_led [OF assms(2,3)] False by simp
  from sorted_lead [OF assms(1) this] show ?thesis
    by (subst coherent_prefix [OF assms(3) False]) (simp add: take_map [symmetric] sorted_wrt_take)
qed simp

text \<open>An entry of its leader's own term sits past the log the leader won with.\<close>

lemma own_entry:
  assumes "elections_ok quorate s" and "el \<in> set (sp_elections s)" and "k < length (sp_lead_log s (el_term el))"
  shows "le_term (sp_lead_log s (el_term el) ! k) = el_term el \<longleftrightarrow> length (el_base el) \<le> k"
proof -
  obtain new where new: "sp_lead_log s (el_term el) = el_base el @ new" "\<forall>e\<in>set new. le_term e = el_term el"
    using election_okD(4) [OF assms(1,2)] by blast
  moreover have "k < length (el_base el) \<Longrightarrow> le_term (el_base el ! k) < el_term el"
    using election_okD(6) [OF assms(1,2)] nth_mem by blast
  ultimately show ?thesis using assms(3) by (auto simp: nth_append)
qed

lemma holds_pos:
  assumes "elections_ok quorate s" and "logs_ok s" and "coherent (sp_lead_log s) xs"
    and "el \<in> set (sp_elections s)" and "length (el_base el) < k" and "k \<le> length (sp_lead_log s (el_term el))"
    and "take k xs = take k (sp_lead_log s (el_term el))"
  shows "pos_le (el_term el, k) (last_pos xs)"
proof -
  have len: "k \<le> length xs" using arg_cong [OF assms(7), of length] assms(6) by simp
  have k: "k - 1 < k" "0 < k" using assms(5) by auto
  have "xs ! (k - 1) = sp_lead_log s (el_term el) ! (k - 1)" using assms(7) k(1) by (metis nth_take)
  then have t: "le_term (xs ! (k - 1)) = el_term el"
    using own_entry [OF assms(1,4), of "k - 1"] assms(5,6) k by simp
  have "sorted (map le_term xs)" by (rule sorted_coherent [OF assms(1-3)])
  then have "le_term (xs ! (k - 1)) \<le> le_term (xs ! (length xs - 1))"
    using sorted_nth_mono [of "map le_term xs" "k - 1" "length xs - 1"] len k by simp
  moreover have ne: "xs \<noteq> []" using len k by auto
  ultimately have "el_term el \<le> le_term (last xs)" using t last_conv_nth [OF ne] by simp
  then show ?thesis using len ne by (auto simp: pos_le_def last_pos_def)
qed

lemma pos_le_trans: "pos_le a b \<Longrightarrow> pos_le b c \<Longrightarrow> pos_le a c"
  by (auto simp: pos_le_def)

lemma ackedD:
  assumes "acks_ok s" and "acked s v t k"
  shows "t \<le> sp_promise s v" and "k \<le> length (sp_lead_log s t)"
    and "take k (sp_log s v) = take k (sp_lead_log s t) \<or> lacking (sp_elections s) t k (sp_lead_log s t)"
  using assms unfolding acks_ok_def acked_def by (blast intro: order_trans)+

lemma votes_okD:
  assumes "votes_ok s" and "(v, t, c) \<in> sp_votes s"
  shows "t \<le> sp_promise s v" and "t \<le> sp_promise s c" and "(v, t, d) \<in> sp_votes s \<Longrightarrow> d = c"
  using assms unfolding votes_ok_def by blast+

section \<open>Every step keeps the invariant\<close>

lemma acked_cong: "sp_acks s' = sp_acks s \<Longrightarrow> sp_elections s' = sp_elections s \<Longrightarrow> acked s' v t k = acked s v t k"
  by (simp add: acked_def)

text \<open>Which part of the state each part of the invariant reads.\<close>

lemma parts_cong:
  "sp_log s' = sp_log s \<Longrightarrow> sp_lead_log s' = sp_lead_log s \<Longrightarrow> sp_elections s' = sp_elections s \<Longrightarrow>
     logs_ok s' = logs_ok s"
  "sp_votes s' = sp_votes s \<Longrightarrow> sp_promise s' = sp_promise s \<Longrightarrow> votes_ok s' = votes_ok s"
  "sp_votes s' = sp_votes s \<Longrightarrow> sp_lead_log s' = sp_lead_log s \<Longrightarrow> sp_elections s' = sp_elections s \<Longrightarrow>
     elections_ok quorate s' = elections_ok quorate s"
  "sp_acks s' = sp_acks s \<Longrightarrow> sp_promise s' = sp_promise s \<Longrightarrow> sp_log s' = sp_log s \<Longrightarrow>
     sp_lead_log s' = sp_lead_log s \<Longrightarrow> sp_elections s' = sp_elections s \<Longrightarrow> acks_ok s' = acks_ok s"
  "sp_votes s' = sp_votes s \<Longrightarrow> sp_acks s' = sp_acks s \<Longrightarrow> sp_log s' = sp_log s \<Longrightarrow>
     sp_lead_log s' = sp_lead_log s \<Longrightarrow> sp_elections s' = sp_elections s \<Longrightarrow> stand_at s' c t = stand_at s c t"
  "sp_stand s' = sp_stand s \<Longrightarrow> sp_votes s' = sp_votes s \<Longrightarrow> sp_acks s' = sp_acks s \<Longrightarrow> sp_log s' = sp_log s \<Longrightarrow>
     sp_lead_log s' = sp_lead_log s \<Longrightarrow> sp_elections s' = sp_elections s \<Longrightarrow> stands_ok s' = stands_ok s"
  "sp_acks s' = sp_acks s \<Longrightarrow> sp_lead_log s' = sp_lead_log s \<Longrightarrow> sp_elections s' = sp_elections s \<Longrightarrow>
     quorums_ok s' = quorums_ok s"
  by (simp_all only: logs_ok_def led_def votes_ok_def elections_ok_def election_ok_def acks_ok_def stands_ok_def stand_at_def
      quorums_ok_def acked_def)

lemma spec_invD:
  "spec_inv quorate s \<Longrightarrow> logs_ok s" "spec_inv quorate s \<Longrightarrow> votes_ok s" "spec_inv quorate s \<Longrightarrow> elections_ok quorate s"
  "spec_inv quorate s \<Longrightarrow> acks_ok s" "spec_inv quorate s \<Longrightarrow> stands_ok s" "spec_inv quorate s \<Longrightarrow> quorums_ok s"
  by (simp_all add: spec_inv_def)

lemma inv_promise:
  assumes "spec_inv quorate s" and "sp_promise s v \<le> t"
  shows "spec_inv quorate (s\<lparr>sp_promise := (sp_promise s)(v := t)\<rparr>)"
proof -
  let ?s = "s\<lparr>sp_promise := (sp_promise s)(v := t)\<rparr>"
  note i = spec_invD [OF assms(1)]
  have up: "u \<le> sp_promise s w \<Longrightarrow> u \<le> sp_promise ?s w" for u w using assms(2) by auto
  have "votes_ok ?s" using i(2) up unfolding votes_ok_def by fastforce
  moreover have "acks_ok ?s" using i(4) up unfolding acks_ok_def acked_def by fastforce
  ultimately show ?thesis using i unfolding spec_inv_def by (simp cong: parts_cong)
qed

lemma inv_stand:
  assumes "spec_inv quorate s" and "sp_promise s c < t"
  shows "spec_inv quorate (s\<lparr>sp_stand := (sp_stand s)(c := Some t)\<rparr>)"
proof -
  note i = spec_invD [OF assms(1)]
  have nv: "(v, t, c) \<notin> sp_votes s" for v using votes_okD(2) [OF i(2), of v t c] assms(2) by linarith
  have "el_leader el \<noteq> c" if "el \<in> set (sp_elections s)" "el_term el = t" for el
    using election_okD(1,3) [OF i(3) that(1)] that(2) nv by auto
  then have "stand_at s c t" using nv by (simp add: stand_at_def)
  then show ?thesis using i unfolding spec_inv_def by (simp add: stands_ok_def cong: parts_cong)
qed

lemma inv_step_down:
  assumes "spec_inv quorate s"
  shows "spec_inv quorate (s\<lparr>sp_stand := (sp_stand s)(c := None)\<rparr>)"
  using assms unfolding spec_inv_def by (simp add: stands_ok_def cong: parts_cong)

lemma inv_vote:
  assumes "spec_inv quorate s" and "t \<le> sp_promise s v" and "t \<le> sp_promise s c"
    and one: "\<forall>d. (v, t, d) \<in> sp_votes s \<longrightarrow> d = c"
    and st: "sp_stand s c = Some t \<Longrightarrow> sp_promise s v = t \<and> pos_le (last_pos (sp_log s v)) (last_pos (sp_log s c))"
  shows "spec_inv quorate (s\<lparr>sp_votes := insert (v, t, c) (sp_votes s)\<rparr>)"
proof -
  let ?s = "s\<lparr>sp_votes := insert (v, t, c) (sp_votes s)\<rparr>"
  note i = spec_invD [OF assms(1)]
  have "votes_ok ?s" using i(2) assms(2-4) unfolding votes_ok_def by auto
  moreover have "elections_ok quorate ?s" using i(3) unfolding elections_ok_def election_ok_def Let_def by auto
  moreover have "stand_at ?s d u" if d: "sp_stand s d = Some u" for d u
  proof -
    have s: "stand_at s d u" using i(5) d by (simp add: stands_ok_def)
    have q: "el_term el \<notin> le_term ` set (sp_log s c)"
      if c: "d = c" "u = t" and el: "el \<in> set (sp_elections s)" "t \<le> el_term el" "v \<in> el_quorum el" for el
    proof -
      have "(v, el_term el, el_leader el) \<in> sp_votes s" using election_okD(3) [OF i(3) el(1)] el(3) by blast
      moreover from this have "el_term el = t" using votes_okD(1) [OF i(2), of v "el_term el"] st d c el(2) by (simp add: le_antisym)
      ultimately have "el_term el = t" "el_leader el = c" using one by simp_all
      then show ?thesis using s el(1) c unfolding stand_at_def by blast
    qed
    have p: "pos_le (w, k) (last_pos (sp_log s c)) \<or> lacking (sp_elections s) w k (sp_lead_log s w)"
      if c: "d = c" "u = t" and a: "acked s v w k" for w k
    proof -
      obtain el where el: "el \<in> set (sp_elections s)" "el_term el = w" "length (el_base el) < k"
        using a by (auto simp: acked_def)
      have "coherent (sp_lead_log s) (sp_log s v)" using i(1) by (simp add: logs_ok_def)
      from holds_pos [OF i(3,1) this el(1,3)] el(2) ackedD(2,3) [OF i(4) a]
      show ?thesis using pos_le_trans st d c by blast
    qed
    have a: "acked ?s = acked s" by (intro ext acked_cong) simp_all
    show ?thesis using s q p unfolding stand_at_def a by simp
  qed
  ultimately show ?thesis using i unfolding spec_inv_def by (simp add: stands_ok_def cong: parts_cong)
qed

text \<open>Logs of leaders only grow, so what is said of their first entries stays true.\<close>

lemma lead_le_refl [simp]: "lead_le L L"
  by (simp add: lead_le_def)

lemma logs_ok_grow:
  assumes "logs_ok s" and "lead_le (sp_lead_log s) (sp_lead_log s')"
    and "\<And>v. sp_log s' v = sp_log s v \<or> (coherent (sp_lead_log s') (sp_log s' v) \<and> batch_after 0 (sp_log s' v))"
    and "\<And>t. sp_lead_log s' t = sp_lead_log s t \<or>
      (led s' t \<and> coherent (sp_lead_log s') (sp_lead_log s' t) \<and> batch_after 0 (sp_lead_log s' t))"
    and "set (sp_elections s) \<subseteq> set (sp_elections s')"
  shows "logs_ok s'"
proof -
  have m: "coherent (sp_lead_log s) xs \<Longrightarrow> coherent (sp_lead_log s') xs" for xs using coherent_mono assms(2) by blast
  have l: "led s t \<Longrightarrow> led s' t" for t using assms(5) by (auto simp: led_def)
  have "coherent (sp_lead_log s') (sp_log s' v) \<and> batch_after 0 (sp_log s' v)" for v
    using assms(1) assms(3) [of v] m unfolding logs_ok_def by metis
  moreover have "coherent (sp_lead_log s') (sp_lead_log s' t) \<and> batch_after 0 (sp_lead_log s' t) \<and>
      (\<not> led s' t \<longrightarrow> sp_lead_log s' t = [])" for t
    using assms(1) assms(4) [of t] m l unfolding logs_ok_def by metis
  ultimately show ?thesis by (simp add: logs_ok_def)
qed

lemma acked_grow:
  assumes "acks_ok s" and "acked s v t k" and "lead_le (sp_lead_log s) (sp_lead_log s')"
  shows "take k (sp_lead_log s' t) = take k (sp_lead_log s t)"
  by (rule lead_le_take [OF assms(3) ackedD(2) [OF assms(1,2)]])

lemma lacking_mono: "lacking es t k xs \<Longrightarrow> set es \<subseteq> set es' \<Longrightarrow> lacking es' t k xs"
  by (auto simp: lacking_def)

lemma lacking_take: "take k xs = take k ys \<Longrightarrow> lacking es t k xs = lacking es t k ys"
  by (simp add: lacking_def)

lemma inv_append:
  assumes "spec_inv quorate s" and "led s t" and "sp_stand s c = None" and "sp_log s c = sp_lead_log s t"
    and "le_term e = t" and "le_index e = Suc (length (sp_lead_log s t))"
  shows "spec_inv quorate (s\<lparr>sp_lead_log := (sp_lead_log s)(t := sp_lead_log s t @ [e]),
      sp_log := (sp_log s)(c := sp_log s c @ [e])\<rparr>)" (is "spec_inv quorate ?s")
proof -
  note i = spec_invD [OF assms(1)]
  have le: "lead_le (sp_lead_log s) (sp_lead_log ?s)" by (simp add: lead_le_def)
  have b: "batch_after 0 (sp_lead_log s t)" and co: "coherent (sp_lead_log s) (sp_lead_log s t)"
    using i(1) by (simp_all add: logs_ok_def)
  have "coherent (sp_lead_log ?s) (sp_lead_log s t @ [e])"
    using coherent_mono [OF co le] assms(5) by (intro coherent_snoc) simp_all
  then have "logs_ok ?s" using assms(2,4,6) b
    by (intro logs_ok_grow [OF i(1) le]) (auto simp: batch_after_append batch_after_Cons led_def)
  moreover have a: "acked ?s = acked s" by (intro ext acked_cong) simp_all
  note g = acked_grow [OF i(4) _ le] and la = lacking_take [OF acked_grow [OF i(4) _ le]]
  have "acks_ok ?s"
  proof -
    have 1: "u \<le> sp_promise ?s v \<and> m \<le> length (sp_lead_log ?s u)" if "(v, u, m) \<in> sp_acks ?s" for v u m
      using i(4) that lead_le_length [OF le, of u] unfolding acks_ok_def by fastforce
    have 2: "take k (sp_log ?s v) = take k (sp_log s v)" if "take k (sp_log s v) = take k (sp_lead_log s u)" "acked s v u k"
      for v u k
      using arg_cong [OF that(1), of length] ackedD(2) [OF i(4) that(2)] by auto
    have 3: "take k (sp_log ?s v) = take k (sp_lead_log ?s u) \<or> lacking (sp_elections ?s) u k (sp_lead_log ?s u)"
      if "acked s v u k" for v u k
      using ackedD(3) [OF i(4) that]
    proof
      assume "take k (sp_log s v) = take k (sp_lead_log s u)"
      from 2 [OF this that] this g [OF that] show ?thesis by (simp only: simp_thms)
    next
      assume "lacking (sp_elections s) u k (sp_lead_log s u)"
      then show ?thesis using la [OF that] by simp
    qed
    show ?thesis unfolding acks_ok_def a using 1 3 by blast
  qed
  moreover have "elections_ok quorate ?s"
  proof -
    have "\<exists>new. sp_lead_log ?s (el_term el) = el_base el @ new \<and> (\<forall>x\<in>set new. le_term x = el_term el)"
      if "el \<in> set (sp_elections s)" for el
      using election_okD(4) [OF i(3) that] assms(5) by auto
    then show ?thesis using i(3) unfolding elections_ok_def election_ok_def Let_def by simp
  qed
  moreover have "stand_at ?s d u" if "sp_stand s d = Some u" for d u
  proof -
    have "d \<noteq> c" using assms(3) that by auto
    then show ?thesis using i(5) that la unfolding stands_ok_def stand_at_def a by simp
  qed
  moreover have "quorums_ok ?s" using i(6) la unfolding quorums_ok_def a by simp
  ultimately show ?thesis using i(2) unfolding spec_inv_def by (simp add: stands_ok_def cong: parts_cong)
qed

lemma base_take:
  assumes "elections_ok quorate s" and "el \<in> set (sp_elections s)" and "take k (el_base el) = take k xs" and "k \<le> length xs"
  shows "k \<le> length (el_base el)" and "take k (sp_lead_log s (el_term el)) = take k xs"
proof -
  show k: "k \<le> length (el_base el)" using arg_cong [OF assms(3), of length] assms(4) by simp
  obtain new where "sp_lead_log s (el_term el) = el_base el @ new" using election_okD(4) [OF assms(1,2)] by blast
  then show "take k (sp_lead_log s (el_term el)) = take k xs" using k assms(3) by simp
qed

lemma inv_accept:
  assumes "spec_inv quorate s" and "led s t" and "sp_promise s v \<le> t" and "sp_stand s v = None"
    and "agree_le (sp_log s v) (sp_lead_log s t) n"
  shows "spec_inv quorate (s\<lparr>sp_log := (sp_log s)(v := take n (sp_lead_log s t))\<rparr>)" (is "spec_inv quorate ?s")
proof -
  note i = spec_invD [OF assms(1)]
  have b: "batch_after 0 (sp_lead_log s t)" and co: "coherent (sp_lead_log s) (sp_lead_log s t)"
    using i(1) by (simp_all add: logs_ok_def)
  have "logs_ok ?s"
    by (rule logs_ok_grow [OF i(1)]) (auto simp: coherent_take [OF co] batch_after_take [OF b])
  moreover have a: "acked ?s = acked s" by (intro ext acked_cong) simp_all
  have keep: "take k (take n (sp_lead_log s t)) = take k (sp_lead_log s u) \<or> lacking (sp_elections s) u k (sp_lead_log s u)"
    if ac: "acked s v u k" for u k
  proof (rule disjCI)
    assume nl: "\<not> lacking (sp_elections s) u k (sp_lead_log s u)"
    have k: "k \<le> length (sp_lead_log s u)" by (rule ackedD(2) [OF i(4) ac])
    have h: "take k (sp_log s v) = take k (sp_lead_log s u)" using ackedD(3) [OF i(4) ac] nl by simp
    have "u \<le> t" using ackedD(1) [OF i(4) ac] assms(3) by simp
    obtain el where el: "el \<in> set (sp_elections s)" "el_term el = t" using assms(2) by (auto simp: led_iff)
    have same: "take k (sp_lead_log s t) = take k (sp_lead_log s u)"
    proof (cases "u = t")
      case False
      then have "take k (el_base el) = take k (sp_lead_log s u)" using nl el \<open>u \<le> t\<close> by (auto simp: lacking_def)
      from base_take(2) [OF i(3) el(1) this k] show ?thesis using el(2) by simp
    qed simp
    have "k \<le> length (sp_log s v)" "k \<le> length (sp_lead_log s t)"
      using arg_cong [OF h, of length] arg_cong [OF same, of length] k by simp_all
    then have "k \<le> n" using assms(5) h same by (simp add: agree_le_def)
    then show "take k (take n (sp_lead_log s t)) = take k (sp_lead_log s u)" using same by (simp add: min_def)
  qed
  have "acks_ok ?s" using i(4) keep unfolding acks_ok_def a by simp
  moreover have "stand_at ?s d u" if "sp_stand s d = Some u" for d u
  proof -
    have "d \<noteq> v" using assms(4) that by auto
    then show ?thesis using i(5) that unfolding stands_ok_def stand_at_def a by simp
  qed
  moreover have "quorums_ok ?s" using i(6) unfolding quorums_ok_def a by simp
  ultimately show ?thesis using i(2,3) unfolding spec_inv_def by (simp add: stands_ok_def cong: parts_cong)
qed

lemma inv_ack:
  assumes "spec_inv quorate s" and "led s t" and "sp_promise s v = t" and "m \<le> length (sp_lead_log s t)"
    and "take m (sp_log s v) = take m (sp_lead_log s t)"
  shows "spec_inv quorate (s\<lparr>sp_acks := insert (v, t, m) (sp_acks s)\<rparr>)" (is "spec_inv quorate ?s")
proof -
  note i = spec_invD [OF assms(1)]
  have new: "acked ?s w u k \<longleftrightarrow> acked s w u k \<or>
      (w = v \<and> u = t \<and> k \<le> m \<and> (\<exists>el\<in>set (sp_elections s). el_term el = t \<and> length (el_base el) < k))" for w u k
    by (auto simp: acked_def)
  have held: "take k (sp_log s v) = take k (sp_lead_log s t)" if "k \<le> m" for k
    using arg_cong [OF assms(5), of "take k"] that by (simp add: min_def)
  have "acks_ok ?s"
  proof -
    have "u \<le> sp_promise ?s w \<and> j \<le> length (sp_lead_log ?s u)" if "(w, u, j) \<in> sp_acks ?s" for w u j
      using i(4) that assms(3,4) unfolding acks_ok_def by auto
    moreover have "take k (sp_log ?s w) = take k (sp_lead_log ?s u) \<or> lacking (sp_elections ?s) u k (sp_lead_log ?s u)"
      if "acked ?s w u k" for w u k
      using that ackedD(3) [OF i(4)] held unfolding new by auto
    ultimately show ?thesis unfolding acks_ok_def by blast
  qed
  moreover have late: "\<not> t < u" if "(v, u, c) \<in> sp_votes s" for u c
    using votes_okD(1) [OF i(2) that] assms(3) by simp
  have "stand_at ?s d u" if "sp_stand s d = Some u" for d u
    using i(5) that late unfolding stands_ok_def stand_at_def new by auto
  moreover have "quorums_ok ?s"
  proof -
    have "\<not> t < el_term (sp_elections s ! j)" if "j < length (sp_elections s)" "v \<in> el_quorum (sp_elections s ! j)" for j
      using election_okD(3) [OF i(3) nth_mem [OF that(1)]] that(2) late by blast
    then show ?thesis using i(6) unfolding quorums_ok_def new by auto
  qed
  ultimately show ?thesis using i(1-3) unfolding spec_inv_def by (simp add: stands_ok_def cong: parts_cong)
qed

section \<open>Quorums that meet\<close>

text \<open>Position \<open>k\<close> of the leader of \<open>t\<close> is chosen: an entry of that term that a quorum acknowledged.\<close>

definition chosen :: "(node_id set \<Rightarrow> bool) \<Rightarrow> spec \<Rightarrow> u64 \<Rightarrow> nat \<Rightarrow> bool" where
  "chosen quorate s t k \<longleftrightarrow> (\<exists>A. quorate A \<and> (\<forall>v\<in>A. acked s v t k))"

text \<open>A run of entries that some leader of a term up to \<open>T\<close> saw chosen.\<close>

definition settled :: "(node_id set \<Rightarrow> bool) \<Rightarrow> spec \<Rightarrow> u64 \<Rightarrow> log_entry list \<Rightarrow> bool" where
  "settled quorate s T xs \<longleftrightarrow> xs = [] \<or>
     (\<exists>t k. chosen quorate s t k \<and> t \<le> T \<and> length xs \<le> k \<and> xs = take (length xs) (sp_lead_log s t))"

lemma settled_later: "settled quorate s T xs \<Longrightarrow> T \<le> U \<Longrightarrow> settled quorate s U xs"
  unfolding settled_def by (blast intro: order_trans)

lemma settled_take: "settled quorate s T xs \<Longrightarrow> settled quorate s T (take n xs)"
proof (cases "xs = []")
  case False
  assume "settled quorate s T xs"
  with False obtain t k where t: "chosen quorate s t k" "t \<le> T" "length xs \<le> k" "xs = take (length xs) (sp_lead_log s t)"
    by (auto simp: settled_def)
  have "take n xs = take (length (take n xs)) (sp_lead_log s t)" using t(4) by (metis length_take min.commute take_take)
  then show ?thesis using t(1-3) unfolding settled_def by fastforce
qed (simp add: settled_def)

text \<open>What never goes away.\<close>

definition grows :: "spec \<Rightarrow> spec \<Rightarrow> bool" where
  "grows s s' \<longleftrightarrow> lead_le (sp_lead_log s) (sp_lead_log s') \<and> sp_acks s \<subseteq> sp_acks s' \<and>
     set (sp_elections s) \<subseteq> set (sp_elections s')"

lemma grows_trans: "grows s s' \<Longrightarrow> grows s' s'' \<Longrightarrow> grows s s''"
  unfolding grows_def lead_le_def by (metis append.assoc order_trans)

lemma chosen_grows: "grows s s' \<Longrightarrow> chosen quorate s t k \<Longrightarrow> chosen quorate s' t k"
  unfolding grows_def chosen_def acked_def by blast

locale meeting_quorums =
  fixes quorate :: "node_id set \<Rightarrow> bool"
  assumes meet: "quorate A \<Longrightarrow> quorate B \<Longrightarrow> \<exists>v. v \<in> A \<and> v \<in> B"
begin

text \<open>A candidate with a quorum stands in a term nobody won, and its log has older terms only.\<close>

lemma candidate_fresh:
  assumes "spec_inv quorate s" and "sp_stand s c = Some t" and "quorate Q" and "\<forall>v\<in>Q. (v, t, c) \<in> sp_votes s"
  shows "\<not> led s t" and "e \<in> set (sp_log s c) \<Longrightarrow> le_term e < t"
proof -
  note i = spec_invD [OF assms(1)]
  have st: "stand_at s c t" using i(5) assms(2) by (simp add: stands_ok_def)
  show "\<not> led s t"
  proof
    assume "led s t"
    then obtain el where el: "el \<in> set (sp_elections s)" "el_term el = t" by (auto simp: led_iff)
    obtain w where w: "w \<in> Q" "w \<in> el_quorum el" using meet [OF assms(3) election_okD(2) [OF i(3) el(1)]] by blast
    then have "(w, t, c) \<in> sp_votes s" "(w, t, el_leader el) \<in> sp_votes s"
      using assms(4) election_okD(3) [OF i(3) el(1)] el(2) by auto
    then have "el_leader el = c" by (rule votes_okD(3) [OF i(2)])
    then show False using st el by (auto simp: stand_at_def)
  qed
  assume e: "e \<in> set (sp_log s c)"
  then have "led s (le_term e)" using i(1) by (intro coherent_led) (auto simp: logs_ok_def)
  then obtain el where el: "el \<in> set (sp_elections s)" "el_term el = le_term e" by (auto simp: led_iff)
  obtain w where "w \<in> Q" "w \<in> el_quorum el" using meet [OF assms(3) election_okD(2) [OF i(3) el(1)]] by blast
  then have "t \<le> el_term el \<Longrightarrow> el_term el \<notin> le_term ` set (sp_log s c)"
    using st assms(4) el(1) unfolding stand_at_def by blast
  then show "le_term e < t" using e el(2) by fastforce
qed

lemma elect_elections:
  assumes "spec_inv quorate s" and "sp_stand s c = Some t" and "c \<in> Q" and "quorate Q"
    and "\<forall>v\<in>Q. (v, t, c) \<in> sp_votes s"
  shows "elections_ok quorate (s\<lparr>sp_stand := (sp_stand s)(c := None),
      sp_elections := sp_elections s @ [\<lparr>el_term = t, el_leader = c, el_base = sp_log s c, el_quorum = Q\<rparr>],
      sp_lead_log := (sp_lead_log s)(t := sp_log s c)\<rparr>)" (is "elections_ok quorate ?s")
proof -
  note i = spec_invD [OF assms(1)]
  let ?el = "\<lparr>el_term = t, el_leader = c, el_base = sp_log s c, el_quorum = Q\<rparr>" and ?es = "sp_elections s"
  note fresh = candidate_fresh [OF assms(1,2,4,5)]
  have co: "coherent (sp_lead_log s) (sp_log s c)" using i(1) by (simp add: logs_ok_def)
  have old: "el_term el \<noteq> t" if "el \<in> set ?es" for el using fresh(1) that by (auto simp: led_iff)
  have "election_ok quorate ?s j" if j: "j < length ?es" for j
  proof -
    have "\<exists>x<j. el_term ((?es @ [?el]) ! x) = u" if "\<exists>x<j. el_term (?es ! x) = u" for u
      using that j by (fastforce simp: nth_append)
    then show ?thesis using i(3) j old [OF nth_mem [OF j]]
      unfolding elections_ok_def election_ok_def Let_def by (simp add: nth_append [of _ _ j])
  qed
  moreover have "election_ok quorate ?s (length ?es)"
  proof -
    have "\<exists>j<length ?es. el_term (?es ! j) = le_term e" if "e \<in> set (sp_log s c)" for e
      using coherent_led [OF i(1) co that] by (auto simp: led_def in_set_conv_nth)
    then have "\<exists>j<length ?es. el_term ((?es @ [?el]) ! j) = le_term e" if "e \<in> set (sp_log s c)" for e
      using that by (fastforce simp: nth_append)
    then show ?thesis using assms(3-5) fresh(2) sorted_coherent [OF i(3,1) co]
      unfolding election_ok_def Let_def by simp
  qed
  ultimately have "\<forall>j<length (sp_elections ?s). election_ok quorate ?s j" by (simp add: less_Suc_eq)
  moreover have "distinct (map el_term (?es @ [?el]))" using i(3) old by (auto simp: elections_ok_def)
  ultimately show ?thesis by (simp add: elections_ok_def)
qed

lemma inv_elect:
  assumes "spec_inv quorate s" and "sp_stand s c = Some t" and "c \<in> Q" and "quorate Q"
    and "\<forall>v\<in>Q. (v, t, c) \<in> sp_votes s"
  shows "spec_inv quorate (s\<lparr>sp_stand := (sp_stand s)(c := None),
      sp_elections := sp_elections s @ [\<lparr>el_term = t, el_leader = c, el_base = sp_log s c, el_quorum = Q\<rparr>],
      sp_lead_log := (sp_lead_log s)(t := sp_log s c)\<rparr>)" (is "spec_inv quorate ?s")
proof -
  note i = spec_invD [OF assms(1)]
  let ?el = "\<lparr>el_term = t, el_leader = c, el_base = sp_log s c, el_quorum = Q\<rparr>" and ?es = "sp_elections s"
  note fresh = candidate_fresh [OF assms(1,2,4,5)]
  have empty: "sp_lead_log s t = []" using i(1) fresh(1) by (simp add: logs_ok_def)
  have le: "lead_le (sp_lead_log s) (sp_lead_log ?s)" by (simp add: lead_le_def empty)
  have co: "coherent (sp_lead_log s) (sp_log s c)" "batch_after 0 (sp_log s c)" using i(1) by (simp_all add: logs_ok_def)
  have "logs_ok ?s"
    by (rule logs_ok_grow [OF i(1) le]) (use coherent_mono [OF co(1) le] co(2) in \<open>auto simp: led_def\<close>)
  moreover have "elections_ok quorate ?s" by (rule elect_elections [OF assms])
  moreover have new: "acked ?s v u k \<longleftrightarrow> acked s v u k" for v u k
  proof -
    have "m = 0" if "(v, t, m) \<in> sp_acks s" for m using i(4) that empty unfolding acks_ok_def by fastforce
    then show ?thesis by (auto simp: acked_def)
  qed
  have g: "take k (sp_lead_log ?s u) = take k (sp_lead_log s u)" if "acked s v u k" for v u k
    by (rule acked_grow [OF i(4) that le])
  have la: "lacking es w k (sp_lead_log ?s u) = lacking es w k (sp_lead_log s u)" if "acked s v u k" for v u k es w
    by (rule lacking_take [OF g [OF that]])
  have lm: "lacking ?es w k xs \<Longrightarrow> lacking (?es @ [?el]) w k xs" for w k xs by (rule lacking_mono) auto
  have "acks_ok ?s"
  proof -
    have "u \<le> sp_promise ?s v \<and> m \<le> length (sp_lead_log ?s u)" if "(v, u, m) \<in> sp_acks ?s" for v u m
      using i(4) that lead_le_length [OF le, of u] unfolding acks_ok_def by fastforce
    moreover have "take k (sp_log ?s v) = take k (sp_lead_log ?s u) \<or> lacking (sp_elections ?s) u k (sp_lead_log ?s u)"
      if "acked s v u k" for v u k
      using ackedD(3) [OF i(4) that] g [OF that] la [OF that] lm by auto
    ultimately show ?thesis unfolding acks_ok_def new by blast
  qed
  moreover have "stand_at ?s d u" if "sp_stand ?s d = Some u" for d u
  proof -
    have d: "d \<noteq> c" "sp_stand s d = Some u" using that by (auto split: if_splits)
    then have st: "stand_at s d u" using i(5) by (simp add: stands_ok_def)
    have "t \<notin> le_term ` set (sp_log s d)"
      using coherent_led [OF i(1), of "sp_log s d"] i(1) fresh(1) by (auto simp: logs_ok_def)
    then show ?thesis using st d(1) la lm unfolding stand_at_def new by (simp add: ball_Un) blast
  qed
  moreover have "quorums_ok ?s"
  proof -
    have "stand_at s c t" using i(5) assms(2) by (simp add: stands_ok_def)
    then have "pos_le (u, k) (last_pos (sp_log s c)) \<or> lacking ?es u k (sp_lead_log s u)"
      if "v \<in> Q" "acked s v u k" "u < t" for v u k
      using that assms(5) unfolding stand_at_def by blast
    then show ?thesis using i(6) la unfolding quorums_ok_def new by (auto simp: nth_append less_Suc_eq)
  qed
  ultimately show ?thesis using i(2) unfolding spec_inv_def by (simp add: stands_ok_def cong: parts_cong)
qed

lemma spec_inv_step: "spec_step quorate s s' \<Longrightarrow> spec_inv quorate s \<Longrightarrow> spec_inv quorate s'"
proof (induction rule: spec_step.induct)
  case (Promise s v t)
  then show ?case by (intro inv_promise)
next
  case (Stand s c t)
  then show ?case by (intro inv_stand)
next
  case (StepDown s c)
  then show ?case by (intro inv_step_down)
next
  case (Vote t s v c)
  then show ?case by (intro inv_vote)
next
  case (Elect s c t Q)
  then show ?case by (intro inv_elect)
next
  case (Append s t c e)
  then show ?case by (intro inv_append)
next
  case (Accept s t v n)
  then show ?case by (intro inv_accept)
next
  case (Ack s t v m)
  then show ?case by (intro inv_ack)
qed

lemma spec_inv_steps: "(spec_step quorate)\<^sup>*\<^sup>* s s' \<Longrightarrow> spec_inv quorate s \<Longrightarrow> spec_inv quorate s'"
  by (induction rule: rtranclp_induct) (auto intro: spec_inv_step)

lemma chosen_fits:
  assumes "spec_inv quorate s" and "chosen quorate s t k"
  shows "k \<le> length (sp_lead_log s t)" and "\<exists>el\<in>set (sp_elections s). el_term el = t \<and> length (el_base el) < k"
proof -
  obtain A v where "\<forall>v\<in>A. acked s v t k" "v \<in> A" using assms(2) meet unfolding chosen_def by metis
  then have a: "acked s v t k" by blast
  show "k \<le> length (sp_lead_log s t)" using ackedD(2) [OF spec_invD(4) [OF assms(1)] a] .
  show "\<exists>el\<in>set (sp_elections s). el_term el = t \<and> length (el_base el) < k" using a by (auto simp: acked_def)
qed

text \<open>Leader completeness, by induction on the order of the elections.\<close>

lemma later_base:
  assumes inv: "spec_inv quorate s" and ch: "chosen quorate s t k"
  shows "i < length (sp_elections s) \<Longrightarrow> t < el_term (sp_elections s ! i) \<Longrightarrow>
    take k (el_base (sp_elections s ! i)) = take k (sp_lead_log s t)"
proof (induction i rule: less_induct)
  case (less i)
  note iv = spec_invD [OF inv]
  let ?el = "sp_elections s ! i" and ?L = "sp_lead_log s"
  have el: "?el \<in> set (sp_elections s)" using less.prems(1) by simp
  note k = chosen_fits [OF inv ch]
  obtain A where A: "quorate A" "\<forall>v\<in>A. acked s v t k" using ch by (auto simp: chosen_def)
  obtain v where v: "v \<in> A" "v \<in> el_quorum ?el" using meet [OF A(1) election_okD(2) [OF iv(3) el]] by blast
  have "\<not> lacking (take i (sp_elections s)) t k (?L t)"
  proof
    assume "lacking (take i (sp_elections s)) t k (?L t)"
    then obtain j where "j < i" "t < el_term (sp_elections s ! j)" "take k (el_base (sp_elections s ! j)) \<noteq> take k (?L t)"
      using less.prems(1) by (auto simp: lacking_def in_set_conv_nth)
    then show False using less.IH [of j] less.prems(1) by simp
  qed
  then have pos: "pos_le (t, k) (last_pos (el_base ?el))"
    using iv(6) less.prems v A(2) unfolding quorums_ok_def by blast
  obtain new where new: "?L (el_term ?el) = el_base ?el @ new" using election_okD(4) [OF iv(3) el] by blast
  have "coherent ?L (?L (el_term ?el))" using iv(1) by (simp add: logs_ok_def)
  from coherent_take [OF this, of "length (el_base ?el)"] new have co: "coherent ?L (el_base ?el)" by simp
  have ne: "el_base ?el \<noteq> []" using pos k(2) by (auto simp: pos_le_def last_pos_def)
  note pre = coherent_prefix [OF co ne]
  let ?u = "le_term (last (el_base ?el))"
  show ?case
  proof (cases "?u = t")
    case True
    then have "k \<le> length (el_base ?el)" using pos ne by (simp add: pos_le_def last_pos_def)
    then show ?thesis using pre True by (metis min.absorb1 take_take)
  next
    case False
    then have tu: "t < ?u" using pos ne by (simp add: pos_le_def last_pos_def)
    have "last (el_base ?el) \<in> set (el_base ?el)" using ne by simp
    then obtain j where j: "j < i" "el_term (sp_elections s ! j) = ?u"
      using iv(3) less.prems(1) unfolding elections_ok_def election_ok_def Let_def by blast
    let ?ej = "sp_elections s ! j"
    have ej: "?ej \<in> set (sp_elections s)" using j(1) less.prems(1) by simp
    have ih: "take k (el_base ?ej) = take k (?L t)" using less.IH [OF j(1)] j tu less.prems(1) by simp
    note bt = base_take [OF iv(3) ej ih k(1)]
    have len: "length (el_base ?el) - 1 < length (?L ?u)"
      using coherent_at(2) [OF co, of "length (el_base ?el) - 1"] ne by (simp add: last_conv_nth)
    have "le_term (?L ?u ! (length (el_base ?el) - 1)) = ?u"
      using coherent_last [OF co ne] by simp
    then have "length (el_base ?ej) \<le> length (el_base ?el) - 1" using own_entry [OF iv(3) ej] j(2) len by simp
    then have "k \<le> length (el_base ?el)" using bt(1) by simp
    then have "take k (el_base ?el) = take k (?L ?u)" using pre by (metis min.absorb1 take_take)
    then show ?thesis using bt(2) j(2) by simp
  qed
qed

lemma lead_complete:
  assumes "spec_inv quorate s" and "chosen quorate s t k" and "led s u" and "t \<le> u"
  shows "k \<le> length (sp_lead_log s u)" and "take k (sp_lead_log s u) = take k (sp_lead_log s t)"
proof -
  note k = chosen_fits(1) [OF assms(1,2)]
  show tk: "take k (sp_lead_log s u) = take k (sp_lead_log s t)"
  proof (cases "t = u")
    case False
    obtain i where i: "i < length (sp_elections s)" "el_term (sp_elections s ! i) = u"
      using assms(3) by (auto simp: led_def in_set_conv_nth)
    have "take k (el_base (sp_elections s ! i)) = take k (sp_lead_log s t)"
      using later_base [OF assms(1,2) i(1)] i(2) assms(4) False by simp
    from base_take(2) [OF spec_invD(3) [OF assms(1)] nth_mem [OF i(1)] this k] show ?thesis using i(2) by simp
  qed simp
  show "k \<le> length (sp_lead_log s u)" using arg_cong [OF tk, of length] k by simp
qed

lemma settled_lead:
  assumes "spec_inv quorate s" and "settled quorate s T xs" and "T \<le> u" and "led s u"
  shows "length xs \<le> length (sp_lead_log s u)" and "take (length xs) (sp_lead_log s u) = xs"
proof -
  have "length xs \<le> length (sp_lead_log s u) \<and> take (length xs) (sp_lead_log s u) = xs"
  proof (cases "xs = []")
    case False
    then obtain t k where t: "chosen quorate s t k" "t \<le> T" "length xs \<le> k" "xs = take (length xs) (sp_lead_log s t)"
      using assms(2) by (auto simp: settled_def)
    have "t \<le> u" using t(2) assms(3) by simp
    note lc = lead_complete [OF assms(1) t(1) assms(4) this]
    have "take (length xs) (sp_lead_log s u) = take (length xs) (sp_lead_log s t)"
      using lc(2) t(3) by (metis min.absorb1 take_take)
    then show ?thesis using lc(1) t(3,4) by simp
  qed simp
  then show "length xs \<le> length (sp_lead_log s u)" and "take (length xs) (sp_lead_log s u) = xs" by simp_all
qed

text \<open>State machine safety: settled runs never contradict each other.\<close>

lemma settled_agree:
  assumes "spec_inv quorate s" and "settled quorate s T xs" and "settled quorate s U ys" and "length xs \<le> length ys"
  shows "take (length xs) ys = xs"
proof (cases "xs = [] \<or> ys = []")
  case False
  obtain t k where t: "chosen quorate s t k" "length xs \<le> k" "xs = take (length xs) (sp_lead_log s t)"
    using assms(2) False by (auto simp: settled_def)
  obtain u j where u: "chosen quorate s u j" "length ys \<le> j" "ys = take (length ys) (sp_lead_log s u)"
    using assms(3) False by (auto simp: settled_def)
  have l: "led s t" "led s u" using chosen_fits(2) [OF assms(1) t(1)] chosen_fits(2) [OF assms(1) u(1)] by (auto simp: led_iff)
  have "take (length xs) (sp_lead_log s u) = take (length xs) (sp_lead_log s t)"
  proof (cases "t \<le> u")
    case True
    then show ?thesis using lead_complete(2) [OF assms(1) t(1) l(2) True] t(2) by (metis min.absorb1 take_take)
  next
    case False
    then have "take j (sp_lead_log s t) = take j (sp_lead_log s u)"
      by (intro lead_complete(2) [OF assms(1) u(1) l(1)]) simp
    then show ?thesis using u(2) assms(4) by (metis min.absorb1 order_trans take_take)
  qed
  then show ?thesis using t(3) u(3) assms(4) by (metis min.absorb1 take_take)
qed (use assms(4) in auto)

text \<open>Durability: a settled run is in the logs of a whole quorum.\<close>

lemma settled_held:
  assumes "spec_inv quorate s" and "settled quorate s T xs" and "xs \<noteq> []"
  shows "\<exists>A. quorate A \<and> (\<forall>v\<in>A. take (length xs) (sp_log s v) = xs)"
proof -
  obtain t k where t: "chosen quorate s t k" "length xs \<le> k" "xs = take (length xs) (sp_lead_log s t)"
    using assms(2,3) by (auto simp: settled_def)
  obtain A where A: "quorate A" "\<forall>v\<in>A. acked s v t k" using t(1) by (auto simp: chosen_def)
  have "\<not> lacking (sp_elections s) t k (sp_lead_log s t)"
    using later_base [OF assms(1) t(1)] by (auto simp: lacking_def in_set_conv_nth)
  then have "take k (sp_log s v) = take k (sp_lead_log s t)" if "v \<in> A" for v
    using spec_invD(4) [OF assms(1)] A(2) that unfolding acks_ok_def by blast
  then have "take (length xs) (sp_log s v) = xs" if "v \<in> A" for v
    using that t(2,3) by (metis min.absorb1 take_take)
  then show ?thesis using A(1) by blast
qed

lemma step_grows: "spec_step quorate s s' \<Longrightarrow> spec_inv quorate s \<Longrightarrow> grows s s'"
proof (induction rule: spec_step.induct)
  case (Elect s c t Q)
  then have "sp_lead_log s t = []" using candidate_fresh(1) spec_invD(1) by (simp add: logs_ok_def)
  then show ?case by (auto simp: grows_def lead_le_def)
qed (auto simp: grows_def lead_le_def)

lemma steps_grow: "(spec_step quorate)\<^sup>*\<^sup>* s s' \<Longrightarrow> spec_inv quorate s \<Longrightarrow> grows s s'"
proof (induction rule: rtranclp_induct)
  case base
  then show ?case by (simp add: grows_def)
next
  case (step y z)
  then show ?case using grows_trans step_grows spec_inv_steps by blast
qed

lemma settled_grows:
  assumes "spec_inv quorate s" and "grows s s'" and "settled quorate s T xs"
  shows "settled quorate s' T xs"
proof (cases "xs = []")
  case False
  then obtain t k where t: "chosen quorate s t k" "t \<le> T" "length xs \<le> k" "xs = take (length xs) (sp_lead_log s t)"
    using assms(3) by (auto simp: settled_def)
  have "length xs \<le> length (sp_lead_log s t)" using chosen_fits(1) [OF assms(1) t(1)] t(3) by simp
  then have "take (length xs) (sp_lead_log s' t) = take (length xs) (sp_lead_log s t)"
    using assms(2) lead_le_take by (simp add: grows_def)
  then show ?thesis using t chosen_grows [OF assms(2)] unfolding settled_def by metis
qed (simp add: settled_def)

end

lemma spec_inv_start: "spec_start s \<Longrightarrow> spec_inv quorate s"
  by (simp add: spec_start_def spec_inv_def logs_ok_def votes_ok_def elections_ok_def acks_ok_def stands_ok_def
      quorums_ok_def acked_def coherent_def)

definition quorate :: "node_id set \<Rightarrow> node_id set \<Rightarrow> bool" where
  "quorate V Q \<longleftrightarrow> finite V \<and> majority V Q"

interpretation voters: meeting_quorums "quorate V" for V
  by unfold_locales (auto simp: quorate_def intro: majorities.quorum_meet)

end
