(* ===== verification/Raft_Replication.thy ===== *)
theory Raft_Replication
  imports Raft_Durable Raft_Spec
begin

text \<open>
  How one call can change what replication depends on: the log, the commit index, the match indices
  a leader counts, and the append and vote requests that wait in \<open>Ready\<close>. \<open>repl_step\<close> is the
  contract the group argument uses. The logs here have never been compacted: no call of this theory
  installs a snapshot or drops a prefix.
\<close>

section \<open>What a message carries\<close>

abbreviation msgs :: "'s raft_node \<Rightarrow> (node_id \<times> append_entries_request) list" where
  "msgs n \<equiv> rd_messages (pending_ready n)"

abbreviation entries :: "'s raft_node \<Rightarrow> log_entry list" where
  "entries n \<equiv> rl_entries (rlog n)"

definition plain :: "'s raft_log \<Rightarrow> bool" where
  "plain l \<longleftrightarrow> log_wf l \<and> snapshot_index l = 0 \<and> snapshot_term l = 0"

definition term_before :: "log_entry list \<Rightarrow> nat \<Rightarrow> u64" where
  "term_before xs k = (if k = 0 then 0 else le_term (xs ! (k - 1)))"

text \<open>A request whose entries follow its previous index in the log \<open>xs\<close>.\<close>

definition carries :: "log_entry list \<Rightarrow> append_entries_request \<Rightarrow> bool" where
  "carries xs req \<longleftrightarrow> ae_prev_log_index req \<le> length xs \<and>
     ae_prev_log_term req = term_before xs (ae_prev_log_index req) \<and>
     (\<exists>k. ae_entries req = take k (drop (ae_prev_log_index req) xs))"

definition sent_from :: "'s raft_node \<Rightarrow> append_entries_request \<Rightarrow> bool" where
  "sent_from n req \<longleftrightarrow> ae_term req = term_of n \<and> ae_leader_id req = node_id (config n) \<and>
     ae_leader_commit req \<le> commit_of n \<and> carries (entries n) req"

definition matched_by :: "'s raft_node \<Rightarrow> node_id \<Rightarrow> u64" where
  "matched_by n p = (case leader_st n of None \<Rightarrow> 0 | Some ls \<Rightarrow> ls_match_index_for ls p)"

text \<open>Term, candidate and last log position of the vote requests that wait in \<open>Ready\<close>.\<close>

definition ask_of :: "request_vote_request \<Rightarrow> u64 \<times> node_id \<times> u64 \<times> u64" where
  "ask_of r = (rv_term r, rv_candidate_id r, rv_last_log_term r, rv_last_log_index r)"

definition asks :: "'s raft_node \<Rightarrow> (u64 \<times> node_id \<times> u64 \<times> u64) set" where
  "asks n = (\<lambda>(p, r). ask_of r) ` set (vreqs n)"

section \<open>The contract\<close>

definition log_step :: "'s raft_node \<Rightarrow> 's raft_node \<Rightarrow> bool" where
  "log_step n m \<longleftrightarrow> snapshot_index (rlog m) = snapshot_index (rlog n) \<and> snapshot_term (rlog m) = snapshot_term (rlog n) \<and>
     (entries m = entries n \<or>
      (role n = Leader \<and> role m = Leader \<and> term_of m = term_of n \<and> (\<exists>d. entries m = entries n @
         [\<lparr>le_term = term_of n, le_index = last_index (rlog n) + 1, le_data = d\<rparr>])))"

text \<open>The condition under which a leader commits index \<open>i\<close>.\<close>

definition counted :: "'s storage_ops \<Rightarrow> 's raft_node \<Rightarrow> u64 \<Rightarrow> bool" where
  "counted ops n i \<longleftrightarrow> term_at (rlog n) i = Some (term_of n) \<and>
     quorum (config n) \<le> (if stable_index ops (rlog n) \<ge> i then 1 else 0) +
       length (filter (\<lambda>p. matched_by n p \<ge> i) (peers (config n)))"

definition commit_step :: "'s storage_ops \<Rightarrow> 's raft_node \<Rightarrow> 's raft_node \<Rightarrow> bool" where
  "commit_step ops n m \<longleftrightarrow> commit_of m = commit_of n \<or>
     (role m = Leader \<and> commit_of m \<le> last_index (rlog m) \<and> counted ops m (commit_of m))"

definition lead_sane :: "'s raft_node \<Rightarrow> bool" where
  "lead_sane n \<longleftrightarrow> (role n = Leader \<longleftrightarrow> leader_st n \<noteq> None)"

definition role_step :: "(node_id \<Rightarrow> u64 \<Rightarrow> bool) \<Rightarrow> 's raft_node \<Rightarrow> 's raft_node \<Rightarrow> bool" where
  "role_step P n m \<longleftrightarrow> lead_sane m \<and>
     (role m = Leader \<longrightarrow> role n = Leader \<and> term_of m = term_of n \<and>
        (\<forall>p. matched_by m p \<le> matched_by n p \<or> P p (matched_by m p))) \<and>
     (role m = Candidate \<longrightarrow> (role n = Candidate \<and> term_of m = term_of n) \<or> term_of n < term_of m)"

definition sends_step :: "'s raft_node \<Rightarrow> 's raft_node \<Rightarrow> bool" where
  "sends_step n m \<longleftrightarrow> (\<forall>(p, req)\<in>set (msgs m). (p, req) \<in> set (msgs n) \<or> (role m = Leader \<and> sent_from m req))"

definition asks_step :: "'s raft_node \<Rightarrow> 's raft_node \<Rightarrow> bool" where
  "asks_step n m \<longleftrightarrow> (\<forall>x\<in>asks m. x \<in> asks n \<or> (role m = Candidate \<and> term_of n < term_of m \<and>
     x = (term_of m, node_id (config m), last_term (rlog m), last_index (rlog m))))"

definition repl_step ::
  "(node_id \<Rightarrow> u64 \<Rightarrow> bool) \<Rightarrow> 's storage_ops \<Rightarrow> 's raft_node \<Rightarrow> 's raft_node \<Rightarrow> bool" where
  "repl_step P ops n m \<longleftrightarrow> log_step n m \<and> commit_step ops n m \<and> role_step P n m \<and> sends_step n m \<and> asks_step n m"

abbreviation no_match :: "node_id \<Rightarrow> u64 \<Rightarrow> bool" where
  "no_match \<equiv> \<lambda>_ _. False"

lemma repl_same:
  assumes "lead_sane n" and "rl_entries (rlog m) = rl_entries (rlog n)" and "snapshot_index (rlog m) = snapshot_index (rlog n)"
    and "snapshot_term (rlog m) = snapshot_term (rlog n)" and "commit_of m = commit_of n"
    and "role m = role n" and "\<And>p. matched_by m p \<le> matched_by n p" and "(leader_st m = None) = (leader_st n = None)"
    and "hard m = hard n" and "msgs m = msgs n" and "vreqs m = vreqs n"
  shows "repl_step P ops n m"
  using assms by (simp add: repl_step_def log_step_def commit_step_def role_step_def lead_sane_def sends_step_def
      asks_step_def asks_def split_beta)

section \<open>Sending\<close>

lemma plain_term_at: "plain l \<Longrightarrow> k \<le> length (rl_entries l) \<Longrightarrow> term_at l k = Some (term_before (rl_entries l) k)"
  by (auto simp: plain_def term_at_def term_before_def entry_at_wf)

lemma plain_last: "plain l \<Longrightarrow> last_index l = length (rl_entries l)"
  by (simp add: plain_def last_index_wf)

lemma batch_for_carries:
  assumes "plain l" and "batch_for l next = Some (t, es)" and "ae_prev_log_index req = next - 1"
    and "ae_prev_log_term req = t" and "ae_entries req = es"
  shows "carries (rl_entries l) req"
proof -
  have l: "snapshot_index l = 0" "last_index l = length (rl_entries l)" using assms(1) plain_last by (auto simp: plain_def)
  have ta: "term_at l (next - 1) = Some t" using assms(2) by (auto simp: batch_for_def split: option.splits if_splits sum.splits raft_error.splits)
  then have k: "next - 1 \<le> length (rl_entries l)"
    using term_at_None_iff [of l "next - 1"] assms(1) l by (fastforce simp: plain_def)
  have t: "t = term_before (rl_entries l) (next - 1)" using plain_term_at [OF assms(1) k] ta by simp
  have "\<exists>k. es = take k (drop (next - 1) (rl_entries l))"
  proof (cases "next \<le> last_index l")
    case True
    then obtain m where m: "entries_within l next (last_index l) m = Inr es \<or> es = []"
      using assms(2) ta by (auto simp: batch_for_def split: sum.splits raft_error.splits)
    show ?thesis
    proof (cases "es = []")
      case True
      then show ?thesis by (intro exI [of _ 0]) simp
    next
      case False
      then obtain xs k where r: "entries_range l next (last_index l) = Inr xs" and e: "es = take k xs"
        using m by (auto simp: entries_within_def split: sum.splits)
      then have "0 < next" by (auto simp: entries_range_def l split: if_splits)
      then have "xs = drop (next - 1) (rl_entries l)"
        using r entries_range_slice [of l "next" "last_index l"] True l by simp
      then show ?thesis using e by auto
    qed
  next
    case False
    then have "es = []" using assms(2) ta by (auto simp: batch_for_def)
    then show ?thesis by (intro exI [of _ 0]) simp
  qed
  then show ?thesis using assms(3-5) k t by (simp add: carries_def)
qed

lemma sent_from_cong:
  "config m = config n \<Longrightarrow> hard m = hard n \<Longrightarrow> volatile m = volatile n \<Longrightarrow> rlog m = rlog n \<Longrightarrow> sent_from m = sent_from n"
  by (simp add: sent_from_def fun_eq_iff)

lemma append_request_sent:
  "plain (rlog n) \<Longrightarrow> batch_for (rlog n) next = Some (t, es) \<Longrightarrow> config m = config n \<Longrightarrow> hard m = hard n \<Longrightarrow>
     volatile m = volatile n \<Longrightarrow> sent_from n (append_request env m next t es round)"
  by (simp add: sent_from_def append_request_def batch_for_carries)

lemma msgs_send:
  assumes "plain (rlog n)" and "x \<in> set (msgs (send_append_entries env p n))"
  shows "x \<in> set (msgs n) \<or> (leader_st n \<noteq> None \<and> sent_from n (snd x))"
proof -
  have "sent_from n (append_request env (n\<lparr>lease := l\<rparr>) k t es r)" if "batch_for (rlog n) k = Some (t, es)" for l k t es r
    by (rule append_request_sent [OF assms(1) that]) simp_all
  then show ?thesis using assms
    by (auto simp: send_append_entries_def push_snapshot_needed_def push_message_def stamp_lease_round_def Let_def
        split: option.splits prod.splits)
qed

lemma msgs_send_observer:
  assumes "plain (rlog n)" and "x \<in> set (msgs (send_append_entries_to_observer env p n))"
  shows "x \<in> set (msgs n) \<or> (leader_st n \<noteq> None \<and> sent_from n (snd x))"
  using assms
  by (auto intro: append_request_sent simp: send_append_entries_to_observer_def push_snapshot_needed_def push_message_def Let_def
      split: option.splits prod.splits if_splits)

lemma matched_send_observer [simp]:
  "(leader_st (send_append_entries_to_observer env p n) = None) = (leader_st n = None)"
  "matched_by (send_append_entries_to_observer env p n) q = matched_by n q"
  by (auto simp: send_append_entries_to_observer_def push_snapshot_needed_def push_message_def matched_by_def Let_def
      split: option.splits prod.splits)

lemma matched_fold_observer [simp]:
  "(leader_st (fold (send_append_entries_to_observer env) ps n) = None) = (leader_st n = None)"
  "matched_by (fold (send_append_entries_to_observer env) ps n) q = matched_by n q"
  by (induction ps arbitrary: n) simp_all

lemma matched_replicate [simp]:
  "(leader_st (replicate_to_all env n) = None) = (leader_st n = None)"
  "matched_by (replicate_to_all env n) q = matched_by n q"
  by (simp_all add: replicate_to_all_def Let_def) (simp add: matched_by_def)

lemma msgs_fold_send:
  "plain (rlog n) \<Longrightarrow> x \<in> set (msgs (fold (send_append_entries env) ps n)) \<Longrightarrow>
     x \<in> set (msgs n) \<or> (leader_st n \<noteq> None \<and> sent_from n (snd x))"
proof (induction ps arbitrary: n)
  case (Cons p ps)
  then have "x \<in> set (msgs (send_append_entries env p n)) \<or>
      (leader_st n \<noteq> None \<and> sent_from (send_append_entries env p n) (snd x))"
    using Cons.IH [of "send_append_entries env p n"] by simp
  moreover have "sent_from (send_append_entries env p n) = sent_from n" by (rule sent_from_cong) simp_all
  ultimately show ?case using msgs_send [OF Cons.prems(1), of x env p] by metis
qed simp

lemma msgs_fold_observer:
  "plain (rlog n) \<Longrightarrow> x \<in> set (msgs (fold (send_append_entries_to_observer env) ps n)) \<Longrightarrow>
     x \<in> set (msgs n) \<or> (leader_st n \<noteq> None \<and> sent_from n (snd x))"
proof (induction ps arbitrary: n)
  case (Cons p ps)
  then have "x \<in> set (msgs (send_append_entries_to_observer env p n)) \<or>
      (leader_st n \<noteq> None \<and> sent_from (send_append_entries_to_observer env p n) (snd x))"
    using Cons.IH [of "send_append_entries_to_observer env p n"] by simp
  moreover have "sent_from (send_append_entries_to_observer env p n) = sent_from n" by (rule sent_from_cong) simp_all
  ultimately show ?case using msgs_send_observer [OF Cons.prems(1), of x env p] by metis
qed simp

lemma msgs_replicate:
  assumes "plain (rlog n)" and "x \<in> set (msgs (replicate_to_all env n))"
  shows "x \<in> set (msgs n) \<or> (leader_st n \<noteq> None \<and> sent_from n (snd x))"
proof -
  let ?m = "fold (send_append_entries env) (peers (config n) @ learners (config n)) n"
  have "sent_from ?m = sent_from n" by (rule sent_from_cong) simp_all
  moreover have "x \<in> set (msgs ?m) \<or> (leader_st n \<noteq> None \<and> sent_from ?m (snd x))"
    using msgs_fold_observer [of ?m x env "observers (config n)"] assms by (simp add: replicate_to_all_def Let_def)
  ultimately show ?thesis using msgs_fold_send [OF assms(1), of x env] by metis
qed

section \<open>Every call\<close>

lemma repl_refl: "lead_sane n \<Longrightarrow> repl_step P ops n n"
  by (rule repl_same) simp_all

lemma view_cong:
  assumes "config k = config m" and "rlog k = rlog m"
    and "role k = role m" and "\<And>p. matched_by k p = matched_by m p" and "(leader_st k = None) = (leader_st m = None)"
    and "term_of k = term_of m" and "asks k = asks m"
  shows "log_step n k = log_step n m" and "role_step P n k = role_step P n m" and "asks_step n k = asks_step n m"
    and "commit_of k = commit_of m \<Longrightarrow> commit_step ops n k = commit_step ops n m"
  by (simp_all only: log_step_def commit_step_def counted_def role_step_def lead_sane_def asks_step_def assms)

text \<open>A step seen through a node that differs only in what no part of the contract reads.\<close>

lemma repl_cong:
  assumes "repl_step P ops n m" and "config k = config m" and "rlog k = rlog m" and "commit_of k = commit_of m"
    and "role k = role m" and "\<And>p. matched_by k p = matched_by m p" and "(leader_st k = None) = (leader_st m = None)"
    and "term_of k = term_of m" and "asks k = asks m"
    and "\<And>x. x \<in> set (msgs k) \<Longrightarrow> x \<in> set (msgs m) \<or> (role m = Leader \<and> sent_from m (snd x))"
  shows "repl_step P ops n k"
proof -
  have "sent_from k = sent_from m" using assms(2-5,8) by (simp add: sent_from_def fun_eq_iff)
  moreover have "sends_step n m" using assms(1) by (simp add: repl_step_def)
  ultimately have "sends_step n k" using assms(5,10) unfolding sends_step_def by fastforce
  then show ?thesis using assms(1,4) view_cong [OF assms(2,3,5-9)] unfolding repl_step_def by simp
qed

lemma repl_from:
  assumes "repl_step P ops k m" and "rlog k = rlog n" and "commit_of k = commit_of n" and "role k = role n"
    and "\<And>p. matched_by k p = matched_by n p" and "hard k = hard n" and "msgs k = msgs n" and "vreqs k = vreqs n"
  shows "repl_step P ops n m"
  using assms(1)
  unfolding repl_step_def log_step_def commit_step_def role_step_def sends_step_def asks_step_def asks_def assms(2-) by assumption

lemma repl_sane: "repl_step P ops n m \<Longrightarrow> leader_st m \<noteq> None \<Longrightarrow> role m = Leader"
  by (simp add: repl_step_def role_step_def lead_sane_def)

lemma repl_replicate:
  assumes "repl_step P ops n m" and "plain (rlog m)"
  shows "repl_step P ops n (replicate_to_all env m)"
  using msgs_replicate [OF assms(2), of _ env] repl_sane [OF assms(1)]
  by (intro repl_cong [OF assms(1)]) (simp_all add: asks_def, blast)

lemma repl_become_follower:
  "rl_entries (rlog k) = entries n \<Longrightarrow> snapshot_index (rlog k) = snapshot_index (rlog n) \<Longrightarrow>
     snapshot_term (rlog k) = snapshot_term (rlog n) \<Longrightarrow> commit_of k = commit_of n \<Longrightarrow> msgs k = msgs n \<Longrightarrow> vreqs k = vreqs n \<Longrightarrow>
     repl_step P ops n (become_follower env t k)"
  by (auto simp: repl_step_def log_step_def commit_step_def role_step_def lead_sane_def sends_step_def asks_step_def asks_def)

lemma matched_by_frames [simp]:
  "matched_by (n\<lparr>transfer := tr\<rparr>) p = matched_by n p" "matched_by (refresh_quorum_contact now n) p = matched_by n p"
  "matched_by (n\<lparr>heartbeat_deadline := d\<rparr>) p = matched_by n p" "matched_by (n\<lparr>rlog := l\<rparr>) p = matched_by n p"
  "matched_by (n\<lparr>pending_ready := r\<rparr>) p = matched_by n p" "matched_by (n\<lparr>lease := le\<rparr>) p = matched_by n p"
  "matched_by (n\<lparr>volatile := v\<rparr>) p = matched_by n p" "matched_by (n\<lparr>pre_vote := pv\<rparr>) p = matched_by n p"
  "matched_by (n\<lparr>replica := st\<rparr>) p = matched_by n p" "matched_by (n\<lparr>compaction_ceiling := ce\<rparr>) p = matched_by n p"
  "matched_by (try_advance_commit_index ops n) p = matched_by n p"
  "matched_by (try_emit_timeout_now n) p = matched_by n p" "matched_by (send_append_entries env q n) p = matched_by n p"
  by (simp_all add: matched_by_def)

lemma msgs_frames [simp]:
  "msgs (persist_hard_state n) = msgs n" "msgs (try_emit_timeout_now n) = msgs n"
  "msgs (collect_committed_entries n) = msgs n" "msgs (try_advance_commit_index ops n) = msgs n"
  "msgs (push_snapshot_needed p n) = msgs n"
  by (simp_all add: persist_hard_state_def try_emit_timeout_now_def collect_committed_entries_def
      queue_committed_entries_def try_advance_commit_index_def push_snapshot_needed_def Let_def split: option.split sum.split)

lemma repl_start_election:
  assumes "peers (config n) \<noteq> []" and "role n \<noteq> Leader" and "lead_sane n" and "term_fits n"
  shows "repl_step P ops n (start_election ops env n)"
  using assms repl_refl [OF assms(3)] next_term [OF assms(4)]
  by (auto simp: start_election_def Let_def repl_step_def log_step_def commit_step_def role_step_def lead_sane_def
      sends_step_def asks_step_def asks_def ask_of_def)

lemma repl_start_pre_election:
  assumes "peers (config n) \<noteq> []" and "role n \<noteq> Leader" and "lead_sane n"
  shows "repl_step P ops n (start_pre_election ops env n)"
  using assms repl_refl [OF assms(3)]
  by (auto simp: start_pre_election_def Let_def intro!: repl_same) (simp_all add: matched_by_def)

lemma repl_tick:
  assumes "peers (config n) \<noteq> []" and "lead_sane n" and "plain (rlog n)"
  shows "repl_step P ops n (tick ops env n)"
proof (cases "role n = Leader")
  case True
  define k where "k = refresh_quorum_contact (env_now env) (case transfer n of
      Some t \<Rightarrow> if env_now env \<ge> lt_deadline t then n\<lparr>transfer := None\<rparr> else n | None \<Rightarrow> n)"
  have k: "config k = config n" "rlog k = rlog n" "volatile k = volatile n" "role k = role n" "hard k = hard n"
    "leader_st k = leader_st n" "pending_ready k = pending_ready n"
    by (simp_all add: k_def split: option.split)
  then have r: "repl_step P ops n k" using assms(2) by (intro repl_same) (simp_all add: matched_by_def)
  have "repl_step P ops n ((replicate_to_all env k)\<lparr>heartbeat_deadline := d\<rparr>)" for d
    by (rule repl_cong [OF repl_replicate [OF r, of env]]) (simp_all add: k assms(3) asks_def)
  moreover have "repl_step P ops n (become_follower env t k)" for t by (rule repl_become_follower) (simp_all add: k)
  ultimately show ?thesis using True r by (simp add: tick_def Let_def k_def [symmetric])
next
  case False
  then show ?thesis using repl_start_pre_election [OF assms(1) False assms(2)] repl_refl [OF assms(2)]
    by (simp add: tick_def Let_def split: node_role.split)
qed

lemma counted_can_commit: "leader_st n = Some ls \<Longrightarrow> can_commit ops n ls i \<Longrightarrow> counted ops n i"
  by (simp add: can_commit_def counted_def ack_total_def matched_by_def)

lemma repl_try_advance:
  assumes "repl_step P ops n m" and "commit_of m = commit_of n"
  shows "repl_step P ops n (try_advance_commit_index ops m)"
proof -
  let ?m = "try_advance_commit_index ops m"
  have "commit_of ?m = commit_of m \<or> (\<exists>ls. leader_st m = Some ls \<and> commit_of ?m \<le> last_index (rlog m) \<and>
      can_commit ops m ls (commit_of ?m))"
    by (auto simp: try_advance_commit_index_def split: option.split dest!: find_Some_set)
  moreover have "counted ops ?m = counted ops m" by (simp add: counted_def fun_eq_iff)
  ultimately have "commit_step ops n ?m"
    using assms(2) repl_sane [OF assms(1)] counted_can_commit [of m _ ops "commit_of ?m"] by (auto simp: commit_step_def)
  moreover have "sent_from m req \<Longrightarrow> sent_from ?m req" for req
    using marks_le_try_advance [of m ops] by (auto simp: sent_from_def marks_le_def)
  then have "sends_step n ?m" using assms(1) unfolding repl_step_def sends_step_def by fastforce
  moreover have "log_step n ?m = log_step n m" "role_step P n ?m = role_step P n m" "asks_step n ?m = asks_step n m"
    by (intro view_cong; simp add: asks_def)+
  ultimately show ?thesis using assms(1) by (simp add: repl_step_def)
qed

lemma repl_storage_progress: "lead_sane n \<Longrightarrow> repl_step P ops n (on_storage_progress ops n)"
  by (simp add: on_storage_progress_def repl_refl repl_try_advance)

lemma plain_snoc:
  "plain (rlog n) \<Longrightarrow> log_append ops (rlog n) e = (r, l) \<Longrightarrow> le_index e = Suc (last_index (rlog n)) \<Longrightarrow> plain l"
  using log_append_wf log_append_snapshot by (fastforce simp: plain_def)

lemma repl_propose:
  assumes "peers (config n) \<noteq> []" and "lead_sane n" and "plain (rlog n)"
  shows "repl_step P ops n (snd (propose ops env d n))"
proof (cases "role n = Leader \<and> transfer n = None")
  case True
  let ?e = "\<lparr>le_term = term_of n, le_index = last_index (rlog n) + 1, le_data = d\<rparr>"
  obtain r l where l: "log_append ops (rlog n) ?e = (r, l)" by fastforce
  have p: "plain l" by (rule plain_snoc [OF assms(3) l]) simp
  have s: "rl_entries l = entries n \<or> rl_entries l = entries n @ [?e]" "snapshot_index l = snapshot_index (rlog n)"
    "snapshot_term l = snapshot_term (rlog n)"
    using log_append_entries [OF l] log_append_snapshot [OF l] by (auto split: sum.splits)
  have "repl_step P ops n (n\<lparr>rlog := l\<rparr>)" using s True assms(2)
    by (auto simp: repl_step_def log_step_def commit_step_def role_step_def lead_sane_def sends_step_def asks_step_def asks_def)
  moreover from this have "repl_step P ops n (replicate_to_all env (n\<lparr>rlog := l\<rparr>))"
    by (rule repl_replicate) (simp add: p)
  ultimately show ?thesis using True l assms(1)
    by (auto simp: propose_def Let_def cluster_size_def split: sum.split)
qed (use repl_refl [OF assms(2)] in \<open>auto simp: propose_def\<close>)

lemma repl_pre_vote_response:
  assumes "peers (config n) \<noteq> []" and "lead_sane n" and "term_fits n"
  shows "repl_step P ops n (handle_pre_vote_response ops env p resp n)"
proof -
  let ?n = "n\<lparr>pre_vote := None\<rparr>"
  have s: "repl_step P ops n (n\<lparr>pre_vote := pv\<rparr>)" for pv using assms(2) by (intro repl_same) simp_all
  have f: "repl_step P ops n ((become_follower env t n)\<lparr>pre_vote := None\<rparr>)" for t
    by (rule repl_cong [OF repl_become_follower [of n n P ops env t]]) (simp_all add: asks_def matched_by_def)
  have e: "repl_step P ops ?n (start_election ops env ?n)" if "role n \<noteq> Leader"
    using assms that by (intro repl_start_election) (simp_all add: lead_sane_def term_fits_def)
  have "repl_step P ops n (start_election ops env ?n)" if "role n \<noteq> Leader"
    by (rule repl_from [OF e [OF that]]) simp_all
  then show ?thesis using s f repl_refl [OF assms(2)]
    by (simp add: handle_pre_vote_response_def Let_def split: option.split)
qed

lemma repl_timeout_now:
  assumes "peers (config n) \<noteq> []" and "lead_sane n" and "term_fits n"
  shows "repl_step P ops n (handle_timeout_now ops env req n)"
proof -
  let ?f = "\<lambda>t (p, v). (p, if rv_term v = t then v\<lparr>rv_transfer := True\<rparr> else v)"
  have a: "asks (m\<lparr>pending_ready := (pending_ready m)\<lparr>rd_vote_requests := map (?f t) (vreqs m)\<rparr>\<rparr>) = asks m"
    for m :: "'a raft_node" and t
    by (force simp: asks_def ask_of_def image_iff)
  show ?thesis
  proof (cases "role n = Follower \<and> tn_term req = term_of n \<and> tn_leader_id req = leader_id n")
    case True
    then have "repl_step P ops n (start_election ops env n)" using assms by (intro repl_start_election) simp_all
    then have "repl_step P ops n ((start_election ops env n)\<lparr>pending_ready := (pending_ready (start_election ops env n))
        \<lparr>rd_vote_requests := map (?f t) (vreqs (start_election ops env n))\<rparr>\<rparr>)" for t
      by (rule repl_cong) (simp_all add: a)
    then show ?thesis using True by (simp add: handle_timeout_now_def Let_def)
  next
    case False
    then have "handle_timeout_now ops env req n = n" unfolding handle_timeout_now_def by (rule if_not_P)
    then show ?thesis using repl_refl [OF assms(2)] by simp
  qed
qed

lemma repl_set_replica_state: "lead_sane n \<Longrightarrow> repl_step P ops n (set_replica_state env st n)"
  by (auto simp: set_replica_state_def stand_down_for_snapshot_def Let_def
      split: node_role.split option.split intro!: repl_become_follower repl_same)

lemma repl_notify:
  assumes "lead_sane n" and "plain (rlog n)"
  shows "repl_step P ops n (notify_removed_peer env p n)"
proof -
  have "repl_step P ops n (send_append_entries env p n)"
    using msgs_send [OF assms(2), of _ env p] repl_sane [OF repl_refl [OF assms(1)]]
    by (intro repl_cong [OF repl_refl [OF assms(1)]]) (simp_all add: asks_def, blast)
  then show ?thesis using repl_refl [OF assms(1)] by (simp add: notify_removed_peer_def Let_def)
qed

lemma repl_start_read: "lead_sane n \<Longrightarrow> plain (rlog n) \<Longrightarrow> repl_step P ops n (snd (start_read_index env n))"
  using repl_replicate [OF repl_refl, of n P ops env] repl_refl [of n P ops]
  by (simp add: start_read_index_def Let_def split: option.split)

lemma repl_learners:
  assumes "lead_sane n"
  shows "repl_step P ops n (add_learner p n)" and "repl_step P ops n (remove_learner p n)"
    and "repl_step P ops n (promote_self_to_voter n)"
proof -
  show "repl_step P ops n (add_learner p n)" "repl_step P ops n (remove_learner p n)"
    using assms by (auto simp: add_learner_def remove_learner_def matched_by_def match_index_add match_index_remove
        intro!: repl_same split: option.split)
  show "repl_step P ops n (promote_self_to_voter n)"
    using assms by (auto simp: promote_self_to_voter_def repl_step_def log_step_def commit_step_def role_step_def
        lead_sane_def sends_step_def asks_step_def asks_def)
qed

lemma repl_quiet:
  assumes "lead_sane n"
  shows "repl_step P ops n (snd (transfer_leadership env p n))" and "repl_step P ops n (advance_applied i n)"
    and "repl_step P ops n (requeue_committed es n)" and "repl_step P ops n (snd (save_durable_applied_index ops i n))"
    and "repl_step P ops n (set_compaction_ceiling i n)"
    and "repl_step P ops n (snd (persist_hard_state_if_dirty ops n))"
  using assms
  by (auto intro!: repl_same simp: transfer_leadership_def advance_applied_def requeue_committed_def
      save_durable_applied_index_def set_compaction_ceiling_def persist_hard_state_if_dirty_def matched_by_def Let_def
      split: sum.split prod.split)

section \<open>A peer's reply\<close>

lemma matched_raise: "ls_match_index_for (raise_match p i ls) q \<le> ls_match_index_for ls q \<or>
    (q = p \<and> ls_match_index_for (raise_match p i ls) q = i)"
  by (simp add: raise_match_def) (simp add: ls_match_index_for_def set_match_index_def)

lemma match_note_answer [simp]: "ls_match_index_for (note_answer p st ls) q = ls_match_index_for ls q"
  by (simp add: note_answer_def Let_def)

lemma repl_leader_st:
  assumes "role n = Leader" and "leader_st n = Some ls" and "\<And>q. ls_match_index_for l q \<le> ls_match_index_for ls q \<or> P q (ls_match_index_for l q)"
  shows "repl_step P ops n ((peer_contact env p resp ls n)\<lparr>leader_st := Some l\<rparr>)"
  using assms
  by (auto simp: repl_step_def log_step_def commit_step_def role_step_def lead_sane_def matched_by_def sends_step_def
      asks_step_def asks_def)

lemma repl_peer_success:
  assumes "role n = Leader" and "leader_st n = Some ls" and "P p i"
  shows "repl_step P ops n (peer_success ops env p i (note_answer p (aer_replica resp) ls) (peer_contact env p resp ls n))"
proof -
  let ?k = "peer_contact env p resp ls n" and ?ls = "note_answer p (aer_replica resp) ls"
  have 1: "repl_step P ops n (?k\<lparr>leader_st := Some (raise_match p i ?ls)\<rparr>)"
  proof (rule repl_leader_st [OF assms(1,2)])
    fix q
    show "ls_match_index_for (raise_match p i ?ls) q \<le> ls_match_index_for ls q \<or> P q (ls_match_index_for (raise_match p i ?ls) q)"
      using matched_raise [of p i ?ls q] assms(3) by auto
  qed
  have "repl_step P ops n ((try_advance_commit_index ops (?k\<lparr>leader_st := Some (raise_match p i ?ls)\<rparr>))\<lparr>repl_floor := f\<rparr>)" for f
    by (rule repl_cong [OF repl_try_advance [OF 1]]) (simp_all add: matched_by_def asks_def)
  then show ?thesis using 1 by (simp add: peer_success_def Let_def)
qed

lemma repl_peer_rejection:
  assumes "lead_sane n" and "plain (rlog n)" and "role n = Leader" and "leader_st n = Some ls"
  shows "repl_step P ops n (peer_rejection env p resp (note_answer p (aer_replica resp) ls) (peer_contact env p resp ls n))"
proof -
  let ?k = "peer_contact env p resp ls n" and ?ls = "note_answer p (aer_replica resp) ls"
  have k: "repl_step P ops n ?k" using assms(1,4) by (intro repl_same) (simp_all add: matched_by_def)
  let ?m = "?k\<lparr>leader_st := Some (set_next_index p
      (back_off (aer_last_log_index resp) (next_index_for ?ls p) (ls_match_index_for ?ls p)) ?ls)\<rparr>"
  have m: "repl_step P ops n ?m" by (rule repl_leader_st [OF assms(3,4)]) simp
  have "repl_step P ops n (send_append_entries env p ?m)"
    using msgs_send [of ?m _ env p] assms(2) repl_sane [OF m] by (intro repl_cong [OF m]) (simp_all add: asks_def)
  moreover have "repl_step P ops n (push_snapshot_needed p ?k)"
    by (rule repl_cong [OF k]) (simp_all add: matched_by_def asks_def)
  ultimately show ?thesis using k by (simp add: peer_rejection_def)
qed

lemma repl_observer_response:
  assumes "lead_sane n" and "plain (rlog n)" and "leader_st n = Some ls"
  shows "repl_step P ops n (observer_response env p resp n)"
proof -
  have m: "repl_step P ops n (n\<lparr>leader_st := Some (observer_state_mut p f ls)\<rparr>)" for f
    using assms(1,3) by (intro repl_same) (simp_all add: matched_by_def)
  have "repl_step P ops n (send_append_entries_to_observer env p (n\<lparr>leader_st := Some (observer_state_mut p f ls)\<rparr>))" for f
    using msgs_send_observer [of "n\<lparr>leader_st := Some (observer_state_mut p f ls)\<rparr>" _ env p] assms(2) repl_sane [OF m]
    by (intro repl_cong [OF m [of f]]) (simp_all add: asks_def)
  then show ?thesis using m assms(3) by (simp add: observer_response_def Let_def)
qed

lemma repl_response:
  assumes "lead_sane n" and "plain (rlog n)"
  shows "repl_step (\<lambda>q i. q = p \<and> aer_success resp \<and> aer_term resp = term_of n \<and> i = aer_last_log_index resp) ops n
    (handle_append_entries_response ops env p resp n)" (is "repl_step ?P ops n _")
proof (cases "aer_term resp = term_of n \<and> role n = Leader")
  case False
  have "repl_step ?P ops n (become_follower env (aer_term resp) n)" by (rule repl_become_follower) simp_all
  moreover have "repl_step ?P ops n n" by (rule repl_refl [OF assms(1)])
  moreover have "handle_append_entries_response ops env p resp n \<in> {n, become_follower env (aer_term resp) n}"
    using False by (auto simp: handle_append_entries_response_def)
  ultimately show ?thesis by auto
next
  case True
  then obtain ls where ls: "leader_st n = Some ls" using assms(1) by (auto simp: lead_sane_def)
  define P where "P = ?P"
  have s: "repl_step P ops n (peer_success ops env p (aer_last_log_index resp) (note_answer p (aer_replica resp) ls) (peer_contact env p resp ls n))"
    if "aer_success resp" using True that by (intro repl_peer_success [OF _ ls]) (simp_all add: P_def)
  have e: "repl_step P ops n (try_emit_timeout_now m)" if "repl_step P ops n m" for m
    by (rule repl_cong [OF that]) (simp_all add: asks_def)
  show ?thesis unfolding P_def [symmetric]
    using True ls s e repl_peer_rejection [OF assms _ ls] repl_observer_response [OF assms ls]
    by (simp add: handle_append_entries_response_def Let_def)
qed

section \<open>Writing a leader's entries\<close>

text \<open>
  The entries of a request that come from the leader's log \<open>X\<close>, against a log that agrees with \<open>X\<close>
  up to every position where the terms are equal: the log afterwards is the one before or a prefix
  of \<open>X\<close> that keeps all they had in common, and a success means it has all the request carries.
\<close>

lemma take_prefix_le: "take n xs = take n ys \<Longrightarrow> k \<le> n \<Longrightarrow> take k xs = take k ys"
  by (metis min.absorb1 take_take)

lemma agree_le_stop:
  assumes "q \<le> n" and "length xs \<le> q \<or> (q < length ys \<longrightarrow> le_term (xs ! q) \<noteq> le_term (ys ! q))"
  shows "agree_le xs ys n"
  unfolding agree_le_def
proof (intro allI impI)
  fix j assume j: "j \<le> min (length xs) (length ys)" and t: "take j xs = take j ys"
  show "j \<le> n"
  proof (rule ccontr)
    assume "\<not> j \<le> n"
    then have q: "q < j" using assms(1) by simp
    then have "xs ! q = ys ! q" using t by (metis nth_take)
    then show False using assms(2) q j by auto
  qed
qed

definition leader_batch :: "'s raft_log \<Rightarrow> log_entry list \<Rightarrow> nat \<Rightarrow> log_entry list \<Rightarrow> bool" where
  "leader_batch l X p es \<longleftrightarrow> plain l \<and> batch_after 0 X \<and> p \<le> length X \<and> (\<exists>k. es = take k (drop p X)) \<and>
     p \<le> length (rl_entries l) \<and> take p (rl_entries l) = take p X \<and>
     (\<forall>k. k < length (rl_entries l) \<longrightarrow> k < length X \<longrightarrow> le_term (rl_entries l ! k) = le_term (X ! k) \<longrightarrow>
        take (Suc k) (rl_entries l) = take (Suc k) X)"

lemma leader_batchD:
  assumes "leader_batch l X p es"
  shows "log_wf l" and "snapshot_index l = 0" and "p \<le> last_index l" and "batch_after p es"
    and "p + length es \<le> length X" and "es = take (length es) (drop p X)" and "i < length es \<Longrightarrow> es ! i = X ! (p + i)"
proof -
  have l: "plain l" and X: "batch_after 0 X" and pX: "p \<le> length X" and e: "\<exists>k. es = take k (drop p X)"
    and pl: "p \<le> length (rl_entries l)" using assms by (auto simp: leader_batch_def)
  show "log_wf l" "snapshot_index l = 0" "p \<le> last_index l" using l pl plain_last [OF l] by (auto simp: plain_def)
  show s: "es = take (length es) (drop p X)" and "p + length es \<le> length X" using e pX by (auto simp: min_def)
  show "batch_after p es" using batch_after_take [OF batch_after_drop [OF X pX]] s by (metis add_0)
  show "i < length es \<Longrightarrow> es ! i = X ! (p + i)" using s pX by (metis nth_drop nth_take)
qed

lemma held_agrees:
  assumes "leader_batch l X p es" and "\<forall>e\<in>set (take i es). \<not> not_held l e" and "i \<le> length es"
  shows "take (p + i) (rl_entries l) = take (p + i) X \<and> p + i \<le> length (rl_entries l)"
proof (cases i)
  case 0
  then show ?thesis using assms(1) by (simp add: leader_batch_def)
next
  case (Suc j)
  note b = leader_batchD [OF assms(1)]
  have j: "j < length es" using Suc assms(3) by simp
  have "es ! j \<in> set (take i es)" using Suc j by (auto simp: in_set_conv_nth intro!: exI [of _ j])
  then have nh: "\<not> not_held l (es ! j)" using assms(2) by blast
  have idx: "le_index (es ! j) = Suc (p + j)" using batch_after_nth [OF b(4) j] by simp
  obtain x where x: "entry_at l (Suc (p + j)) = Some x" "le_term x = le_term (es ! j)"
    using not_held_wf [OF b(1) nh] idx b(2) by auto
  then have pj: "p + j < length (rl_entries l)" "rl_entries l ! (p + j) = x"
    using b(1,2) by (auto simp: entry_at_wf split: if_splits)
  then have "take (Suc (p + j)) (rl_entries l) = take (Suc (p + j)) X"
    using x(2) b(7) [OF j] b(5) j assms(1) by (simp add: leader_batch_def)
  then show ?thesis using Suc pj by simp
qed

lemma first_missing:
  assumes b: "leader_batch l X p es" and d: "dropWhile (\<lambda>e. \<not> not_held l e) es = e # rest"
  obtains i where "i < length es" and "e # rest = drop i es" and "le_index e = Suc (p + i)"
    and "take (p + i) (rl_entries l) = take (p + i) X" and "p + i \<le> length (rl_entries l)"
    and "\<And>n. p + i \<le> n \<Longrightarrow> agree_le (rl_entries l) X n"
proof -
  note bb = leader_batchD [OF b]
  define i where "i = length (takeWhile (\<lambda>e. \<not> not_held l e) es)"
  have t: "take i es = takeWhile (\<lambda>e. \<not> not_held l e) es" and dr: "drop i es = e # rest"
    using d takeWhile_dropWhile_id [of "\<lambda>e. \<not> not_held l e" es] unfolding i_def by (metis append_eq_conv_conj)+
  have i: "i < length es" using dr by (metis drop_all list.distinct(1) not_le)
  have e: "e = es ! i" using dr by (metis nth_via_drop)
  have idx: "le_index e = Suc (p + i)" using batch_after_nth [OF bb(4) i] e by simp
  have "\<forall>x\<in>set (take i es). \<not> not_held l x" unfolding t by (auto dest: set_takeWhileD)
  note a = held_agrees [OF b this less_imp_le [OF i]]
  have nh: "not_held l e" using d by (metis hd_dropWhile list.distinct(1) list.sel(1))
  have "length (rl_entries l) \<le> p + i \<or> le_term (rl_entries l ! (p + i)) \<noteq> le_term (X ! (p + i))"
    using nh idx e bb(7) [OF i] by (auto simp: not_held_def entry_at_wf [OF bb(1)] bb(2) split: if_splits)
  then have "agree_le (rl_entries l) X n" if "p + i \<le> n" for n using agree_le_stop [OF that] by blast
  then show thesis using that i dr idx a by metis
qed

lemma append_effect:
  assumes b: "leader_batch l X p es" and a: "append_entries ops l q es = (r, l')"
  shows "(rl_entries l' = rl_entries l \<or> (\<exists>j. rl_entries l' = take j X \<and> agree_le (rl_entries l) X j)) \<and>
    (\<forall>w. r = Inr w \<longrightarrow> take (p + length es) (rl_entries l') = take (p + length es) X) \<and> plain l'"
proof -
  note bb = leader_batchD [OF b]
  have pl: "plain l'"
    using append_entries_wf [OF bb(1,4,3) a] append_entries_snapshot [OF a] b by (auto simp: plain_def leader_batch_def)
  show ?thesis
  proof (cases "dropWhile (\<lambda>e. \<not> not_held l e) es")
    case Nil
    then have "(r, l') = (Inr False, l)" using a unfolding append_entries_def by (simp only: list.case)
    moreover have "\<forall>e\<in>set es. \<not> not_held l e" using Nil by (simp only: dropWhile_empty_iff)
    ultimately show ?thesis using held_agrees [OF b, of "length es"] pl by simp
  next
    case (Cons e rest)
    from b Cons obtain i where i: "i < length es" "e # rest = drop i es" "le_index e = Suc (p + i)"
      "take (p + i) (rl_entries l) = take (p + i) X" "p + i \<le> length (rl_entries l)"
      and ag: "\<And>n. p + i \<le> n \<Longrightarrow> agree_le (rl_entries l) X n" by (rule first_missing) blast
    obtain rt l1 where t: "(if entry_at l (le_index e) \<noteq> None then truncate_from ops l (le_index e) else (Inr (), l)) = (rt, l1)"
      by fastforce
    have l1: "(rl_entries l1 = rl_entries l \<and> rt \<noteq> Inr ()) \<or> rl_entries l1 = take (p + i) X"
      using t i(3-5) bb(2) by (auto simp: truncate_from_def entry_at_wf [OF bb(1)] split: if_splits sum.splits prod.splits)
    have "rl_entries l' = rl_entries l1 \<and> (\<exists>err. r = Inl err) \<or>
        (rt = Inr () \<and> rl_entries l' = rl_entries l1 @ e # rest)"
      using a t by (auto simp: append_entries_def Cons Let_def split: sum.splits prod.splits)
    then show ?thesis
    proof
      assume "rl_entries l' = rl_entries l1 \<and> (\<exists>err. r = Inl err)"
      then show ?thesis using l1 ag [of "p + i"] pl by auto
    next
      assume "rt = Inr () \<and> rl_entries l' = rl_entries l1 @ e # rest"
      then have "rl_entries l' = take (p + i) X @ drop i es" using l1 i(2) by auto
      also have "drop i es = take (length es - i) (drop (p + i) X)"
        by (subst bb(6)) (simp add: drop_take add.commute)
      also have "take (p + i) X @ take (length es - i) (drop (p + i) X) = take (p + length es) X"
        using i(1) by (simp add: take_add [symmetric])
      finally show ?thesis using ag [of "p + length es"] i(1) pl by auto
    qed
  qed
qed

end
