(* ===== verification/Raft_Simulation.thy ===== *)
theory Raft_Simulation
  imports Raft_Group
begin

text \<open>
  The group implements the specification. Each node's disk, log, candidacy, leadership and commit
  index, and every message in flight, are described by a state of \<open>Raft_Spec\<close>; every step of the
  group is matched by steps of the specification that keep the description true.
\<close>

section \<open>The description\<close>

abbreviation elected :: "spec \<Rightarrow> u64 \<Rightarrow> node_id \<Rightarrow> bool" where
  "elected s t i \<equiv> \<exists>el\<in>set (sp_elections s). el_term el = t \<and> el_leader el = i"

text \<open>An append request: a stretch of its leader's log, and a commit index the leader had settled.\<close>

definition msg_ok :: "node_id set \<Rightarrow> spec \<Rightarrow> append_entries_request \<Rightarrow> bool" where
  "msg_ok V s req \<longleftrightarrow> led s (ae_term req) \<and> carries (sp_lead_log s (ae_term req)) req \<and>
     ae_leader_commit req \<le> length (sp_lead_log s (ae_term req)) \<and>
     settled (quorate V) s (ae_term req) (take (ae_leader_commit req) (sp_lead_log s (ae_term req)))"

definition lead_impl :: "spec \<Rightarrow> node_id \<Rightarrow> 's raft_node \<Rightarrow> bool" where
  "lead_impl s i n \<longleftrightarrow> (role n = Leader \<longrightarrow> elected s (term_of n) i \<and> sp_lead_log s (term_of n) = entries n \<and>
     (\<forall>p. matched_by n p = 0 \<or> (\<exists>m. (p, term_of n, m) \<in> sp_acks s \<and> matched_by n p \<le> m)))"

text \<open>What a node has committed is settled in its term; what it was handed, in the term on its disk.\<close>

definition commit_impl :: "node_id set \<Rightarrow> spec \<Rightarrow> node_id \<Rightarrow> 's raft_node \<Rightarrow> u64 \<Rightarrow> bool" where
  "commit_impl V s i n handed \<longleftrightarrow> commit_of n \<le> length (entries n) \<and>
     settled (quorate V) s (term_of n) (take (commit_of n) (entries n)) \<and>
     handed \<le> length (entries n) \<and> settled (quorate V) s (sp_promise s i) (take handed (entries n)) \<and>
     durable_applied n \<le> handed"

definition node_impl ::
  "'s storage_ops \<Rightarrow> ('s \<Rightarrow> log_entry list) \<Rightarrow> node_id set \<Rightarrow> spec \<Rightarrow> node_id \<Rightarrow> 's raft_node \<Rightarrow> u64 \<Rightarrow> bool" where
  "node_impl ops held V s i n handed \<longleftrightarrow>
     (\<exists>h. disk ops n = Inr h \<and> sp_promise s i = current_term h \<and> current_term h \<le> term_of n) \<and>
     stored ops held n \<and> plain (rlog n) \<and> lead_sane n \<and> sp_log s i = entries n \<and>
     sp_stand s i = (if role n = Candidate then Some (term_of n) else None) \<and>
     lead_impl s i n \<and> (\<forall>x\<in>set (msgs n). msg_ok V s (snd x)) \<and> commit_impl V s i n handed"

text \<open>A candidate's vote requests, waiting or in flight, describe the log it still has.\<close>

definition asks_impl :: "vote_msg set \<Rightarrow> node_id \<Rightarrow> 's raft_node \<Rightarrow> bool" where
  "asks_impl nt i n \<longleftrightarrow> (role n = Candidate \<longrightarrow>
     (\<forall>x\<in>asks n \<union> {ask_of r |p r. VoteRequest p r \<in> nt}. fst x = term_of n \<longrightarrow> fst (snd x) = i \<longrightarrow>
        snd (snd x) = (last_term (rlog n), last_index (rlog n))))"

definition appends_impl :: "node_id set \<Rightarrow> spec \<Rightarrow> append_msg set \<Rightarrow> bool" where
  "appends_impl V s ms \<longleftrightarrow> (\<forall>p req. AppendRequest p req \<in> ms \<longrightarrow> msg_ok V s req) \<and>
     (\<forall>v i resp. AppendReply v i resp \<in> ms \<longrightarrow> aer_success resp \<longrightarrow>
        (v, aer_term resp, aer_last_log_index resp) \<in> sp_acks s)"

definition casts :: "vote_msg set \<Rightarrow> (node_id \<times> u64 \<times> node_id) set" where
  "casts nt = {(v, t, c). cast nt v t c}"

definition implements ::
  "'s storage_ops \<Rightarrow> ('s \<Rightarrow> log_entry list) \<Rightarrow> node_id set \<Rightarrow> 's system \<Rightarrow> spec \<Rightarrow> bool" where
  "implements ops held V g s \<longleftrightarrow> cluster_inv ops V (sys_cluster g) \<and> 2 \<le> card V \<and> spec_inv (quorate V) s \<and>
     sp_votes s = casts (net g) \<and> appends_impl V s (sys_appends g) \<and>
     (\<forall>i\<in>V. node_impl ops held V s i (node g i) (sys_handed g i) \<and> asks_impl (net g) i (node g i))"

section \<open>Steps of the specification that concern one node\<close>

definition others_same :: "node_id \<Rightarrow> spec \<Rightarrow> spec \<Rightarrow> bool" where
  "others_same i s s' \<longleftrightarrow> grows s s' \<and>
     (\<forall>j. j \<noteq> i \<longrightarrow> sp_promise s' j = sp_promise s j \<and> sp_log s' j = sp_log s j \<and> sp_stand s' j = sp_stand s j) \<and>
     (\<forall>el\<in>set (sp_elections s). el_leader el \<noteq> i \<longrightarrow> sp_lead_log s' (el_term el) = sp_lead_log s (el_term el))"

lemma others_same_refl: "others_same i s s"
  by (simp add: others_same_def grows_def)

lemma others_same_trans: "others_same i s s' \<Longrightarrow> others_same i s' s'' \<Longrightarrow> others_same i s s''"
proof -
  assume a: "others_same i s s'" and b: "others_same i s' s''"
  have "set (sp_elections s) \<subseteq> set (sp_elections s')" using a by (simp add: others_same_def grows_def)
  then have "sp_lead_log s'' (el_term el) = sp_lead_log s (el_term el)"
    if "el \<in> set (sp_elections s)" "el_leader el \<noteq> i" for el
    using a b that unfolding others_same_def by (metis subsetD)
  moreover have "grows s s''" using a b grows_trans unfolding others_same_def by blast
  ultimately show ?thesis using a b unfolding others_same_def by simp
qed

lemma carries_grow: "carries X req \<Longrightarrow> carries (X @ zs) req"
proof -
  assume c: "carries X req"
  let ?p = "ae_prev_log_index req" and ?es = "ae_entries req"
  from c obtain k where k: "?p \<le> length X" "?es = take k (drop ?p X)" by (auto simp: carries_def)
  then have "?es = take (length ?es) (drop ?p (X @ zs))" by (simp add: min_def)
  moreover have "term_before (X @ zs) ?p = term_before X ?p" using k(1) by (auto simp: term_before_def nth_append)
  ultimately show ?thesis using c unfolding carries_def by auto
qed

lemma msg_ok_grow:
  assumes "spec_inv (quorate V) s" and "grows s s'" and "msg_ok V s req"
  shows "msg_ok V s' req"
proof -
  let ?t = "ae_term req"
  obtain zs where z: "sp_lead_log s' ?t = sp_lead_log s ?t @ zs"
    using assms(2) unfolding grows_def lead_le_def by blast
  have "led s' ?t" using assms(2,3) by (auto simp: msg_ok_def grows_def led_def)
  moreover have "settled (quorate V) s' ?t (take (ae_leader_commit req) (sp_lead_log s ?t))"
    using voters.settled_grows [OF assms(1,2)] assms(3) by (simp add: msg_ok_def)
  ultimately show ?thesis using assms(3) carries_grow by (simp add: msg_ok_def z)
qed

lemma lead_impl_grow:
  assumes "grows s s'" and "lead_impl s i n" and "role n = Leader \<Longrightarrow> sp_lead_log s' (term_of n) = sp_lead_log s (term_of n)"
  shows "lead_impl s' i n"
  using assms unfolding lead_impl_def grows_def by (simp add: subset_iff) metis

lemma commit_impl_grow:
  assumes "spec_inv (quorate V) s" and "grows s s'" and "sp_promise s i \<le> sp_promise s' i" and "commit_impl V s i n handed"
  shows "commit_impl V s' i n handed"
  using assms(4) voters.settled_grows [OF assms(1,2)] settled_later [OF _ assms(3)] by (auto simp: commit_impl_def)

lemma node_impl_others:
  assumes "spec_inv (quorate V) s" and "others_same i s s'" and "j \<noteq> i" and "node_impl ops held V s j n handed"
  shows "node_impl ops held V s' j n handed"
proof -
  have g: "grows s s'" and j: "sp_promise s' j = sp_promise s j" "sp_log s' j = sp_log s j" "sp_stand s' j = sp_stand s j"
    using assms(2,3) by (auto simp: others_same_def)
  have l: "lead_impl s j n" and c: "commit_impl V s j n handed" using assms(4) by (simp_all add: node_impl_def)
  have "lead_impl s' j n" using assms(2,3) l
    by (intro lead_impl_grow [OF g l]) (auto simp: lead_impl_def others_same_def)
  moreover have "commit_impl V s' j n handed" using commit_impl_grow [OF assms(1) g _ c] j by simp
  ultimately show ?thesis using assms(4) msg_ok_grow [OF assms(1) g] by (simp add: node_impl_def j)
qed

lemma appends_impl_grow: "spec_inv (quorate V) s \<Longrightarrow> grows s s' \<Longrightarrow> appends_impl V s ms \<Longrightarrow> appends_impl V s' ms"
  using msg_ok_grow unfolding appends_impl_def grows_def by blast

section \<open>A call on one node\<close>

lemma spec_stand:
  assumes "\<And>t. st = Some t \<Longrightarrow> sp_stand s i = Some t \<or> sp_promise s i < t"
  shows "(spec_step Q)\<^sup>*\<^sup>* s (s\<lparr>sp_stand := (sp_stand s)(i := st)\<rparr>)"
    and "others_same i s (s\<lparr>sp_stand := (sp_stand s)(i := st)\<rparr>)"
proof -
  show "(spec_step Q)\<^sup>*\<^sup>* s (s\<lparr>sp_stand := (sp_stand s)(i := st)\<rparr>)"
  proof (cases st)
    case None
    then show ?thesis using spec_step.StepDown [of Q s i] by auto
  next
    case (Some t)
    show ?thesis
    proof (cases "sp_stand s i = Some t")
      case True
      then have "s\<lparr>sp_stand := (sp_stand s)(i := st)\<rparr> = s" using Some by (simp add: fun_upd_idem)
      then show ?thesis by simp
    next
      case False
      then show ?thesis using assms [OF Some] Some spec_step.Stand [of s i t Q] by auto
    qed
  qed
qed (simp add: others_same_def grows_def)

text \<open>A leader's disk holds its term, so it may acknowledge its own log.\<close>

lemma leader_promise:
  assumes "spec_inv (quorate V) s" and "elected s t i" and "sp_promise s i \<le> t"
  shows "sp_promise s i = t"
proof -
  obtain el where el: "el \<in> set (sp_elections s)" "el_term el = t" "el_leader el = i" using assms(2) by blast
  note e = election_okD [OF spec_invD(3) [OF assms(1)] el(1)]
  have "(i, t, i) \<in> sp_votes s" using e(1,3) el by blast
  from votes_okD(1) [OF spec_invD(2) [OF assms(1)] this] show ?thesis using assms(3) by simp
qed

lemma spec_self_ack:
  assumes "spec_inv (quorate V) s" and "elected s t i" and "sp_promise s i \<le> t" and "sp_log s i = sp_lead_log s t"
  shows "spec_step (quorate V) s (s\<lparr>sp_acks := insert (i, t, length (sp_log s i)) (sp_acks s)\<rparr>)"
    and "others_same i s (s\<lparr>sp_acks := insert (i, t, length (sp_log s i)) (sp_acks s)\<rparr>)"
proof -
  have "led s t" using assms(2) by (auto simp: led_iff)
  then show "spec_step (quorate V) s (s\<lparr>sp_acks := insert (i, t, length (sp_log s i)) (sp_acks s)\<rparr>)"
    using leader_promise [OF assms(1-3)] assms(4) by (intro spec_step.Ack) simp_all
qed (auto simp: others_same_def grows_def)

lemma counted_majority:
  assumes "counted ops n k" and "voters_ok V i n" and "finite V" and "i \<in> V"
  shows "quorate V (insert i {p \<in> set (peers (config n)). k \<le> matched_by n p})"
proof -
  let ?ps = "filter (\<lambda>p. k \<le> matched_by n p) (peers (config n))"
  have d: "distinct ?ps" "i \<notin> set ?ps" "set ?ps \<subseteq> V" "set (peers (config n)) = V - {i}" "distinct (peers (config n))"
    using assms(2) by (auto simp: voters_ok_def)
  have "length (peers (config n)) = card (V - {i})" using distinct_card [OF d(5)] d(4) by simp
  then have "length (peers (config n)) + 1 = card V" using card_Suc_Diff1 [OF assms(3,4)] by simp
  then have q: "quorum (config n) = card V div 2 + 1" by (simp add: quorum_def cluster_size_def)
  have "quorum (config n) \<le> 1 + length ?ps" using assms(1) by (auto simp: counted_def split: if_splits)
  moreover have "card (insert i (set ?ps)) = 1 + length ?ps" using d(1,2) distinct_card [OF d(1)] by simp
  ultimately have "majority V (insert i (set ?ps))" using q d(3) assms(4) by (simp add: majority_def)
  then show ?thesis using assms(3) by (simp add: quorate_def)
qed

lemma counted_chosen:
  assumes inv: "spec_inv (quorate V) s" and el: "elected s (term_of n) i" and lg: "sp_lead_log s (term_of n) = entries n"
    and pl: "plain (rlog n)" and c: "counted ops n k" and k: "0 < k" "k \<le> length (entries n)"
    and vo: "voters_ok V i n" and V: "finite V" "i \<in> V"
    and self: "(i, term_of n, length (entries n)) \<in> sp_acks s"
    and peer: "\<And>p. matched_by n p = 0 \<or> (\<exists>m. (p, term_of n, m) \<in> sp_acks s \<and> matched_by n p \<le> m)"
  shows "chosen (quorate V) s (term_of n) k"
proof -
  let ?A = "insert i {p \<in> set (peers (config n)). k \<le> matched_by n p}"
  obtain e where e: "e \<in> set (sp_elections s)" "el_term e = term_of n" using el by blast
  have "le_term (entries n ! (k - 1)) = term_of n"
    using c plain_term_at [OF pl k(2)] k(1) by (simp add: counted_def term_before_def)
  then have "length (el_base e) < k"
    using own_entry [OF spec_invD(3) [OF inv] e(1), of "k - 1"] e(2) lg k by (cases k) simp_all
  then have b: "\<exists>e\<in>set (sp_elections s). el_term e = term_of n \<and> length (el_base e) < k" using e by blast
  have "\<exists>m. (v, term_of n, m) \<in> sp_acks s \<and> k \<le> m" if v: "v \<in> ?A" for v
  proof (cases "v = i")
    case True
    then show ?thesis using self k(2) by blast
  next
    case False
    then have "k \<le> matched_by n v" using v by simp
    then show ?thesis using peer [of v] k(1) by (metis le_trans not_le)
  qed
  then have "\<forall>v\<in>?A. acked s v (term_of n) k" using b unfolding acked_def by blast
  then show ?thesis using counted_majority [OF c vo V] unfolding chosen_def by blast
qed

lemma log_step_sim:
  assumes inv: "spec_inv (quorate V) s" and ni: "node_impl ops held V s i n handed"
    and r: "repl_step P ops n m" and le: "term_of n \<le> term_of m"
  shows "\<exists>s'. (spec_step (quorate V))\<^sup>*\<^sup>* s s' \<and> others_same i s s' \<and> sp_votes s' = sp_votes s \<and>
    sp_promise s' = sp_promise s \<and> sp_acks s' = sp_acks s \<and> sp_log s' i = entries m \<and>
    sp_stand s' i = (if role m = Candidate then Some (term_of m) else None) \<and>
    (role m = Leader \<longrightarrow> elected s' (term_of m) i \<and> sp_lead_log s' (term_of m) = entries m)"
proof -
  have h: "sp_promise s i \<le> term_of n" using ni by (auto simp: node_impl_def)
  have lg: "sp_log s i = entries n" and sd: "sp_stand s i = (if role n = Candidate then Some (term_of n) else None)"
    and pl: "plain (rlog n)" using ni by (simp_all add: node_impl_def)
  have ld: "elected s (term_of n) i \<and> sp_lead_log s (term_of n) = entries n" if "role n = Leader"
    using ni that by (simp add: node_impl_def lead_impl_def)
  have rm: "role m = Leader \<longrightarrow> role n = Leader \<and> term_of m = term_of n"
    "role m = Candidate \<longrightarrow> (role n = Candidate \<and> term_of m = term_of n) \<or> term_of n < term_of m"
    using r by (simp_all add: repl_step_def role_step_def)
  show ?thesis
  proof (cases "entries m = entries n")
    case True
    let ?st = "if role m = Candidate then Some (term_of m) else None"
    have "sp_stand s i = Some t \<or> sp_promise s i < t" if "?st = Some t" for t
      using that rm(2) sd h by (auto split: if_splits)
    note st = spec_stand(1) [OF this, where Q = "quorate V"] spec_stand(2) [OF this]
    show ?thesis using st True lg ld rm(1) by (intro exI [of _ "s\<lparr>sp_stand := (sp_stand s)(i := ?st)\<rparr>"]) simp
  next
    case False
    then obtain d where ro: "role n = Leader" "role m = Leader" "term_of m = term_of n" and
      e: "entries m = entries n @ [\<lparr>le_term = term_of n, le_index = last_index (rlog n) + 1, le_data = d\<rparr>]"
      using r by (auto simp: repl_step_def log_step_def)
    let ?e = "\<lparr>le_term = term_of n, le_index = last_index (rlog n) + 1, le_data = d\<rparr>"
    let ?s = "s\<lparr>sp_lead_log := (sp_lead_log s)(term_of n := sp_lead_log s (term_of n) @ [?e]),
      sp_log := (sp_log s)(i := sp_log s i @ [?e])\<rparr>"
    note l = ld [OF ro(1)]
    have "spec_step (quorate V) s ?s"
      using l lg sd ro plain_last [OF pl] by (intro spec_step.Append) (auto simp: led_iff)
    moreover have "others_same i s ?s"
    proof -
      have "el_term el \<noteq> term_of n" if "el \<in> set (sp_elections s)" "el_leader el \<noteq> i" for el
        using one_election [OF spec_invD(3) [OF inv] that(1)] that(2) l by metis
      then show ?thesis by (auto simp: others_same_def grows_def lead_le_def)
    qed
    ultimately show ?thesis using l lg sd ro e by (intro exI [of _ ?s]) auto
  qed
qed

text \<open>The whole contract, the commit index and the messages included.\<close>

text \<open>The matches of a leader, its commit index and its messages after one replication step.\<close>

lemma repl_ack:
  assumes ni: "node_impl ops held V s i n handed" and r: "repl_step P ops n m" and g: "grows s s2" and L: "role m = Leader"
    and P: "\<And>p k. P p k \<Longrightarrow> (p, term_of m, k) \<in> sp_acks s"
  shows "matched_by m p = 0 \<or> (\<exists>k. (p, term_of m, k) \<in> sp_acks s2 \<and> matched_by m p \<le> k)"
proof -
  have n: "role n = Leader" "term_of m = term_of n" "matched_by m p \<le> matched_by n p \<or> P p (matched_by m p)"
    using r L by (simp_all add: repl_step_def role_step_def)
  have "sp_acks s \<subseteq> sp_acks s2" using g by (simp add: grows_def)
  moreover have "matched_by n p = 0 \<or> (\<exists>k. (p, term_of n, k) \<in> sp_acks s \<and> matched_by n p \<le> k)"
    using ni n(1) by (simp add: node_impl_def lead_impl_def)
  ultimately show ?thesis using n(2,3) P by (metis le_trans le_zero_eq order_refl subsetD)
qed

lemma repl_commit:
  assumes inv: "spec_inv (quorate V) s" "spec_inv (quorate V) s2" and g: "grows s s2" and ci: "commit_impl V s i n handed"
    and r: "repl_step P ops n m" and le: "term_of n \<le> term_of m" and pl: "plain (rlog m)" and vo: "voters_ok V i m"
    and V: "finite V" "i \<in> V"
    and l2: "role m = Leader \<Longrightarrow> elected s2 (term_of m) i \<and> sp_lead_log s2 (term_of m) = entries m \<and>
      (i, term_of m, length (entries m)) \<in> sp_acks s2"
    and ack: "\<And>p. role m = Leader \<Longrightarrow> matched_by m p = 0 \<or> (\<exists>k. (p, term_of m, k) \<in> sp_acks s2 \<and> matched_by m p \<le> k)"
  shows "commit_of m \<le> length (entries m) \<and> settled (quorate V) s2 (term_of m) (take (commit_of m) (entries m))"
proof (cases "commit_of m = commit_of n")
  case True
  obtain zs where "entries m = entries n @ zs" using r by (auto simp: repl_step_def log_step_def)
  then show ?thesis using True ci voters.settled_grows [OF inv(1) g] settled_later [OF _ le] by (simp add: commit_impl_def)
next
  case False
  then have c: "role m = Leader" "commit_of m \<le> length (entries m)" "counted ops m (commit_of m)"
    using r plain_last [OF pl] by (simp_all add: repl_step_def commit_step_def)
  have "settled (quorate V) s2 (term_of m) (take (commit_of m) (entries m))"
  proof (cases "commit_of m = 0")
    case False
    then have "chosen (quorate V) s2 (term_of m) (commit_of m)"
      using counted_chosen [OF inv(2) _ _ pl c(3) _ c(2) vo V _ ack [OF c(1)]] l2 [OF c(1)] by simp
    then show ?thesis using l2 [OF c(1)] c(2) unfolding settled_def by (metis length_take min.absorb2 order_refl)
  qed (simp add: settled_def)
  then show ?thesis using c(2) by simp
qed

lemma repl_msg:
  assumes inv: "spec_inv (quorate V) s" and g: "grows s s2" and ni: "node_impl ops held V s i n handed" and r: "repl_step P ops n m"
    and l2: "role m = Leader \<Longrightarrow> elected s2 (term_of m) i \<and> sp_lead_log s2 (term_of m) = entries m"
    and com: "commit_of m \<le> length (entries m) \<and> settled (quorate V) s2 (term_of m) (take (commit_of m) (entries m))"
    and x: "x \<in> set (msgs m)"
  shows "msg_ok V s2 (snd x)"
proof (cases "x \<in> set (msgs n)")
  case True
  then show ?thesis using ni msg_ok_grow [OF inv g] by (simp add: node_impl_def)
next
  case False
  then have sf: "role m = Leader" "sent_from m (snd x)" using r x by (auto simp: repl_step_def sends_step_def)
  have "take (ae_leader_commit (snd x)) (take (commit_of m) (entries m)) = take (ae_leader_commit (snd x)) (entries m)"
    using sf(2) by (simp add: sent_from_def)
  then have "settled (quorate V) s2 (term_of m) (take (ae_leader_commit (snd x)) (entries m))"
    using settled_take [of "quorate V" s2 "term_of m" "take (commit_of m) (entries m)"] com by metis
  then show ?thesis using sf(2) l2 [OF sf(1)] com by (auto simp: msg_ok_def sent_from_def led_iff)
qed

lemma repl_sim:
  assumes inv: "spec_inv (quorate V) s" and ni: "node_impl ops held V s i n handed"
    and r: "repl_step P ops n m" and le: "term_of n \<le> term_of m"
    and P: "\<And>p k. role m = Leader \<Longrightarrow> P p k \<Longrightarrow> (p, term_of m, k) \<in> sp_acks s"
    and vo: "voters_ok V i m" and V: "finite V" "i \<in> V"
    and dk: "disk ops m = disk ops n" and st: "stored ops held m" and du: "durable_applied m \<le> handed"
  shows "\<exists>s'. (spec_step (quorate V))\<^sup>*\<^sup>* s s' \<and> others_same i s s' \<and> sp_votes s' = sp_votes s \<and>
    node_impl ops held V s' i m handed"
proof -
  obtain s1 where s1: "(spec_step (quorate V))\<^sup>*\<^sup>* s s1" "others_same i s s1" "sp_votes s1 = sp_votes s"
    "sp_promise s1 = sp_promise s" "sp_acks s1 = sp_acks s" "sp_log s1 i = entries m"
    "sp_stand s1 i = (if role m = Candidate then Some (term_of m) else None)"
    and ld1: "role m = Leader \<Longrightarrow> elected s1 (term_of m) i \<and> sp_lead_log s1 (term_of m) = entries m"
    using log_step_sim [OF inv ni r le] by blast
  have inv1: "spec_inv (quorate V) s1" by (rule voters.spec_inv_steps [OF s1(1) inv])
  have pm: "sp_promise s i \<le> term_of m" using ni le by (auto simp: node_impl_def)
  define s2 where "s2 = (if role m = Leader then s1\<lparr>sp_acks := insert (i, term_of m, length (entries m)) (sp_acks s1)\<rparr> else s1)"
  have s2: "(spec_step (quorate V))\<^sup>*\<^sup>* s1 s2 \<and> others_same i s1 s2"
    using spec_self_ack [OF inv1, of "term_of m" i] ld1 pm s1(4,6) others_same_refl by (auto simp: s2_def)
  have steps: "(spec_step (quorate V))\<^sup>*\<^sup>* s s2" and oth: "others_same i s s2"
    using s1(1,2) s2 others_same_trans by (auto intro: rtranclp_trans)
  have g: "grows s s2" using oth by (simp add: others_same_def)
  have inv2: "spec_inv (quorate V) s2" by (rule voters.spec_inv_steps [OF steps inv])
  have f2: "sp_votes s2 = sp_votes s" "sp_promise s2 = sp_promise s" "sp_log s2 i = entries m"
    "sp_stand s2 i = (if role m = Candidate then Some (term_of m) else None)" using s1(3,4,6,7) by (simp_all add: s2_def)
  have ld2: "elected s2 (term_of m) i \<and> sp_lead_log s2 (term_of m) = entries m \<and>
      (i, term_of m, length (entries m)) \<in> sp_acks s2" if "role m = Leader" using ld1 [OF that] that by (simp add: s2_def)
  have pl: "plain (rlog m)" using st ni r by (simp add: stored_def plain_def node_impl_def repl_step_def log_step_def)
  have ack: "matched_by m p = 0 \<or> (\<exists>k. (p, term_of m, k) \<in> sp_acks s2 \<and> matched_by m p \<le> k)" if "role m = Leader" for p
    by (rule repl_ack [OF ni r g that P [OF that]])
  then have lead: "lead_impl s2 i m" using ld2 by (simp add: lead_impl_def)
  obtain zs where zs: "entries m = entries n @ zs" using r by (auto simp: repl_step_def log_step_def)
  have ci: "commit_impl V s i n handed" using ni by (simp add: node_impl_def)
  note com = repl_commit [OF inv inv2 g ci r le pl vo V ld2 ack]
  have "commit_impl V s2 i m handed"
    using com ci zs voters.settled_grows [OF inv g] du f2(2) by (simp add: commit_impl_def)
  moreover have "msg_ok V s2 (snd x)" if "x \<in> set (msgs m)" for x
    using repl_msg [OF inv g ni r _ com that] ld2 by blast
  moreover have "lead_sane m" using r by (simp add: repl_step_def role_step_def)
  moreover have "\<exists>h. disk ops m = Inr h \<and> sp_promise s2 i = current_term h \<and> current_term h \<le> term_of m"
    using ni dk le f2(2) by (auto simp: node_impl_def)
  ultimately have "node_impl ops held V s2 i m handed" using f2 st pl lead by (simp add: node_impl_def)
  then show ?thesis using steps oth f2(1) by blast
qed

lemma repl_exec:
  assumes "replica_event h ev" and "peers (config n) \<noteq> []" and "lead_sane n" and "plain (rlog n)" and "term_fits n"
  shows "repl_step no_match ops n (exec ops env ev n)"
proof (cases ev)
  case (RecvPreVote req)
  then show ?thesis using repl_refl [OF assms(3)] by (simp add: handle_pre_vote_at_def Let_def)
qed (use assms in \<open>simp_all add: replica_event_def local_event_def static_voters_def repl_tick repl_propose
    repl_pre_vote_response repl_timeout_now repl_set_replica_state repl_notify repl_learners repl_quiet
    repl_start_read repl_storage_progress\<close>)

lemma durable_exec:
  assumes "replica_event h ev" and "durable_applied n \<le> h"
  shows "durable_applied (exec ops env ev n) \<le> h"
proof (cases ev)
  case (SaveApplied k)
  then show ?thesis using assms
    by (auto simp: replica_event_def save_durable_applied_index_def split: sum.split prod.split)
next
  case (SetReplicaState st)
  then show ?thesis using assms
    by (auto simp: set_replica_state_def stand_down_for_snapshot_def Let_def split: node_role.split option.split)
qed (use assms in \<open>auto simp: replica_event_def local_event_def static_voters_def tick_def start_pre_election_def
    start_election_def propose_def handle_pre_vote_at_def handle_pre_vote_response_def handle_timeout_now_def
    notify_removed_peer_def add_learner_def remove_learner_def promote_self_to_voter_def transfer_leadership_def
    start_read_index_def on_storage_progress_def advance_applied_def requeue_committed_def set_compaction_ceiling_def Let_def
    split: option.split sum.split prod.split node_role.split\<close>)

section \<open>Vote requests\<close>

lemma request_term:
  assumes "node_ok ops V nt i n" and "VoteRequest p r \<in> nt" and "rv_candidate_id r = i"
  shows "rv_term r \<le> term_of n" and "cast nt i (rv_term r) i"
proof -
  have st: "stands nt i (rv_term r)" using assms(2,3) by (auto simp: stands_def)
  then show c: "cast nt i (rv_term r) i" by (simp add: cast_def)
  obtain h where "hard_le h (hard n)" "covers h (rv_term r) i" using assms(1) c by (auto simp: node_ok_def disk_ok_def)
  then show "rv_term r \<le> term_of n" by (auto simp: covers_def hard_le_def)
qed

lemma ask_term:
  assumes "node_ok ops V nt i n" and "x \<in> asks n"
  shows "fst x \<le> term_of n"
proof -
  obtain p r where r: "(p, r) \<in> set (vreqs n)" "x = ask_of r" using assms(2) by (auto simp: asks_def)
  then have "(p, rv_term r, rv_candidate_id r) \<in> asked n" by (force simp: asked_def)
  then have "covers (hard n) (rv_term r) i" using assms(1) by (auto simp: node_ok_def asked_ok_def)
  then show ?thesis using r(2) by (auto simp: covers_def ask_of_def)
qed

lemma last_cong:
  "rl_entries l = rl_entries l' \<Longrightarrow> snapshot_index l = snapshot_index l' \<Longrightarrow> snapshot_term l = snapshot_term l' \<Longrightarrow>
     last_term l = last_term l' \<and> last_index l = last_index l'"
  by (simp add: last_term_def last_index_def)

lemma asks_impl_repl:
  assumes ok: "node_ok ops V nt i n" and a: "asks_impl nt i n" and r: "repl_step P ops n m"
  shows "asks_impl nt i m"
  unfolding asks_impl_def
proof (intro impI ballI)
  fix x
  assume c: "role m = Candidate" and x: "x \<in> asks m \<union> {ask_of r |p r. VoteRequest p r \<in> nt}"
    and t: "fst x = term_of m" "fst (snd x) = i"
  have l: "last_term (rlog m) = last_term (rlog n) \<and> last_index (rlog m) = last_index (rlog n)"
    using r c by (intro last_cong) (auto simp: repl_step_def log_step_def)
  have ro: "(role n = Candidate \<and> term_of m = term_of n) \<or> term_of n < term_of m"
    using r c by (simp add: repl_step_def role_step_def)
  have nt: "fst x \<le> term_of n" if "x \<in> {ask_of r |p r. VoteRequest p r \<in> nt}"
    using that request_term(1) [OF ok] t(2) by (auto simp: ask_of_def)
  consider "x \<in> asks n \<union> {ask_of r |p r. VoteRequest p r \<in> nt}"
    | "x = (term_of m, node_id (config m), last_term (rlog m), last_index (rlog m))"
    using x r by (auto simp: repl_step_def asks_step_def)
  then show "snd (snd x) = (last_term (rlog m), last_index (rlog m))"
  proof cases
    case 1
    then have "fst x \<le> term_of n" using nt ask_term [OF ok] by blast
    then have "role n = Candidate" "term_of m = term_of n" using ro t(1) by auto
    then show ?thesis using a 1 t l by (simp add: asks_impl_def)
  qed simp
qed

section \<open>One node of a group\<close>

text \<open>All that is known of node \<open>i\<close>, and steps of the specification on its behalf that cast no vote.\<close>

definition described ::
  "'s storage_ops \<Rightarrow> ('s \<Rightarrow> log_entry list) \<Rightarrow> node_id set \<Rightarrow> vote_msg set \<Rightarrow> spec \<Rightarrow> node_id \<Rightarrow> 's raft_node \<Rightarrow> u64 \<Rightarrow> bool" where
  "described ops held V nt s i n handed \<longleftrightarrow> node_ok ops V nt i n \<and> node_impl ops held V s i n handed \<and> asks_impl nt i n"

definition moves :: "node_id set \<Rightarrow> node_id \<Rightarrow> spec \<Rightarrow> spec \<Rightarrow> bool" where
  "moves V i s s' \<longleftrightarrow> (spec_step (quorate V))\<^sup>*\<^sup>* s s' \<and> others_same i s s' \<and> sp_votes s' = sp_votes s"

lemma moves_refl: "moves V i s s"
  by (simp add: moves_def others_same_refl)

lemma moves_trans: "moves V i s s' \<Longrightarrow> moves V i s' s'' \<Longrightarrow> moves V i s s''"
  using others_same_trans unfolding moves_def by (metis rtranclp_trans)

lemma moves_inv: "moves V i s s' \<Longrightarrow> spec_inv (quorate V) s \<Longrightarrow> spec_inv (quorate V) s'"
  using voters.spec_inv_steps unfolding moves_def by blast

lemma moves_grow: "moves V i s s' \<Longrightarrow> grows s s'"
  by (simp add: moves_def others_same_def)

lemma voter_peers:
  assumes "voters_ok V i n" and "2 \<le> card V"
  shows "peers (config n) \<noteq> []"
proof
  assume "peers (config n) = []"
  then have "V \<subseteq> {i}" using assms(1) by (auto simp: voters_ok_def)
  then have "card V \<le> card {i}" by (intro card_mono) simp_all
  then show False using assms(2) by simp
qed

lemma implementsD:
  assumes "implements ops held V g s"
  shows "cluster_inv ops V (sys_cluster g)" and "2 \<le> card V" and "spec_inv (quorate V) s" and "finite V" and "0 \<notin> V"
    and "net_ok V (net g)" and "sp_votes s = casts (net g)" and "appends_impl V s (sys_appends g)"
    and "i \<in> V \<Longrightarrow> described ops held V (net g) s i (node g i) (sys_handed g i)"
  using assms by (auto simp: implements_def described_def cluster_inv_def)

lemma implements_put:
  assumes "implements ops held V g s" and "moves V i s s'" and "i \<in> V"
    and "described ops held V (net g) s' i n (sys_handed g i)"
  shows "implements ops held V (put i n g) s'"
proof -
  note d = implementsD [OF assms(1)]
  have o: "others_same i s s'" and v: "sp_votes s' = sp_votes s" using assms(2) by (simp_all add: moves_def)
  have "cluster_inv ops V (set_node i n (sys_cluster g))"
    using d(1) assms(4) by (simp add: cluster_inv_def described_def)
  moreover have "node_impl ops held V s' j (node g j) (sys_handed g j) \<and> asks_impl (net g) j (node g j)"
    if "j \<in> V" "j \<noteq> i" for j
    using d(9) [OF that(1)] unfolding described_def by (blast intro: node_impl_others [OF d(3) o that(2)])
  ultimately show ?thesis
    using d(2,7) moves_inv [OF assms(2) d(3)] appends_impl_grow [OF d(3) moves_grow [OF assms(2)] d(8)] assms(4) v
    by (auto simp: implements_def described_def)
qed

text \<open>The votes a candidate casts for itself, as its requests leave.\<close>

lemma spec_self_votes:
  assumes "finite T" and "\<forall>t\<in>T. t \<le> sp_promise s i \<and> (\<forall>d. (i, t, d) \<in> sp_votes s \<longrightarrow> d = i)"
    and "\<forall>t. sp_stand s i = Some t \<longrightarrow> sp_promise s i = t"
  shows "(spec_step Q)\<^sup>*\<^sup>* s (s\<lparr>sp_votes := sp_votes s \<union> (\<lambda>t. (i, t, i)) ` T\<rparr>)"
  using assms
proof (induction T)
  case empty
  then show ?case by simp
next
  case (insert t T)
  let ?s = "s\<lparr>sp_votes := sp_votes s \<union> (\<lambda>t. (i, t, i)) ` T\<rparr>"
  have "spec_step Q ?s (?s\<lparr>sp_votes := insert (i, t, i) (sp_votes ?s)\<rparr>)"
    using insert.prems by (intro spec_step.Vote) (auto simp: pos_le_def)
  then show ?case using insert.IH insert.prems by (auto intro: rtranclp.rtrancl_into_rtrancl)
qed

lemma votes_irrelevant:
  "node_impl ops held V (s\<lparr>sp_votes := vs\<rparr>) i n handed = node_impl ops held V s i n handed"
  "appends_impl V (s\<lparr>sp_votes := vs\<rparr>) ms = appends_impl V s ms"
  by (simp_all add: node_impl_def appends_impl_def lead_impl_def msg_ok_def commit_impl_def settled_def chosen_def
      acked_def led_def)

lemma node_impl_sent:
  assumes "node_impl ops held V s i k handed" and "disk ops k = Inr (hard k)" and "sp_promise s i = term_of k"
  shows "node_impl ops held V s i (k\<lparr>pending_ready := ready_default\<rparr>) (max handed (commit_of k))"
proof -
  let ?k = "k\<lparr>pending_ready := ready_default\<rparr>"
  have "stored ops held ?k" using assms(1,2) by (simp add: node_impl_def stored_def)
  moreover have "commit_impl V s i ?k (max handed (commit_of k))"
    using assms(1,3) by (auto simp: node_impl_def commit_impl_def max_def)
  moreover have "lead_impl s i ?k" "lead_sane ?k" using assms(1) by (simp_all add: node_impl_def lead_impl_def lead_sane_def)
  ultimately show ?thesis using assms(1) by (simp add: node_impl_def ready_default_def)
qed

lemma asks_impl_sent:
  assumes "asks_impl nt i k" and "nt' = nt \<union> (\<lambda>(p, req). VoteRequest p req) ` set (vreqs k)"
  shows "asks_impl nt' i (k\<lparr>pending_ready := ready_default\<rparr>)"
proof -
  have sub: "{ask_of r |p r. VoteRequest p r \<in> nt'} \<subseteq> asks k \<union> {ask_of r |p r. VoteRequest p r \<in> nt}"
    by (auto simp: assms(2) asks_def)
  have none: "asks (k\<lparr>pending_ready := ready_default\<rparr>) = {}" by (simp add: asks_def ready_default_def)
  show ?thesis
    unfolding asks_impl_def none
  proof (intro impI ballI)
    fix x
    assume "role (k\<lparr>pending_ready := ready_default\<rparr>) = Candidate" "x \<in> {} \<union> {ask_of r |p r. VoteRequest p r \<in> nt'}"
      "fst x = term_of (k\<lparr>pending_ready := ready_default\<rparr>)" "fst (snd x) = i"
    then have "role k = Candidate" "x \<in> asks k \<union> {ask_of r |p r. VoteRequest p r \<in> nt}" "fst x = term_of k" "fst (snd x) = i"
      using sub by auto
    then show "snd (snd x) = (last_term (rlog (k\<lparr>pending_ready := ready_default\<rparr>)), last_index (rlog (k\<lparr>pending_ready := ready_default\<rparr>)))"
      using assms(1) unfolding asks_impl_def by simp
  qed
qed

lemma asks_impl_others:
  assumes "asks_impl nt j n" and "\<And>p r. VoteRequest p r \<in> nt' \<Longrightarrow> VoteRequest p r \<in> nt \<or> rv_candidate_id r \<noteq> j"
  shows "asks_impl nt' j n"
proof -
  have "x \<in> {ask_of r |p r. VoteRequest p r \<in> nt} \<or> fst (snd x) \<noteq> j" if "x \<in> {ask_of r |p r. VoteRequest p r \<in> nt'}" for x
    using that assms(2) by (fastforce simp: ask_of_def)
  then show ?thesis using assms(1) unfolding asks_impl_def by blast
qed

context log_storage
begin

lemma sim_step:
  assumes V: "finite V" "i \<in> V" and inv: "spec_inv (quorate V) s"
    and d: "described ops held V nt s i n handed" and m: "node_ok ops V nt i m" and le: "term_of n \<le> term_of m"
    and r: "repl_step P ops n m" and P: "\<And>p k. role m = Leader \<Longrightarrow> P p k \<Longrightarrow> (p, term_of m, k) \<in> sp_acks s"
    and dk: "disk ops m = disk ops n" and st: "stored ops held m" and du: "durable_applied m \<le> handed"
  shows "\<exists>s'. moves V i s s' \<and> described ops held V nt s' i m handed"
proof -
  have n: "node_ok ops V nt i n" "node_impl ops held V s i n handed" "asks_impl nt i n"
    using d by (simp_all add: described_def)
  have "voters_ok V i m" using m by (simp add: node_ok_def)
  from repl_sim [OF inv n(2) r le P this V dk st du] obtain s' where
    "moves V i s s'" "node_impl ops held V s' i m handed" unfolding moves_def by blast
  then show ?thesis using m asks_impl_repl [OF n(1,3) r] unfolding described_def by blast
qed

lemma sim_call:
  assumes V: "finite V" "i \<in> V" "0 \<notin> V" and inv: "spec_inv (quorate V) s"
    and d: "described ops held V nt s i n handed" and e: "elect_step n m" and r: "repl_step P ops n m"
    and P: "\<And>p k. role m = Leader \<Longrightarrow> P p k \<Longrightarrow> (p, term_of m, k) \<in> sp_acks s"
    and dk: "disk ops m = disk ops n" and st: "stored ops held m" and du: "durable_applied m \<le> handed"
  shows "\<exists>s'. moves V i s s' \<and> described ops held V nt s' i m handed"
proof -
  have "node_ok ops V nt i n" using d by (simp add: described_def)
  then have m: "node_ok ops V nt i m" by (rule node_ok_elect [OF _ e dk V(2,3)])
  have "hard_le (hard n) (hard m)" using e by (simp add: elect_step_def)
  then have "term_of n \<le> term_of m" by (auto simp: hard_le_def)
  then show ?thesis by (rule sim_step [OF V(1,2) inv d m _ r P dk st du])
qed

lemma persist_disk:
  assumes "stored ops held n" and "disk ops n = Inr h" and "persist_hard_state_if_dirty ops n = (r, m)"
  shows "(disk ops m = Inr h \<and> (\<exists>e. r = Inl e)) \<or> (disk ops m = Inr (hard n) \<and> r = Inr ())"
  using assms
  by (auto simp: persist_hard_state_if_dirty_def stored_def dest: save_hard_state save_hard_state_failed
      split: if_splits sum.splits prod.splits)

lemma persist_view:
  assumes "persist_hard_state_if_dirty ops n = (r, m)"
  shows "config m = config n" and "hard m = hard n" and "role m = role n" and "leader_st m = leader_st n"
    and "volatile m = volatile n" and "entries m = entries n" and "snapshot_index (rlog m) = snapshot_index (rlog n)"
    and "snapshot_term (rlog m) = snapshot_term (rlog n)" and "msgs m = msgs n" and "vreqs m = vreqs n"
    and "durable_applied m = durable_applied n" and "votes_received m = votes_received n"
  using assms by (auto simp: persist_hard_state_if_dirty_def split: if_splits sum.splits prod.splits)

lemma sim_persist:
  assumes V: "finite V" "i \<in> V" "0 \<notin> V" and inv: "spec_inv (quorate V) s" and nt: "net_ok V nt"
    and d: "described ops held V nt s i n handed" and p: "persist_hard_state_if_dirty ops n = (r, m)"
  shows "\<exists>s'. moves V i s s' \<and> described ops held V nt s' i m handed \<and>
    (\<forall>u. r = Inr u \<longrightarrow> sp_promise s' i = term_of m) \<and> sp_lead_log s' = sp_lead_log s"
proof -
  have n: "node_ok ops V nt i n" "node_impl ops held V s i n handed" "asks_impl nt i n"
    using d by (simp_all add: described_def)
  obtain h where h: "disk ops n = Inr h" "sp_promise s i = current_term h" "current_term h \<le> term_of n"
    using n(2) by (auto simp: node_impl_def)
  have st: "stored ops held n" using n(2) by (simp add: node_impl_def)
  note v = persist_view [OF p]
  obtain h' where h': "disk ops m = Inr h'" "current_term h \<le> current_term h'" "current_term h' \<le> term_of m"
    "\<forall>u. r = Inr u \<longrightarrow> current_term h' = term_of m"
    using persist_disk [OF st h(1) p] h(3) v(2) by auto
  let ?s = "s\<lparr>sp_promise := (sp_promise s)(i := current_term h')\<rparr>"
  have "spec_step (quorate V) s ?s" using h(2) h'(2) by (intro spec_step.Promise) simp
  then have mv: "moves V i s ?s" by (auto simp: moves_def others_same_def grows_def)
  have g: "grows s ?s" by (rule moves_grow [OF mv])
  have li: "lead_impl s i n" and ci: "commit_impl V s i n handed" using n(2) by (simp_all add: node_impl_def)
  have "lead_impl ?s i n" by (rule lead_impl_grow [OF g li]) simp
  then have "lead_impl ?s i m" using v by (simp add: lead_impl_def matched_by_def)
  moreover have "commit_impl V ?s i n handed" using commit_impl_grow [OF inv g _ ci] h(2) h'(2) by simp
  then have "commit_impl V ?s i m handed" using v by (simp add: commit_impl_def)
  moreover have "stored ops held m" using stored_persist [OF st] p by (metis snd_conv)
  moreover have "plain (rlog m)" using n(2) calculation(3) v by (simp add: node_impl_def plain_def stored_def)
  moreover have "\<forall>x\<in>set (msgs m). msg_ok V ?s (snd x)" using n(2) msg_ok_grow [OF inv g] v(9) by (simp add: node_impl_def)
  ultimately have "node_impl ops held V ?s i m handed"
    using n(2) h' v by (simp add: node_impl_def lead_sane_def)
  moreover have "node_ok ops V nt i m" by (rule node_ok_persist [OF p n(1) nt V(3)])
  moreover have "asks_impl nt i m" using n(3) v last_cong [of "rlog m" "rlog n"] by (simp add: asks_impl_def asks_def)
  ultimately show ?thesis using mv h'(4) by (auto simp: described_def)
qed

lemma sim_local:
  assumes im: "implements ops held V g s" and i: "i \<in> V" and ev: "replica_event (sys_handed g i) ev"
    and fits: "term_fits (node g i)"
  shows "\<exists>s'. (spec_step (quorate V))\<^sup>*\<^sup>* s s' \<and> implements ops held V (put i (exec ops env ev (node g i)) g) s'"
proof -
  let ?n = "node g i" and ?m = "exec ops env ev (node g i)"
  note d = implementsD [OF im] and lo = replica_local [OF ev]
  have ni: "node_impl ops held V s i ?n (sys_handed g i)" "voters_ok V i ?n"
    using d(9) [OF i] by (simp_all add: described_def node_ok_def)
  then have n: "stored ops held ?n" "plain (rlog ?n)" "lead_sane ?n" "durable_applied ?n \<le> sys_handed g i"
    by (simp_all add: node_impl_def commit_impl_def)
  have "driver_ok ev ?n" using ev by (cases ev) (auto simp: replica_event_def local_event_def driver_ok_def)
  from stored_exec [OF n(1) this] have st: "stored ops held ?m" .
  have r: "repl_step no_match ops ?n ?m" by (rule repl_exec [OF ev voter_peers [OF ni(2) d(2)] n(3,2) fits])
  from sim_call [OF d(4) i d(5) d(3) d(9) [OF i] elect_exec [OF local_eventD [OF lo] fits] r _ disk_exec [OF lo] st
      durable_exec [OF ev n(4)]]
  obtain s' where s': "moves V i s s'" "described ops held V (net g) s' i ?m (sys_handed g i)" by blast
  then show ?thesis using implements_put [OF im s'(1) i s'(2)] by (auto simp: moves_def)
qed

lemma durable_tick [simp]: "durable_applied (tick ops env n) = durable_applied n"
  by (simp add: tick_def start_pre_election_def start_election_def Let_def split: node_role.split option.split)

lemma durable_progress [simp]: "durable_applied (on_storage_progress ops n) = durable_applied n"
  by (simp add: on_storage_progress_def)

lemma disk_progress [simp]: "disk ops (on_storage_progress ops n) = disk ops n"
  by (simp add: on_storage_progress_def)

lemma sim_tick:
  assumes V: "finite V" "i \<in> V" "0 \<notin> V" "2 \<le> card V" and inv: "spec_inv (quorate V) s" and nt: "net_ok V nt"
    and d: "described ops held V nt s i n handed" and t: "group_tick ops env n = (r, m)" and fits: "term_fits n"
  shows "\<exists>s' k. moves V i s s' \<and> described ops held V nt s' i k handed \<and>
    ((\<exists>e. r = Inl e \<and> m = k) \<or> (r = Inr (pending_ready k) \<and> m = k\<lparr>pending_ready := ready_default\<rparr> \<and>
       sp_promise s' i = term_of k \<and> disk ops k = Inr (hard k)))"
proof -
  let ?n1 = "on_storage_progress ops n" and ?n2 = "tick ops env (on_storage_progress ops n)"
  have n: "stored ops held n" "plain (rlog n)" "lead_sane n" "durable_applied n \<le> handed" "voters_ok V i n"
    using d by (simp_all add: described_def node_impl_def commit_impl_def node_ok_def)
  have st1: "stored ops held ?n1" using n(1) by (simp add: on_storage_progress_def)
  obtain s1 where s1: "moves V i s s1" "described ops held V nt s1 i ?n1 handed"
    using sim_call [OF V(1-3) inv d elect_quiet(8) repl_storage_progress [OF n(3), of no_match] _ disk_progress st1] n(4)
    by auto
  have n1: "plain (rlog ?n1)" "lead_sane ?n1" "voters_ok V i ?n1"
    using s1(2) by (simp_all add: described_def node_impl_def node_ok_def)
  note inv1 = moves_inv [OF s1(1) inv]
  have f1: "term_fits ?n1" using fits by (simp add: term_fits_def on_storage_progress_def)
  obtain s2 where s2: "moves V i s1 s2" "described ops held V nt s2 i ?n2 handed"
    using sim_call [OF V(1-3) inv1 s1(2) elect_tick [OF f1] repl_tick [OF voter_peers [OF n1(3) V(4)] n1(2,1), of no_match]
        _ disk_tick stored_tick [OF st1]] n(4) by auto
  note inv2 = moves_inv [OF s2(1) inv1]
  obtain q k where p: "persist_hard_state_if_dirty ops ?n2 = (q, k)" by fastforce
  obtain s3 where s3: "moves V i s2 s3" "described ops held V nt s3 i k handed" "\<forall>u. q = Inr u \<longrightarrow> sp_promise s3 i = term_of k"
    using sim_persist [OF V(1-3) inv2 nt s2(2) p] by blast
  have "disk ops k = Inr (hard k)" if "q = Inr ()"
    using persist_disk [OF stored_tick [OF st1] _ p] persist_view(2) [OF p] s2(2) that
    by (auto simp: described_def node_impl_def)
  moreover have "moves V i s s3" using s1(1) s2(1) s3(1) moves_trans by blast
  ultimately show ?thesis using s3(2,3) t p
    by (cases q) (auto simp: group_tick_def take_ready_def Let_def intro!: exI [of _ s3] exI [of _ k])
qed

lemma sim_tick_sent:
  assumes im: "implements ops held V g s" and i: "i \<in> V" and t: "group_tick ops env (node g i) = (Inr r, n)"
    and fits: "term_fits (node g i)" and g': "g' = hand_over i (max (sys_handed g i) (commit_of n))
      (send_appends ((\<lambda>(p, req). AppendRequest p req) ` set (rd_messages r))
        (send_votes ((\<lambda>(p, req). VoteRequest p req) ` set (rd_vote_requests r)) (put i n g)))"
    and ci: "cluster_inv ops V (sys_cluster g')"
  shows "\<exists>s'. (spec_step (quorate V))\<^sup>*\<^sup>* s s' \<and> implements ops held V g' s'"
proof -
  note d = implementsD [OF im]
  obtain s1 k where s1: "moves V i s s1" "described ops held V (net g) s1 i k (sys_handed g i)"
    and k: "r = pending_ready k" "n = k\<lparr>pending_ready := ready_default\<rparr>" "sp_promise s1 i = term_of k" "disk ops k = Inr (hard k)"
    using sim_tick [OF d(4) i d(5,2,3,6) d(9) [OF i] t fits] by blast
  have nk: "node_impl ops held V s1 i k (sys_handed g i)" and ok: "node_ok ops V (net g) i k" and ak: "asks_impl (net g) i k"
    using s1(2) by (simp_all add: described_def)
  define T where "T = (\<lambda>(p, t, c). t) ` asked k"
  let ?s = "s1\<lparr>sp_votes := sp_votes s1 \<union> (\<lambda>t. (i, t, i)) ` T\<rparr>"
  have aok: "asked_ok V (net g) i k" using ok by (simp add: node_ok_def)
  have v1: "sp_votes s1 = casts (net g)" using s1(1) d(7) by (simp add: moves_def)
  have steps: "(spec_step (quorate V))\<^sup>*\<^sup>* s1 ?s"
  proof (rule spec_self_votes)
    show "finite T" by (simp add: T_def asked_def)
    show "\<forall>t\<in>T. t \<le> sp_promise s1 i \<and> (\<forall>d. (i, t, d) \<in> sp_votes s1 \<longrightarrow> d = i)"
      using aok k(3) by (auto simp: T_def v1 casts_def asked_ok_def covers_def)
    show "\<forall>t. sp_stand s1 i = Some t \<longrightarrow> sp_promise s1 i = t" using nk k(3) by (auto simp: node_impl_def split: if_splits)
  qed
  have "others_same i s1 ?s" by (simp add: others_same_def grows_def)
  then have oth: "others_same i s ?s" using s1(1) others_same_trans unfolding moves_def by blast
  have ss: "(spec_step (quorate V))\<^sup>*\<^sup>* s ?s" using s1(1) steps unfolding moves_def by (metis rtranclp_trans)
  note inv = voters.spec_inv_steps [OF ss d(3)]
  have net': "net g' = net g \<union> (\<lambda>(p, req). VoteRequest p req) ` set (vreqs k)" by (simp add: g' k(1))
  have "(\<exists>p. (p, t, i) \<in> asked k) \<longleftrightarrow> t \<in> T" for t using aok by (force simp: T_def asked_ok_def)
  then have v: "sp_votes ?s = casts (net g')" using cast_requests [OF aok net'] by (auto simp: v1 casts_def)
  have a: "appends_impl V ?s (sys_appends g')"
    using appends_impl_grow [OF d(3) moves_grow [OF s1(1)] d(8)] nk unfolding votes_irrelevant
    by (auto simp: appends_impl_def node_impl_def g' k(1))
  have own: "node_impl ops held V ?s i (node g' i) (sys_handed g' i)" "asks_impl (net g') i (node g' i)"
    using node_impl_sent [OF nk k(4,3)] asks_impl_sent [OF ak net'] unfolding votes_irrelevant by (simp_all add: g' k(2))
  have "node_impl ops held V ?s j (node g' j) (sys_handed g' j) \<and> asks_impl (net g') j (node g' j)"
    if j: "j \<in> V" "j \<noteq> i" for j
  proof -
    have dj: "node_impl ops held V s j (node g j) (sys_handed g j)" "asks_impl (net g) j (node g j)"
      using d(9) [OF j(1)] by (simp_all add: described_def)
    have "asks_impl (net g') j (node g j)"
      using asked_okD(3) [OF aok] j(2) by (intro asks_impl_others [OF dj(2)]) (auto simp: net')
    then show ?thesis using node_impl_others [OF d(3) oth j(2) dj(1)] j(2) by (simp add: g')
  qed
  then have "implements ops held V g' ?s" using ci d(2) inv v a own unfolding implements_def by blast
  then show ?thesis using ss by blast
qed

end

end
