(* ===== verification/Raft_Refinement.thy ===== *)
theory Raft_Refinement
  imports Raft_Simulation
begin

text \<open>
  Votes, elections, appends and restarts: the remaining steps of the group, each matched by steps of
  the specification, and with them the refinement. What a reachable group has committed is settled
  in the specification, so no two nodes ever commit different entries at one index.
\<close>

section \<open>Votes\<close>

lemma repl_request_vote: "lead_sane n \<Longrightarrow> repl_step P ops n (snd (handle_request_vote_at env req n))"
proof -
  assume s: "lead_sane n"
  have f: "repl_step P ops n (become_follower env t n)" for t by (rule repl_become_follower) simp_all
  have v: "repl_step P ops n (reset_election_timeout env (persist_hard_state (m\<lparr>hard := (hard m)\<lparr>voted_for := c\<rparr>\<rparr>)))"
    if "repl_step P ops n m" for m c
    by (rule repl_cong [OF that]) (simp_all add: asks_def matched_by_def)
  show ?thesis using s f v repl_refl [OF s] by (simp add: handle_request_vote_at_def Let_def)
qed

lemma plain_last_pos: "plain l \<Longrightarrow> last_pos (rl_entries l) = (last_term l, last_index l)"
  using plain_last [of l] by (auto simp: last_pos_def last_term_def plain_def)

lemma granted_vote:
  assumes "handle_request_vote_at env req n = (resp, m)" and "rvr_vote_granted resp"
  shows "log_ok (rlog n) (rv_last_log_term req) (rv_last_log_index req)" and "rlog m = rlog n"
  using assms by (auto simp: handle_request_vote_at_def Let_def split: if_splits)

lemma durable_vote [simp]: "durable_applied (snd (handle_request_vote_at env req n)) = durable_applied n"
  by (simp add: handle_request_vote_at_def Let_def)

lemma vote_promise:
  assumes "described ops held V nt s c n handed" and "cast nt c t d"
  shows "t \<le> sp_promise s c"
proof -
  obtain h where "disk ops n = Inr h" "covers h t d"
    using assms unfolding described_def node_ok_def disk_ok_def by blast
  then show ?thesis using assms(1) by (auto simp: described_def node_impl_def covers_def)
qed

text \<open>New votes in the network, with the specification's votes brought up to date.\<close>

lemma implements_votes:
  assumes "implements ops held V g s" and "\<And>p r. VoteRequest p r \<notin> ms" and "cluster_inv ops V (sys_cluster (send_votes ms g))"
    and "(spec_step (quorate V))\<^sup>*\<^sup>* s (s\<lparr>sp_votes := casts (net g \<union> ms)\<rparr>)"
  shows "implements ops held V (send_votes ms g) (s\<lparr>sp_votes := casts (net g \<union> ms)\<rparr>)"
proof -
  note d = implementsD [OF assms(1)]
  have "asks_impl (net g \<union> ms) j (node g j)" if "j \<in> V" for j
  proof -
    have "asks_impl (net g) j (node g j)" using d(9) [OF that] by (simp add: described_def)
    then show ?thesis by (rule asks_impl_others) (use assms(2) in blast)
  qed
  then show ?thesis
    using assms(1,3) voters.spec_inv_steps [OF assms(4) d(3)] by (simp add: implements_def votes_irrelevant)
qed

context log_storage
begin

lemma sim_serve_vote:
  assumes V: "finite V" "i \<in> V" "0 \<notin> V" and inv: "spec_inv (quorate V) s" and nt: "net_ok V nt"
    and d: "described ops held V nt s i n handed" and sv: "serve_vote ops env req n = (r, m)"
  shows "\<exists>s'. moves V i s s' \<and> described ops held V nt s' i m handed \<and>
    (\<forall>resp. r = Inr resp \<longrightarrow> rvr_vote_granted resp \<longrightarrow> sp_promise s' i = rv_term req \<and> rvr_term resp = rv_term req \<and>
       log_ok (rlog m) (rv_last_log_term req) (rv_last_log_index req))"
proof -
  have n: "stored ops held n" "lead_sane n" "durable_applied n \<le> handed"
    using d by (simp_all add: described_def node_impl_def commit_impl_def)
  obtain resp k where h: "handle_request_vote_at env req n = (resp, k)" by fastforce
  then have k: "k = snd (handle_request_vote_at env req n)" by simp
  obtain s1 where s1: "moves V i s s1" "described ops held V nt s1 i k handed"
    using sim_call [OF V inv d elect_handle_request_vote repl_request_vote [OF n(2), of no_match] _
        disk_handle_request_vote stored_handle_request_vote [OF n(1)]] n(3) unfolding k by auto
  obtain q l where p: "persist_hard_state_if_dirty ops k = (q, l)" by fastforce
  obtain s2 where s2: "moves V i s1 s2" "described ops held V nt s2 i l handed" "\<forall>u. q = Inr u \<longrightarrow> sp_promise s2 i = term_of l"
    using sim_persist [OF V moves_inv [OF s1(1) inv] nt s1(2) p] by blast
  have m: "m = l" "\<And>a. r = Inr a \<Longrightarrow> q = Inr () \<and> resp = a"
    using sv h p by (auto simp: serve_vote_def split: sum.splits)
  note pv = persist_view [OF p]
  have "last_term (rlog l) = last_term (rlog k) \<and> last_index (rlog l) = last_index (rlog k)" by (rule last_cong) (simp_all add: pv)
  then have "log_ok (rlog l) a b = log_ok (rlog k) a b" for a b by (simp add: log_ok_def)
  then have "sp_promise s2 i = rv_term req \<and> rvr_term a = rv_term req \<and> log_ok (rlog l) (rv_last_log_term req) (rv_last_log_index req)"
    if "r = Inr a" "rvr_vote_granted a" for a
    using m(2) [OF that(1)] s2(3) that(2) served_vote [OF h] granted_vote [OF h] pv(2) by auto
  then show ?thesis using m(1) s2(2) moves_trans [OF s1(1) s2(1)] by blast
qed

text \<open>A candidate that still stands asks with the end of its log.\<close>

lemma candidate_position:
  assumes dc: "described ops held V (net g) s1 c m h" and rq: "VoteRequest i req \<in> net g" and that: "sp_stand s1 c = Some (rv_term req)"
    and c: "rv_candidate_id req = c"
  shows "last_pos (sp_log s1 c) = (rv_last_log_term req, rv_last_log_index req)"
proof -
  have m: "role m = Candidate" "term_of m = rv_term req" "sp_log s1 c = entries m" "plain (rlog m)"
    using dc that by (auto simp: described_def node_impl_def split: if_splits)
  have "\<forall>x\<in>asks m \<union> {ask_of r |p r. VoteRequest p r \<in> net g}. fst x = rv_term req \<longrightarrow> fst (snd x) = c \<longrightarrow>
      snd (snd x) = (last_term (rlog m), last_index (rlog m))"
    using dc m(1,2) by (simp add: described_def asks_impl_def)
  moreover have "ask_of req \<in> asks m \<union> {ask_of r |p r. VoteRequest p r \<in> net g}" using rq by blast
  moreover have "fst (ask_of req) = rv_term req" "fst (snd (ask_of req)) = c" by (simp_all add: ask_of_def c)
  ultimately have "snd (snd (ask_of req)) = (last_term (rlog m), last_index (rlog m))" by blast
  then show ?thesis using plain_last_pos [OF m(4)] m(3) by (simp add: ask_of_def)
qed

lemma sim_vote_served:
  assumes im: "implements ops held V g s" and rq: "VoteRequest i req \<in> net g"
    and sv: "serve_vote ops env req (node g i) = (Inr resp, n)"
    and g': "g' = send_votes {VoteReply i (rv_candidate_id req) resp} (put i n g)" and ci: "cluster_inv ops V (sys_cluster g')"
  shows "\<exists>s'. (spec_step (quorate V))\<^sup>*\<^sup>* s s' \<and> implements ops held V g' s'"
proof -
  note d = implementsD [OF im]
  let ?c = "rv_candidate_id req" and ?t = "rv_term req" and ?ms = "{VoteReply i (rv_candidate_id req) resp}"
  have V: "i \<in> V" "?c \<in> V" "i \<noteq> ?c" using d(6) rq by (auto simp: net_ok_def requests_ok_def)
  obtain s1 where s1: "moves V i s s1" "described ops held V (net g) s1 i n (sys_handed g i)"
    and gr: "rvr_vote_granted resp \<Longrightarrow> sp_promise s1 i = ?t \<and> rvr_term resp = ?t \<and>
       log_ok (rlog n) (rv_last_log_term req) (rv_last_log_index req)"
    using sim_serve_vote [OF d(4) V(1) d(5,3,6) d(9) [OF V(1)] sv] by blast
  have im1: "implements ops held V (put i n g) s1" by (rule implements_put [OF im s1(1) V(1) s1(2)])
  note d1 = implementsD [OF im1]
  have ns: "net (put i n g) = net g" by simp
  let ?s = "s1\<lparr>sp_votes := casts (net g \<union> ?ms)\<rparr>"
  have "(spec_step (quorate V))\<^sup>*\<^sup>* s1 ?s"
  proof (cases "rvr_vote_granted resp")
    case False
    then have "casts (net g \<union> ?ms) = casts (net g)" by (auto simp: casts_def cast_reply)
    then show ?thesis using d1(7) ns by (metis (no_types) rtranclp.rtrancl_refl spec.surjective spec.update_convs(4))
  next
    case True
    then have "resp = \<lparr>rvr_term = ?t, rvr_vote_granted = True\<rparr>" using gr by (cases resp) auto
    then have c': "casts (net g \<union> ?ms) = insert (i, ?t, ?c) (sp_votes s1)" using d1(7) by (auto simp: casts_def cast_reply)
    have dc: "described ops held V (net g) s1 ?c (node g ?c) (sys_handed g ?c)" using d1(9) [OF V(2)] V(3) by simp
    have "sp_log s1 i = entries n" "plain (rlog n)" using s1(2) by (simp_all add: described_def node_impl_def)
    then have st: "sp_promise s1 i = ?t \<and> pos_le (last_pos (sp_log s1 i)) (last_pos (sp_log s1 ?c))" if "sp_stand s1 ?c = Some ?t"
      using gr [OF True] plain_last_pos [of "rlog n"] candidate_position [OF dc rq that refl] by (auto simp: log_ok_def pos_le_def)
    have "\<forall>d. (i, ?t, d) \<in> sp_votes s1 \<longrightarrow> d = ?c"
    proof -
      have "one_vote (net g \<union> ?ms)" using ci by (simp add: g' cluster_inv_def net_ok_def)
      moreover have "cast (net g \<union> ?ms) i ?t d" if "d = ?c \<or> (i, ?t, d) \<in> sp_votes s1" for d
      proof -
        have "(i, ?t, d) \<in> casts (net g \<union> ?ms)" unfolding c' using that by auto
        then show ?thesis by (simp add: casts_def)
      qed
      ultimately show ?thesis unfolding one_vote_def by blast
    qed
    moreover have "?t \<le> sp_promise s1 ?c"
      using vote_promise [OF dc] rq by (auto simp: cast_def stands_def)
    ultimately show ?thesis unfolding c' using gr [OF True] st by (intro r_into_rtranclp spec_step.Vote) auto
  qed
  moreover from this have "implements ops held V g' ?s"
    using implements_votes [OF im1, of ?ms] ci by (simp add: g')
  ultimately show ?thesis using s1(1) unfolding moves_def by (metis rtranclp_trans)
qed

end

section \<open>Elections\<close>

text \<open>A new leader before it appends the no-op of its term.\<close>

definition crowned :: "step_env \<Rightarrow> 's raft_node \<Rightarrow> 's raft_node" where
  "crowned env n = arm_quorum_window (env_now env)
     (n\<lparr>role := Leader, leader_id := node_id (config n),
        leader_st := Some (leader_state_for (config n) (last_index (rlog n)))\<rparr>)"

lemma crowned_frame [simp]:
  "config (crowned env n) = config n" "hard (crowned env n) = hard n" "role (crowned env n) = Leader"
  "volatile (crowned env n) = volatile n" "rlog (crowned env n) = rlog n" "pending_ready (crowned env n) = pending_ready n"
  "durable_applied (crowned env n) = durable_applied n"
  "leader_st (crowned env n) = Some (leader_state_for (config n) (last_index (rlog n)))"
  by (simp_all add: crowned_def arm_quorum_window_def Let_def)

lemma match_fold_add: "ls_match_index_for (fold (\<lambda>q. ls_add_peer q li) qs ls) p = ls_match_index_for ls p"
  by (induction qs arbitrary: ls) (simp_all add: match_index_add)

lemma matched_crowned [simp]: "matched_by (crowned env n) p = 0"
  by (simp add: matched_by_def leader_state_for_def match_fold_add)

lemma repl_crowned:
  assumes "plain (rlog n)" and "peers (config n) \<noteq> []"
  shows "repl_step P ops (crowned env n) (become_leader ops env n)"
proof -
  let ?e = "\<lparr>le_term = term_of n, le_index = last_index (rlog n) + 1, le_data = []\<rparr>" and ?c = "crowned env n"
  obtain r l where l: "log_append ops (rlog n) ?e = (r, l)" by fastforce
  have t: "take_lead ops env n = ?c\<lparr>rlog := l, term_start := Some (last_index (rlog n) + 1)\<rparr>"
    using l by (simp add: take_lead_def crowned_def Let_def arm_quorum_window_def)
  have p: "plain l" by (rule plain_snoc [OF assms(1) l]) simp
  have s: "rl_entries l = entries n \<or> rl_entries l = entries n @ [?e]" "snapshot_index l = snapshot_index (rlog n)"
    "snapshot_term l = snapshot_term (rlog n)"
    using log_append_entries [OF l] log_append_snapshot [OF l] by (auto split: sum.splits)
  have "repl_step P ops ?c (?c\<lparr>rlog := l, term_start := ts\<rparr>)" for ts using s
    by (auto simp: repl_step_def log_step_def commit_step_def role_step_def lead_sane_def sends_step_def asks_step_def
        asks_def matched_by_def)
  then have "repl_step P ops ?c (replicate_to_all env (take_lead ops env n))"
    unfolding t by (rule repl_replicate) (simp add: p)
  then show ?thesis using assms(2) by (simp add: become_leader_def Let_def cluster_size_def)
qed

lemma sim_elect:
  assumes inv: "spec_inv (quorate V) s" and n: "node_impl ops held V s i n handed" and c: "role n = Candidate"
    and Q: "i \<in> Q" "quorate V Q" "\<forall>v\<in>Q. (v, term_of n, i) \<in> sp_votes s"
  shows "\<exists>s'. moves V i s s' \<and> node_impl ops held V s' i (crowned env (n\<lparr>votes_received := vs\<rparr>)) handed"
proof -
  let ?t = "term_of n"
  let ?s = "s\<lparr>sp_stand := (sp_stand s)(i := None),
      sp_elections := sp_elections s @ [\<lparr>el_term = ?t, el_leader = i, el_base = sp_log s i, el_quorum = Q\<rparr>],
      sp_lead_log := (sp_lead_log s)(?t := sp_log s i)\<rparr>"
  have st: "sp_stand s i = Some ?t" and lg: "sp_log s i = entries n" using n c by (simp_all add: node_impl_def)
  have step: "spec_step (quorate V) s ?s" using st Q by (intro spec_step.Elect)
  have g: "grows s ?s" by (rule voters.step_grows [OF step inv])
  have "\<not> led s ?t" by (rule voters.candidate_fresh(1) [OF inv st Q(2,3)])
  then have "others_same i s ?s" using g by (auto simp: others_same_def led_iff)
  then have mv: "moves V i s ?s" using step by (auto simp: moves_def)
  have "commit_impl V s i n handed" using n by (simp add: node_impl_def)
  then have "commit_impl V ?s i n handed" by (rule commit_impl_grow [OF inv g, rotated]) simp
  then have "commit_impl V ?s i (crowned env (n\<lparr>votes_received := vs\<rparr>)) handed" by (simp add: commit_impl_def)
  moreover have "\<forall>x\<in>set (msgs n). msg_ok V ?s (snd x)" using n msg_ok_grow [OF inv g] by (simp add: node_impl_def)
  moreover have "stored ops held (crowned env (n\<lparr>votes_received := vs\<rparr>))" using n by (simp add: node_impl_def stored_def)
  ultimately have "node_impl ops held V ?s i (crowned env (n\<lparr>votes_received := vs\<rparr>)) handed"
    using n lg by (simp add: node_impl_def lead_sane_def lead_impl_def)
  then show ?thesis using mv by blast
qed

lemma leader_majority:
  assumes "cluster_inv ops V c" and "i \<in> V" and "role (cl_node c i) = Leader" and "2 \<le> card V"
  shows "\<exists>Q. i \<in> Q \<and> quorate V Q \<and> (\<forall>v\<in>Q. (v, term_of (cl_node c i), i) \<in> casts (cl_net c))"
proof -
  let ?n = "cl_node c i" and ?nt = "cl_net c"
  have f: "finite V" and nt: "net_ok V ?nt" and l: "leader_ok V ?nt i ?n" using assms(1,2) by (auto simp: cluster_inv_def node_ok_def)
  have V: "V \<noteq> {i}" using assms(4) by auto
  obtain Q where Q: "majority V Q" "\<forall>v\<in>Q. cast ?nt v (term_of ?n) i" using leader_votes [OF nt l assms(3) f assms(2) V] by blast
  have "card V div 2 + 1 \<le> card Q" using Q(1) by (simp add: majority_def)
  moreover have "1 \<le> card V div 2" using assms(4) by simp
  ultimately obtain v where v: "v \<in> Q" "v \<noteq> i" using card_ge_2_other [of Q i] by auto
  then have "granted ?nt v i (term_of ?n)" using Q(2) by (auto simp: cast_def)
  then have "cast ?nt i (term_of ?n) i" using granted_replies(4) [of V ?nt v i] nt by (simp add: cast_def net_ok_def)
  moreover have "majority V (insert i Q)"
  proof -
    have "finite Q" using Q(1) f by (auto simp: majority_def intro: finite_subset)
    then have "card Q \<le> card (insert i Q)" by (intro card_mono) auto
    then show ?thesis using Q(1) assms(2) by (simp add: majority_def)
  qed
  ultimately show ?thesis using Q(2) f by (intro exI [of _ "insert i Q"]) (auto simp: quorate_def casts_def)
qed

context log_storage
begin

lemma sim_vote_replied:
  assumes im: "implements ops held V g s" and rp: "VoteReply v i resp \<in> net g"
    and m: "m = handle_request_vote_response ops env v resp (node g i)" and ci: "cluster_inv ops V (set_node i m (sys_cluster g))"
  shows "\<exists>s'. (spec_step (quorate V))\<^sup>*\<^sup>* s s' \<and> implements ops held V (put i m g) s'"
proof -
  note d = implementsD [OF im]
  let ?n = "node g i"
  have i: "i \<in> V" using d(6) rp by (auto simp: net_ok_def replies_ok_def)
  have n: "node_impl ops held V s i ?n (sys_handed g i)" "voters_ok V i ?n" using d(9) [OF i] by (simp_all add: described_def node_ok_def)
  then have nn: "stored ops held ?n" "lead_sane ?n" "durable_applied ?n \<le> sys_handed g i" "plain (rlog ?n)"
    by (simp_all add: node_impl_def commit_impl_def)
  have ok: "node_ok ops V (net g) i m" using ci i by (auto simp: cluster_inv_def dest: bspec)
  let ?k = "?n\<lparr>votes_received := insert v (votes_received ?n)\<rparr>"
  have "\<exists>s'. moves V i s s' \<and> described ops held V (net g) s' i m (sys_handed g i)"
  proof (cases "role ?n = Candidate \<and> m = become_leader ops env ?k")
    case True
    obtain Q where Q: "i \<in> Q" "quorate V Q" "\<forall>v\<in>Q. (v, term_of ?n, i) \<in> sp_votes s"
      using leader_majority [OF ci i] d(2,7) True by auto
    obtain s1 where s1: "moves V i s s1" "node_impl ops held V s1 i (crowned env ?k) (sys_handed g i)"
      using sim_elect [OF d(3) n(1) _ Q] True by blast
    have r: "repl_step no_match ops (crowned env ?k) m"
      using repl_crowned [of ?k no_match ops env] voter_peers [OF n(2) d(2)] nn(4) True by simp
    have st: "stored ops held m" using stored_become_leader [of ?k env] nn(1) True by simp
    have "voters_ok V i m" using ok by (simp add: node_ok_def)
    then obtain s2 where "moves V i s1 s2" "node_impl ops held V s2 i m (sys_handed g i)"
      using repl_sim [OF moves_inv [OF s1(1) d(3)] s1(2) r _ _ _ d(4) i _ st] nn(3) True by (auto simp: moves_def)
    moreover have "asks_impl (net g) i m" using True by (simp add: asks_impl_def)
    ultimately show ?thesis using ok moves_trans [OF s1(1)] unfolding described_def by blast
  next
    case False
    have "repl_step no_match ops ?n (become_follower env t ?n)" for t by (rule repl_become_follower) simp_all
    moreover have "repl_step no_match ops ?n ?k" using nn(2) by (intro repl_same) (simp_all add: matched_by_def)
    moreover have c: "m \<in> {?n, become_follower env (rvr_term resp) ?n, ?k} \<and> term_of ?n \<le> term_of m"
      using False by (auto simp: m handle_request_vote_response_def Let_def)
    ultimately have "repl_step no_match ops ?n m" using repl_refl [OF nn(2)] by auto
    moreover have "disk ops m = disk ops ?n" "stored ops held m" "durable_applied m = durable_applied ?n"
      using c nn(1) stored_become_follower [OF nn(1)] by auto
    ultimately show ?thesis using sim_step [OF d(4) i d(3) d(9) [OF i] ok] c nn(3) by auto
  qed
  then show ?thesis using implements_put [OF im _ i] unfolding moves_def by blast
qed

end

section \<open>Appends\<close>

lemma request_batch:
  assumes inv: "spec_inv (quorate V) s" and l: "plain l" and co: "coherent (sp_lead_log s) (rl_entries l)"
    and m: "msg_ok V s req" and p: "prev_log_ok l req"
  shows "leader_batch l (sp_lead_log s (ae_term req)) (ae_prev_log_index req) (ae_entries req)"
proof -
  let ?X = "sp_lead_log s (ae_term req)" and ?p = "ae_prev_log_index req" and ?xs = "rl_entries l"
  have X: "batch_after 0 ?X" "coherent (sp_lead_log s) ?X" using spec_invD(1) [OF inv] by (simp_all add: logs_ok_def)
  have c: "?p \<le> length ?X" "ae_prev_log_term req = term_before ?X ?p" "\<exists>k. ae_entries req = take k (drop ?p ?X)"
    using m by (simp_all add: msg_ok_def carries_def)
  note mt = coherent_match [OF co X(2)]
  have "?p \<le> length ?xs \<and> take ?p ?xs = take ?p ?X"
  proof (cases "?p = 0")
    case False
    then have t: "term_at l ?p = Some (ae_prev_log_term req)" using p by (simp add: prev_log_ok_def)
    then have le: "?p \<le> length ?xs"
      using term_at_None_iff [of l ?p] l plain_last [OF l] by (fastforce simp: plain_def)
    then have "le_term (?xs ! (?p - 1)) = le_term (?X ! (?p - 1))"
      using plain_term_at [OF l le] t c(2) False by (simp add: term_before_def)
    then show ?thesis using mt [of "?p - 1"] le c(1) False by simp
  qed simp
  then show ?thesis using l X(1) c mt by (simp add: leader_batch_def)
qed

lemma request_matched:
  assumes "spec_inv (quorate V) s" and "msg_ok V s req"
  shows "ae_matched req \<le> length (sp_lead_log s (ae_term req))"
proof -
  let ?X = "sp_lead_log s (ae_term req)" and ?p = "ae_prev_log_index req"
  have X: "batch_after 0 ?X" using spec_invD(1) [OF assms(1)] by (simp add: logs_ok_def)
  obtain k where k: "?p \<le> length ?X" "ae_entries req = take k (drop ?p ?X)" using assms(2) by (auto simp: msg_ok_def carries_def)
  have "le_index e \<le> length ?X" if "e \<in> set ?X" for e using batch_after_set [OF X that] by simp
  moreover have "set (ae_entries req) \<subseteq> set ?X" using k(2) by (metis set_drop_subset set_take_subset subset_trans)
  ultimately have "ae_entries req \<noteq> [] \<Longrightarrow> le_index (last (ae_entries req)) \<le> length ?X" by (meson last_in_set subsetD)
  then show ?thesis using k(1) by (simp add: ae_matched_def)
qed

lemma leader_batch_matched: "leader_batch l X (ae_prev_log_index req) (ae_entries req) \<Longrightarrow>
    ae_matched req = ae_prev_log_index req + length (ae_entries req)"
  using leader_batchD(4) [of l X "ae_prev_log_index req" "ae_entries req"]
  by (cases "ae_entries req" rule: rev_cases) (auto simp: ae_matched_def batch_after_append batch_after_Cons)

text \<open>What is settled survives the leader's entries.\<close>

lemma settled_kept:
  assumes "spec_inv (quorate V) s" and "settled (quorate V) s T (take c xs)" and "c \<le> length xs" and "T \<le> u" and "led s u"
    and "agree_le xs (sp_lead_log s u) j"
  shows "c \<le> length (take j (sp_lead_log s u))" and "take c (take j (sp_lead_log s u)) = take c xs"
proof -
  note sl = voters.settled_lead [OF assms(1,2,4,5)]
  have c: "c \<le> length (sp_lead_log s u)" "take c xs = take c (sp_lead_log s u)" using sl assms(3) by simp_all
  then have "c \<le> j" using assms(3,6) by (simp add: agree_le_def)
  then show "c \<le> length (take j (sp_lead_log s u))" "take c (take j (sp_lead_log s u)) = take c xs"
    using c by (simp_all add: min_def)
qed

lemma elect_follow_leader: "term_of n \<le> ae_term req \<Longrightarrow> elect_step n (follow_leader env req n)"
  by (auto simp: follow_leader_def Let_def elect_step_def asked_def hard_le_def)

lemma repl_follow_leader: "lead_sane n \<Longrightarrow> repl_step P ops n (follow_leader env req n)"
proof -
  assume s: "lead_sane n"
  have f: "repl_step P ops n (become_follower env t n)" for t by (rule repl_become_follower) simp_all
  have v: "repl_step P ops n ((reset_election_timeout env (m\<lparr>leader_id := a\<rparr>))\<lparr>repl_floor := b, contact := c\<rparr>)"
    if "repl_step P ops n m" for m a b c
    by (rule repl_cong [OF that]) (simp_all add: asks_def matched_by_def)
  show ?thesis using v [OF f] v [OF repl_refl [OF s]] by (simp add: follow_leader_def Let_def)
qed

lemma follow_leader_role: "role (follow_leader env req n) \<noteq> Candidate"
  and follow_leader_term: "term_of n \<le> ae_term req \<Longrightarrow> term_of (follow_leader env req n) = ae_term req"
  by (auto simp: follow_leader_def Let_def)

lemma durable_response [simp]: "durable_applied (handle_append_entries_response ops env v resp n) = durable_applied n"
  by (simp add: handle_append_entries_response_def Let_def split: option.split)

text \<open>An append: a success is about entries of the leader's log now held here.\<close>

definition appended :: "spec \<Rightarrow> append_entries_request \<Rightarrow> append_entries_response \<Rightarrow> 's raft_node \<Rightarrow> bool" where
  "appended s req resp m \<longleftrightarrow> (aer_success resp \<longrightarrow> aer_term resp = ae_term req \<and> term_of m = ae_term req \<and>
     led s (ae_term req) \<and> aer_last_log_index resp \<le> length (sp_lead_log s (ae_term req)) \<and>
     take (aer_last_log_index resp) (entries m) = take (aer_last_log_index resp) (sp_lead_log s (ae_term req)))"

context log_storage
begin

lemma sim_accept:
  assumes V: "i \<in> V" "0 \<notin> V" and inv: "spec_inv (quorate V) s" and d: "described ops held V nt s i n handed" and mk: "msg_ok V s req"
    and t: "term_of n = ae_term req" and nc: "role n \<noteq> Candidate" and p: "prev_log_ok (rlog n) req"
    and a: "append_entries ops (rlog n) (ae_prev_log_index req) (ae_entries req) = (r, l)"
  shows "\<exists>s'. moves V i s s' \<and> described ops held V nt s' i (n\<lparr>rlog := l\<rparr>) handed \<and> sp_lead_log s' = sp_lead_log s \<and>
    (\<forall>w. r = Inr w \<longrightarrow> take (ae_matched req) (rl_entries l) = take (ae_matched req) (sp_lead_log s (ae_term req)))"
proof -
  let ?X = "sp_lead_log s (ae_term req)" and ?m = "n\<lparr>rlog := l\<rparr>"
  have n: "node_impl ops held V s i n handed" and ok: "node_ok ops V nt i n" using d by (simp_all add: described_def)
  have nn: "plain (rlog n)" "sp_log s i = entries n" "stored ops held n" "lead_sane n" "sp_stand s i = None"
    "lead_impl s i n" "commit_impl V s i n handed" "sp_promise s i \<le> ae_term req"
    using n nc t by (auto simp: node_impl_def)
  have co: "coherent (sp_lead_log s) (entries n)" using spec_invD(1) [OF inv] nn(2) by (auto simp: logs_ok_def) metis
  note lb = request_batch [OF inv nn(1) co mk p]
  note ef = append_effect [OF lb a]
  have ld: "led s (ae_term req)" using mk by (simp add: msg_ok_def)
  define s' where "s' = (if rl_entries l = entries n then s else s\<lparr>sp_log := (sp_log s)(i := rl_entries l)\<rparr>)"
  have "moves V i s s'"
  proof (cases "rl_entries l = entries n")
    case False
    then obtain j where j: "rl_entries l = take j ?X" "agree_le (entries n) ?X j" using ef by blast
    have "spec_step (quorate V) s (s\<lparr>sp_log := (sp_log s)(i := take j ?X)\<rparr>)"
      using ld nn(2,5,8) j(2) by (intro spec_step.Accept) simp_all
    then show ?thesis using False j(1) by (auto simp: s'_def moves_def others_same_def grows_def)
  qed (simp add: s'_def moves_refl)
  note g = moves_grow [OF this]
  have le: "snapshot_index l = 0 \<and> snapshot_term l = 0" using ef by (simp add: plain_def)
  have dk: "disk ops ?m = disk ops n" using loads_append_entries [OF a] by simp
  have st: "stored ops held ?m" by (rule stored_append_entries [OF nn(3) a leader_batchD(4,3) [OF lb]])
  have keep: "c \<le> length (rl_entries l) \<and> take c (rl_entries l) = take c (entries n)"
    if "settled (quorate V) s T (take c (entries n))" "c \<le> length (entries n)" "T \<le> ae_term req" for c T
    using settled_kept [OF inv that(1,2,3) ld] that(2) ef by auto
  have "commit_impl V s' i ?m handed"
  proof -
    have pr: "sp_promise s' i = sp_promise s i" by (simp add: s'_def)
    show ?thesis using nn(7,8) keep [of "term_of n" "commit_of n"] keep [of "sp_promise s i" handed] t
      voters.settled_grows [OF inv g] by (simp add: commit_impl_def pr)
  qed
  moreover have "lead_impl s' i ?m"
  proof -
    have "rl_entries l = entries n" if "role n = Leader"
    proof -
      have "?X = entries n" using nn(6) that t by (simp add: lead_impl_def)
      then show ?thesis using ef by (auto simp: agree_le_def)
    qed
    then show ?thesis using nn(6) by (simp add: lead_impl_def s'_def)
  qed
  moreover have "\<forall>x\<in>set (msgs n). msg_ok V s' (snd x)" using n msg_ok_grow [OF inv g] by (simp add: node_impl_def)
  ultimately have "node_impl ops held V s' i ?m handed"
    using n nn nc dk st ef by (auto simp: node_impl_def s'_def lead_sane_def)
  moreover have "node_ok ops V nt i ?m" by (rule node_ok_elect [OF ok elect_same dk V]) simp_all
  moreover have "asks_impl nt i ?m" using nc by (simp add: asks_impl_def)
  moreover have "sp_lead_log s' = sp_lead_log s" by (simp add: s'_def)
  ultimately show ?thesis using \<open>moves V i s s'\<close> ef leader_batch_matched [OF lb] unfolding described_def by auto
qed

lemma sim_follow_commit:
  assumes d: "described ops held V nt s i n handed" and mk: "msg_ok V s req" and t: "term_of n = ae_term req"
    and V: "i \<in> V" "0 \<notin> V" and le: "ae_matched req \<le> length (sp_lead_log s (ae_term req))"
    and tk: "take (ae_matched req) (entries n) = take (ae_matched req) (sp_lead_log s (ae_term req))"
  shows "described ops held V nt s i (follow_commit req n) handed"
proof -
  let ?X = "sp_lead_log s (ae_term req)" and ?m = "follow_commit req n"
  define c where "c = min (ae_leader_commit req) (ae_matched req)"
  have n: "node_impl ops held V s i n handed" "node_ok ops V nt i n" using d by (simp_all add: described_def)
  have ci: "commit_impl V s i n handed" using n(1) by (simp add: node_impl_def)
  have "length (take (ae_matched req) (entries n)) = ae_matched req" using tk le by simp
  then have c1: "c \<le> length (entries n)" by (simp add: c_def min_def split: if_splits)
  have "take c (entries n) = take c ?X"
    using arg_cong [OF tk, of "take c"] by (simp add: c_def min_def split: if_splits)
  moreover have "take c (take (ae_leader_commit req) ?X) = take c ?X" by (simp add: c_def min_def)
  moreover have "settled (quorate V) s (ae_term req) (take (ae_leader_commit req) ?X)" using mk by (simp add: msg_ok_def)
  ultimately have c2: "settled (quorate V) s (ae_term req) (take c (entries n))" by (metis settled_take)
  have "commit_impl V s i ?m handed" using ci c1 c2 t by (simp add: commit_impl_def max_def flip: c_def)
  moreover have "lead_impl s i ?m" using n(1) by (simp add: node_impl_def lead_impl_def matched_by_def)
  moreover have "msgs ?m = msgs n" by (simp add: follow_commit_def Let_def)
  ultimately have "node_impl ops held V s i ?m handed" using n(1) by (simp add: node_impl_def lead_sane_def)
  moreover have "elect_step n ?m" by (rule elect_same) simp_all
  then have "node_ok ops V nt i ?m" by (rule node_ok_elect [OF n(2) _ _ V]) simp
  moreover have "asks_impl nt i ?m" using d by (simp add: described_def asks_impl_def asks_def)
  ultimately show ?thesis by (simp add: described_def)
qed

lemma sim_follow_leader:
  assumes V: "finite V" "i \<in> V" "0 \<notin> V" and inv: "spec_inv (quorate V) s"
    and d: "described ops held V nt s i n handed" and le: "term_of n \<le> ae_term req"
  shows "\<exists>s'. moves V i s s' \<and> described ops held V nt s' i (follow_leader env req n) handed"
proof -
  have n: "stored ops held n" "lead_sane n" "durable_applied n \<le> handed"
    using d by (simp_all add: described_def node_impl_def commit_impl_def)
  show ?thesis
    using sim_call [OF V inv d elect_follow_leader [OF le] repl_follow_leader [OF n(2), of no_match] _ _ stored_follow_leader [OF n(1)]]
      n(3) by auto
qed

text \<open>A batch that was written: the commit index follows, and the reply claims a prefix of the leader's log.\<close>

lemma sim_append_accepted:
  assumes inv: "spec_inv (quorate V) s" and mk: "msg_ok V s req" and d: "described ops held V nt s i n handed" and V: "i \<in> V" "0 \<notin> V"
    and t: "term_of n = ae_term req" and tk: "take (ae_matched req) (entries n) = take (ae_matched req) (sp_lead_log s (ae_term req))"
    and m: "m = follow_commit req n" "resp = ae_reply m req True (claimable_match ops m (ae_matched req) w)"
  shows "described ops held V nt s i m handed \<and> appended s req resp m"
proof -
  have le: "ae_matched req \<le> length (sp_lead_log s (ae_term req))" by (rule request_matched [OF inv mk])
  have "described ops held V nt s i m handed" using sim_follow_commit [OF d mk t V le tk] by (simp add: m(1))
  moreover have cl: "aer_last_log_index resp \<le> ae_matched req" by (simp add: m(2) ae_reply_def claimable_match_def)
  have "take (aer_last_log_index resp) (entries n) = take (aer_last_log_index resp) (sp_lead_log s (ae_term req))"
    using arg_cong [OF tk, of "take (aer_last_log_index resp)"] cl by (simp add: min_absorb1)
  moreover have "aer_term resp = ae_term req" "led s (ae_term req)" using mk t by (simp_all add: m ae_reply_def msg_ok_def)
  ultimately show ?thesis using le cl t by (simp add: appended_def m(1))
qed

lemma sim_append:
  assumes V: "finite V" "i \<in> V" "0 \<notin> V" and inv: "spec_inv (quorate V) s" and mk: "msg_ok V s req"
    and d: "described ops held V nt s i n handed" and h: "handle_append_entries ops env req n = (resp, m)"
  shows "\<exists>s'. moves V i s s' \<and> described ops held V nt s' i m handed \<and> appended s' req resp m"
proof (cases "ae_term req < term_of n")
  case True
  then show ?thesis using h d
    by (intro exI [of _ s]) (auto simp: handle_append_entries_def ae_reply_def appended_def moves_refl)
next
  case False
  let ?n1 = "follow_leader env req n" and ?p = "ae_prev_log_index req" and ?es = "ae_entries req"
  obtain s1 where s1: "moves V i s s1" "described ops held V nt s1 i ?n1 handed"
    using sim_follow_leader [OF V inv d, of req env] False by auto
  note inv1 = moves_inv [OF s1(1) inv] and mk1 = msg_ok_grow [OF inv moves_grow [OF s1(1)] mk]
  have t: "term_of ?n1 = ae_term req" using follow_leader_term [of n req env] False by simp
  show ?thesis
  proof (cases "wants_snapshot (replica ?n1) \<or> has_apply_gap ?n1 \<or> \<not> prev_log_ok (rlog ?n1) req")
    case True
    then show ?thesis using False h s1
      by (intro exI [of _ s1]) (auto simp: handle_append_entries_def ae_reply_def appended_def Let_def split: if_splits)
  next
    case ok: False
    obtain r l where a: "append_entries ops (rlog ?n1) ?p ?es = (r, l)" by fastforce
    have p: "prev_log_ok (rlog ?n1) req" using ok by simp
    from sim_accept [OF V(2,3) inv1 s1(2) mk1 t follow_leader_role p a]
    obtain s2 where s2: "moves V i s1 s2" "described ops held V nt s2 i (?n1\<lparr>rlog := l\<rparr>) handed"
      "sp_lead_log s2 = sp_lead_log s1"
      "\<And>w. r = Inr w \<Longrightarrow> take (ae_matched req) (rl_entries l) = take (ae_matched req) (sp_lead_log s1 (ae_term req))" by blast
    note mv = moves_trans [OF s1(1) s2(1)] and mk2 = msg_ok_grow [OF inv1 moves_grow [OF s2(1)] mk1]
    show ?thesis
    proof (cases r)
      case (Inl e)
      then show ?thesis using False ok a h s2(2) mv
        by (intro exI [of _ s2]) (auto simp: handle_append_entries_def ae_reply_def appended_def Let_def split: if_splits)
    next
      case (Inr w)
      then have "take (ae_matched req) (rl_entries l) = take (ae_matched req) (sp_lead_log s2 (ae_term req))" by (simp add: s2(3,4))
      then have "described ops held V nt s2 i m handed \<and> appended s2 req resp m"
        using sim_append_accepted [OF moves_inv [OF s2(1) inv1] mk2 s2(2) V(2,3)] t False ok a h Inr
        by (auto simp: handle_append_entries_def Let_def split: if_splits)
      then show ?thesis using mv by blast
    qed
  qed
qed

text \<open>Once the term is on disk the success counts: the specification acknowledges.\<close>

lemma sim_acknowledge:
  assumes inv: "spec_inv (quorate V) s" and d: "described ops held V nt s i n handed"
    and a: "led s t" "sp_promise s i = t" "k \<le> length (sp_lead_log s t)" "take k (sp_log s i) = take k (sp_lead_log s t)"
    and s': "s' = s\<lparr>sp_acks := insert (i, t, k) (sp_acks s)\<rparr>"
  shows "moves V i s s'" and "described ops held V nt s' i n handed"
proof -
  have "spec_step (quorate V) s s'" unfolding s' by (rule spec_step.Ack [OF a])
  then show mv: "moves V i s s'" by (auto simp: moves_def others_same_def grows_def s')
  note g = moves_grow [OF mv]
  have n: "lead_impl s i n" "commit_impl V s i n handed" "node_impl ops held V s i n handed"
    using d by (simp_all add: described_def node_impl_def)
  have "lead_impl s' i n" by (rule lead_impl_grow [OF g n(1)]) (simp add: s')
  moreover have "commit_impl V s' i n handed" by (rule commit_impl_grow [OF inv g _ n(2)]) (simp add: s')
  ultimately have "node_impl ops held V s' i n handed" using n(3) msg_ok_grow [OF inv g] by (simp add: node_impl_def s')
  then show "described ops held V nt s' i n handed" using d by (simp add: described_def)
qed

lemma sim_serve_append:
  assumes V: "finite V" "i \<in> V" "0 \<notin> V" and inv: "spec_inv (quorate V) s" and nt: "net_ok V nt" and mk: "msg_ok V s req"
    and d: "described ops held V nt s i n handed" and sv: "serve_append ops env req n = (r, m)"
  shows "\<exists>s'. moves V i s s' \<and> described ops held V nt s' i m handed \<and>
    (\<forall>resp. r = Inr resp \<longrightarrow> aer_success resp \<longrightarrow> (i, aer_term resp, aer_last_log_index resp) \<in> sp_acks s')"
proof -
  obtain resp k where h: "handle_append_entries ops env req n = (resp, k)" by fastforce
  obtain s1 where s1: "moves V i s s1" "described ops held V nt s1 i k handed" "appended s1 req resp k"
    using sim_append [OF V inv mk d h] by blast
  note inv1 = moves_inv [OF s1(1) inv]
  obtain q l where p: "persist_hard_state_if_dirty ops k = (q, l)" by fastforce
  obtain s2 where s2: "moves V i s1 s2" "described ops held V nt s2 i l handed" "\<forall>u. q = Inr u \<longrightarrow> sp_promise s2 i = term_of l"
    "sp_lead_log s2 = sp_lead_log s1"
    using sim_persist [OF V inv1 nt s1(2) p] by blast
  note inv2 = moves_inv [OF s2(1) inv1] and mv = moves_trans [OF s1(1) s2(1)]
  have m: "m = l" "\<And>a. r = Inr a \<Longrightarrow> q = Inr () \<and> resp = a"
    using sv h p by (auto simp: serve_append_def split: sum.splits)
  show ?thesis
  proof (cases "\<exists>a. r = Inr a \<and> aer_success resp")
    case False
    then show ?thesis using mv s2(2) m by blast
  next
    case True
    then have q: "q = Inr ()" and su: "aer_success resp" using m(2) by auto
    note pv = persist_view [OF p]
    have led: "led s2 (aer_term resp)" using s1(3) su moves_grow [OF s2(1)] by (auto simp: appended_def led_def grows_def)
    have pr: "sp_promise s2 i = aer_term resp" using s1(3) s2(3) su q pv(2) by (simp add: appended_def)
    have le: "aer_last_log_index resp \<le> length (sp_lead_log s2 (aer_term resp))" using s1(3) su by (simp add: appended_def s2(4))
    have "sp_log s2 i = entries k" using s2(2) pv(6) by (simp add: described_def node_impl_def)
    then have tk: "take (aer_last_log_index resp) (sp_log s2 i) = take (aer_last_log_index resp) (sp_lead_log s2 (aer_term resp))"
      using s1(3) su by (simp add: appended_def s2(4))
    note ack = sim_acknowledge [OF inv2 s2(2) led pr le tk refl]
    let ?s = "s2\<lparr>sp_acks := insert (i, aer_term resp, aer_last_log_index resp) (sp_acks s2)\<rparr>"
    have "moves V i s ?s \<and> described ops held V nt ?s i m handed" using moves_trans [OF mv ack(1)] ack(2) m(1) by simp
    then show ?thesis using m(2) by (intro exI [of _ ?s]) auto
  qed
qed

lemma sim_append_failed:
  assumes im: "implements ops held V g s" and rq: "AppendRequest i req \<in> sys_appends g" and i: "i \<in> V"
    and sv: "serve_append ops env req (node g i) = (r, n)"
  shows "\<exists>s'. (spec_step (quorate V))\<^sup>*\<^sup>* s s' \<and> implements ops held V (put i n g) s' \<and>
    (\<forall>resp. r = Inr resp \<longrightarrow> implements ops held V (send_appends {AppendReply i c resp} (put i n g)) s')"
proof -
  note d = implementsD [OF im]
  have "msg_ok V s req" using d(8) rq by (auto simp: appends_impl_def)
  from sim_serve_append [OF d(4) i d(5,3,6) this d(9) [OF i] sv]
  obtain s' where s': "moves V i s s'" "described ops held V (net g) s' i n (sys_handed g i)"
    "\<And>resp. r = Inr resp \<Longrightarrow> aer_success resp \<Longrightarrow> (i, aer_term resp, aer_last_log_index resp) \<in> sp_acks s'" by blast
  have im': "implements ops held V (put i n g) s'" by (rule implements_put [OF im s'(1) i s'(2)])
  then have "implements ops held V (send_appends {AppendReply i c resp} (put i n g)) s'" if "r = Inr resp" for resp
    using s'(3) [OF that] by (auto simp: implements_def appends_impl_def)
  then show ?thesis using im' s'(1) unfolding moves_def by blast
qed

lemma sim_append_replied:
  assumes im: "implements ops held V g s" and rp: "AppendReply v i resp \<in> sys_appends g" and i: "i \<in> V"
  shows "\<exists>s'. (spec_step (quorate V))\<^sup>*\<^sup>* s s' \<and>
    implements ops held V (put i (handle_append_entries_response ops env v resp (node g i)) g) s'"
proof -
  let ?n = "node g i" and ?m = "handle_append_entries_response ops env v resp (node g i)"
  note d = implementsD [OF im]
  have n: "stored ops held ?n" "plain (rlog ?n)" "lead_sane ?n" "durable_applied ?n \<le> sys_handed g i"
    using d(9) [OF i] by (simp_all add: described_def node_impl_def commit_impl_def)
  have st: "stored ops held ?m" using stored_exec [OF n(1), of "RecvAppendResp v resp"] by (simp add: driver_ok_def)
  have dk: "disk ops ?m = disk ops ?n" using disk_exec [OF local_appends(2)] by (metis exec.simps(4))
  have du: "durable_applied ?m \<le> sys_handed g i" using n(4) durable_response by simp
  define P where "P = (\<lambda>q k. q = v \<and> aer_success resp \<and> aer_term resp = term_of ?n \<and> k = aer_last_log_index resp)"
  have r: "repl_step P ops ?n ?m" unfolding P_def by (rule repl_response [OF n(3,2)])
  have "(q, term_of ?m, k) \<in> sp_acks s" if "role ?m = Leader" "P q k" for q k
  proof -
    have "term_of ?m = term_of ?n" using that(2) hard_handle_append_entries_response [of ops env v resp ?n] by (auto simp: P_def)
    moreover have "(v, aer_term resp, aer_last_log_index resp) \<in> sp_acks s"
      using d(8) rp that(2) unfolding appends_impl_def P_def by blast
    ultimately show ?thesis using that(2) by (simp add: P_def)
  qed
  from sim_call [OF d(4) i d(5,3) d(9) [OF i] elect_handle_append_entries_response r this dk st du]
  obtain s' where s': "moves V i s s'" "described ops held V (net g) s' i ?m (sys_handed g i)" by blast
  then show ?thesis using implements_put [OF im s'(1) i s'(2)] by (auto simp: moves_def)
qed

text \<open>A restart forgets the candidacy and falls back to what the disk says was applied.\<close>

lemma restart_view:
  assumes "stored ops held n" and "disk ops n = Inr h"
    and "node_restore ops env (node_new env' cfg (rl_storage (rlog n))) = (Inr u, m)"
  shows "hard m = h" and "rlog m = rlog n" and "durable_applied m = durable_applied n" and "commit_of m = durable_applied n"
    and "role m \<noteq> Leader" and "role m \<noteq> Candidate" and "leader_st m = None" and "pending_ready m = ready_default"
    and "stored ops held m"
proof -
  have l: "raft_log_restore ops (raft_log_new (rl_storage (rlog n))) = (Inr v, l') \<Longrightarrow> l' = rlog n" for v l'
    using assms(1) restore_synced by (auto simp: stored_def)
  show "hard m = h" "rlog m = rlog n" "durable_applied m = durable_applied n" "commit_of m = durable_applied n"
    "role m \<noteq> Leader" "role m \<noteq> Candidate" "leader_st m = None" "pending_ready m = ready_default" "stored ops held m"
    using assms
    by (auto simp: node_restore_def node_new_def stored_def raft_log_new_storage ready_default_def Let_def
        volatile_state_restored_def dest!: l split: sum.splits prod.splits if_splits)
qed

lemma sim_restart:
  assumes im: "implements ops held V g s" and i: "i \<in> V"
    and r: "node_restore ops env (node_new env' (config (node g i)) (rl_storage (rlog (node g i)))) = (Inr u, n)"
    and g': "g' = hand_over i (durable_applied n) (put i n g)"
  shows "\<exists>s'. (spec_step (quorate V))\<^sup>*\<^sup>* s s' \<and> implements ops held V g' s'"
proof -
  note d = implementsD [OF im]
  let ?n = "node g i" and ?s = "s\<lparr>sp_stand := (sp_stand s)(i := None)\<rparr>"
  have ni: "node_impl ops held V s i ?n (sys_handed g i)" and ok: "node_ok ops V (net g) i ?n"
    using d(9) [OF i] by (simp_all add: described_def)
  obtain h where h: "disk ops ?n = Inr h" "sp_promise s i = current_term h" using ni by (auto simp: node_impl_def)
  have n: "stored ops held ?n" "plain (rlog ?n)" "sp_log s i = entries ?n" "commit_impl V s i ?n (sys_handed g i)"
    using ni by (simp_all add: node_impl_def)
  note v = restart_view [OF n(1) h(1) r]
  have mv: "moves V i s ?s" using spec_step.StepDown by (auto simp: moves_def others_same_def grows_def)
  note g = moves_grow [OF mv]
  let ?k = "durable_applied ?n"
  have k: "?k \<le> sys_handed g i" "sys_handed g i \<le> length (entries ?n)"
    "settled (quorate V) s (sp_promise s i) (take (sys_handed g i) (entries ?n))"
    using n(4) by (simp_all add: commit_impl_def)
  have "take ?k (take (sys_handed g i) (entries ?n)) = take ?k (entries ?n)" using k(1) by (simp add: min_absorb1)
  then have "settled (quorate V) s (sp_promise s i) (take ?k (entries ?n))" using settled_take [OF k(3), of ?k] by simp
  from voters.settled_grows [OF d(3) g this]
  have st: "settled (quorate V) ?s (current_term h) (take ?k (entries ?n))" by (simp add: h(2))
  have "commit_impl V ?s i n ?k" using st k v by (simp add: commit_impl_def h(2))
  then have "node_impl ops held V ?s i n ?k"
    using v h n by (simp add: node_impl_def lead_sane_def lead_impl_def ready_default_def)
  then have own: "node_impl ops held V ?s i (node g' i) (sys_handed g' i)" "asks_impl (net g') i (node g' i)"
    using v by (simp_all add: g' asks_impl_def)
  have ci: "cluster_inv ops V (sys_cluster g')"
    using d(1) node_ok_restart [OF ok r] by (simp add: g' cluster_inv_node)
  have "node_impl ops held V ?s j (node g' j) (sys_handed g' j) \<and> asks_impl (net g') j (node g' j)"
    if "j \<in> V" "j \<noteq> i" for j
    using d(9) [OF that(1)] that(2) mv unfolding described_def
    by (auto simp: g' moves_def intro: node_impl_others [OF d(3) _ that(2)])
  then have "implements ops held V g' ?s"
    using ci d(2,7) own moves_inv [OF mv d(3)] appends_impl_grow [OF d(3) g d(8)] unfolding implements_def by (auto simp: g')
  then show ?thesis using mv unfolding moves_def by blast
qed

end

end
