(* ===== verification/Raft_Safety.thy ===== *)
theory Raft_Safety
  imports Raft_Refinement
begin

text \<open>
  The refinement and what it gives. Every run of a group from fresh disks is a run of \<open>Raft_Spec\<close>;
  through it committed entries never differ between nodes or between moments, logs match, a leader
  has all that was committed before it, and a majority of the disks keeps it.
\<close>

definition spec_empty :: spec where
  "spec_empty = \<lparr>sp_elections = [], sp_lead_log = (\<lambda>_. []), sp_promise = (\<lambda>_. 0), sp_votes = {}, sp_acks = {},
     sp_log = (\<lambda>_. []), sp_stand = (\<lambda>_. None)\<rparr>"

lemma spec_start_empty: "spec_start spec_empty"
  by (simp add: spec_start_def spec_empty_def)

context log_storage
begin

lemma sim_one:
  assumes im: "implements ops held V g s" and i: "i \<in> V" and mv: "\<exists>s'. moves V i s s' \<and> described ops held V (net g) s' i n (sys_handed g i) \<and> Q s'"
  shows "\<exists>s'. (spec_step (quorate V))\<^sup>*\<^sup>* s s' \<and> implements ops held V (put i n g) s'"
  using mv implements_put [OF im _ i] unfolding moves_def by blast

lemma simulate:
  assumes "system_step ops V g g'" and "implements ops held V g s" and "terms_fit V (sys_cluster g)"
  shows "\<exists>s'. (spec_step (quorate V))\<^sup>*\<^sup>* s s' \<and> implements ops held V g' s'"
proof -
  note d = implementsD [OF assms(2)] and ci = cluster_inv_system [OF assms(1,3) implementsD(1) [OF assms(2)]]
  have fits: "term_fits (node g i)" if "i \<in> V" for i using assms(3) that by (simp add: terms_fit_def)
  show ?thesis using assms(1)
  proof cases
    case (Local i ev env)
    then show ?thesis using sim_local [OF assms(2)] fits by blast
  next
    case (Persist i)
    obtain q n where p: "persist_hard_state_if_dirty ops (node g i) = (q, n)" by fastforce
    have "g' = put i n g" using Persist(1) p by simp
    then show ?thesis
      using sim_one [OF assms(2) Persist(2)] sim_persist [OF d(4) Persist(2) d(5,3,6) d(9) [OF Persist(2)] p] by blast
  next
    case (TickFailed i env e n)
    have "\<exists>s'. moves V i s s' \<and> described ops held V (net g) s' i n (sys_handed g i) \<and> True"
      using sim_tick [OF d(4) TickFailed(2) d(5,2,3,6) d(9) [OF TickFailed(2)] TickFailed(3) fits [OF TickFailed(2)]] by blast
    then show ?thesis using sim_one [OF assms(2) TickFailed(2)] TickFailed(1) by blast
  next
    case (TickSent i env r n)
    then show ?thesis using sim_tick_sent [OF assms(2) TickSent(2,3) fits [OF TickSent(2)] TickSent(1) ci] by blast
  next
    case (VoteFailed i req env e n)
    then have i: "i \<in> V" using d(6) by (auto simp: net_ok_def requests_ok_def)
    then show ?thesis using sim_one [OF assms(2) i] sim_serve_vote [OF d(4) i d(5,3,6) d(9) [OF i] VoteFailed(3)] VoteFailed(1) by blast
  next
    case (VoteServed i req env resp n)
    then show ?thesis using sim_vote_served [OF assms(2) VoteServed(2,3,1) ci] by blast
  next
    case (VoteReplied v i resp env)
    then show ?thesis using sim_vote_replied [OF assms(2) VoteReplied(2) refl] ci by simp
  next
    case (AppendFailed i req env e n)
    then show ?thesis using sim_append_failed [OF assms(2)] by blast
  next
    case (AppendServed i req env resp n)
    then show ?thesis using sim_append_failed [OF assms(2)] by blast
  next
    case (AppendReplied v i resp env)
    then show ?thesis using sim_append_replied [OF assms(2)] by blast
  next
    case (Restart i env env' u n)
    then show ?thesis using sim_restart [OF assms(2)] by blast
  qed
qed

lemma simulate_run:
  assumes "system_run ops V g g'" and "implements ops held V g s"
  shows "\<exists>s'. (spec_step (quorate V))\<^sup>*\<^sup>* s s' \<and> implements ops held V g' s'"
  using assms
proof (induction rule: rtranclp_induct)
  case (step y z)
  then obtain s1 where s1: "(spec_step (quorate V))\<^sup>*\<^sup>* s s1" "implements ops held V y s1" by blast
  then obtain s2 where "(spec_step (quorate V))\<^sup>*\<^sup>* s1 s2" "implements ops held V z s2"
    using simulate [OF conjunct2 [OF step.hyps(2)] s1(2) conjunct1 [OF step.hyps(2)]] by blast
  then show ?case using s1(1) rtranclp_trans by metis
qed blast

lemma simulate_start:
  assumes "system_start ops held V g"
  shows "implements ops held V g spec_empty"
proof -
  have c: "cluster_start ops V (sys_cluster g)" "2 \<le> card V" "sys_appends g = {}" using assms by (simp_all add: system_start_def)
  have "node_impl ops held V spec_empty i (node g i) (sys_handed g i) \<and> asks_impl (net g) i (node g i)" if i: "i \<in> V" for i
  proof -
    obtain env cfg st where n: "node g i = node_new env cfg st" "so_load_hard_state ops st = Inr hard_state_new"
      using c(1) i unfolding cluster_start_def by blast
    have e: "sys_handed g i = 0" "held st = []" "so_snapshot_metadata ops st = (0, 0)" "so_load_applied_index ops st = Inr 0"
      using assms i n(1) by (auto simp: system_start_def node_new_def raft_log_new_def)
    have "stored ops held (node_new env cfg st)" by (rule stored_new) (use n e in simp_all)
    then show ?thesis using n e
      by (auto simp: node_impl_def plain_def lead_sane_def lead_impl_def commit_impl_def asks_impl_def settled_def
          spec_empty_def node_new_def raft_log_new_def ready_default_def hard_state_new_def volatile_state_new_def log_wf_def)
  qed
  moreover have "casts (net g) = {}" using c(1) by (auto simp: cluster_start_def casts_def cast_def granted_def stands_def)
  ultimately show ?thesis
    using cluster_inv_start [OF c(1)] c(2,3) spec_inv_start [OF spec_start_empty]
    by (simp add: implements_def appends_impl_def spec_empty_def)
qed

lemma refines:
  assumes "system_start ops held V g0" and "system_run ops V g0 g"
  shows "\<exists>s. (spec_step (quorate V))\<^sup>*\<^sup>* spec_empty s \<and> implements ops held V g s"
  using simulate_run [OF assms(2) simulate_start [OF assms(1)]] .

section \<open>Consequences\<close>

lemma two_moments:
  assumes "system_start ops held V g0" and "system_run ops V g0 g" and "system_run ops V g g'"
  shows "\<exists>s s'. implements ops held V g s \<and> implements ops held V g' s' \<and> grows s s'"
proof -
  obtain s where s: "implements ops held V g s" using refines [OF assms(1,2)] by blast
  obtain s' where s': "(spec_step (quorate V))\<^sup>*\<^sup>* s s'" "implements ops held V g' s'" using simulate_run [OF assms(3) s] by blast
  show ?thesis using s s'(2) voters.steps_grow [OF s'(1) implementsD(3) [OF s]] by blast
qed

lemma implemented_log:
  assumes "implements ops held V g s" and "i \<in> V"
  shows "plain (rlog (node g i))" and "sp_log s i = entries (node g i)" and "held (rl_storage (rlog (node g i))) = entries (node g i)"
  using implementsD(9) [OF assms] by (simp_all add: described_def node_impl_def stored_def log_synced_def)

lemma plain_entry_at: "plain l \<Longrightarrow> entry_at l k = (if 0 < k \<and> k \<le> length (rl_entries l) then Some (rl_entries l ! (k - 1)) else None)"
  using plain_last [of l] by (auto simp: plain_def entry_at_def Let_def)

text \<open>A committed position: its entry is there, and the log up to it is settled.\<close>

lemma committed_at:
  assumes "implements ops held V g s" and "i \<in> V" and "0 < k" and "k \<le> commit_of (node g i)"
  shows "entry_at (rlog (node g i)) k = Some (entries (node g i) ! (k - 1))"
    and "settled (quorate V) s (term_of (node g i)) (take k (entries (node g i)))" and "k \<le> length (entries (node g i))"
proof -
  have c: "commit_of (node g i) \<le> length (entries (node g i))"
    "settled (quorate V) s (term_of (node g i)) (take (commit_of (node g i)) (entries (node g i)))"
    using implementsD(9) [OF assms(1,2)] by (simp_all add: described_def node_impl_def commit_impl_def)
  show k: "k \<le> length (entries (node g i))" using c(1) assms(4) by simp
  show "entry_at (rlog (node g i)) k = Some (entries (node g i) ! (k - 1))"
    using plain_entry_at [OF implemented_log(1) [OF assms(1,2)]] assms(3) k by simp
  show "settled (quorate V) s (term_of (node g i)) (take k (entries (node g i)))"
    using settled_take [OF c(2), of k] assms(4) by (simp add: min_absorb1)
qed

lemma take_entry: "take k xs = take k ys \<Longrightarrow> 0 < k \<Longrightarrow> k \<le> length xs \<Longrightarrow> xs ! (k - 1) = ys ! (k - 1)"
  by (metis diff_less nth_take zero_less_one)

lemma committed_agree:
  assumes "system_start ops held V g0" and "system_run ops V g0 g" and "system_run ops V g g'"
    and "i \<in> V" and "j \<in> V" and "0 < k" and "k \<le> commit_of (node g i)" and "k \<le> commit_of (node g' j)"
  shows "\<exists>e. entry_at (rlog (node g i)) k = Some e \<and> entry_at (rlog (node g' j)) k = Some e"
proof -
  obtain s s' where s: "implements ops held V g s" "implements ops held V g' s'" "grows s s'"
    using two_moments [OF assms(1-3)] by blast
  note c = committed_at [OF s(1) assms(4,6,7)] and c' = committed_at [OF s(2) assms(5,6,8)]
  let ?xs = "entries (node g i)" and ?ys = "entries (node g' j)"
  have "settled (quorate V) s' (term_of (node g i)) (take k ?xs)"
    by (rule voters.settled_grows [OF implementsD(3) [OF s(1)] s(3) c(2)])
  from voters.settled_agree [OF implementsD(3) [OF s(2)] this c'(2)]
  have "take k ?xs = take k ?ys" using c(3) c'(3) by (simp add: min_absorb2)
  then show ?thesis using take_entry [of k ?xs ?ys] c(1,3) c'(1) assms(6) by simp
qed

lemma committed_durable:
  assumes "system_start ops held V g0" and "system_run ops V g0 g" and "system_run ops V g g'"
    and "i \<in> V" and "0 < k" and "k \<le> commit_of (node g i)"
  shows "\<exists>e. entry_at (rlog (node g i)) k = Some e \<and>
    majority V {v \<in> V. entry_at (rlog (node g' v)) k = Some e \<and> e \<in> set (held (rl_storage (rlog (node g' v))))}"
proof -
  obtain s s' where s: "implements ops held V g s" "implements ops held V g' s'" "grows s s'"
    using two_moments [OF assms(1-3)] by blast
  note c = committed_at [OF s(1) assms(4,5,6)]
  let ?xs = "entries (node g i)" and ?e = "entries (node g i) ! (k - 1)"
  let ?B = "{v \<in> V. entry_at (rlog (node g' v)) k = Some ?e \<and> ?e \<in> set (held (rl_storage (rlog (node g' v))))}"
  have st: "settled (quorate V) s' (term_of (node g i)) (take k ?xs)"
    by (rule voters.settled_grows [OF implementsD(3) [OF s(1)] s(3) c(2)])
  have "take k ?xs \<noteq> []" using assms(5) c(3) by auto
  from voters.settled_held [OF implementsD(3) [OF s(2)] st this]
  obtain A where A: "majority V A" "finite V" "\<And>v. v \<in> A \<Longrightarrow> take k (sp_log s' v) = take k ?xs"
    using c(3) by (auto simp: quorate_def min_absorb2)
  have "A \<subseteq> ?B"
  proof
    fix v assume v: "v \<in> A"
    then have vV: "v \<in> V" using A(1) by (auto simp: majority_def)
    note l = implemented_log [OF s(2) vV]
    have t: "take k (entries (node g' v)) = take k ?xs" using A(3) [OF v] l(2) by simp
    then have le: "k \<le> length (entries (node g' v))" using c(3) by (metis length_take min.absorb_iff2)
    have "entries (node g' v) ! (k - 1) = ?e" using take_entry [OF t assms(5) le] .
    moreover have "entries (node g' v) ! (k - 1) \<in> set (entries (node g' v))" using le assms(5) by simp
    ultimately show "v \<in> ?B" using vV plain_entry_at [OF l(1), of k] l(3) le assms(5) by simp
  qed
  then have "card A \<le> card ?B" using A(2) by (intro card_mono) simp_all
  then have "majority V ?B" using A(1) by (auto simp: majority_def)
  then show ?thesis using c(1) by blast
qed

lemma leader_has_committed:
  assumes "system_start ops held V g0" and "system_run ops V g0 g" and "system_run ops V g g'"
    and "i \<in> V" and "j \<in> V" and "0 < k" and "k \<le> commit_of (node g i)"
    and "role (node g' j) = Leader" and "term_of (node g i) \<le> term_of (node g' j)"
  shows "\<exists>e. entry_at (rlog (node g i)) k = Some e \<and> entry_at (rlog (node g' j)) k = Some e"
proof -
  obtain s s' where s: "implements ops held V g s" "implements ops held V g' s'" "grows s s'"
    using two_moments [OF assms(1-3)] by blast
  note c = committed_at [OF s(1) assms(4,6,7)]
  let ?xs = "entries (node g i)" and ?ys = "entries (node g' j)"
  have st: "settled (quorate V) s' (term_of (node g i)) (take k ?xs)"
    by (rule voters.settled_grows [OF implementsD(3) [OF s(1)] s(3) c(2)])
  have j: "led s' (term_of (node g' j))" "sp_lead_log s' (term_of (node g' j)) = ?ys"
    using implementsD(9) [OF s(2) assms(5)] assms(8) unfolding described_def node_impl_def lead_impl_def led_iff by blast+
  note sl = voters.settled_lead [OF implementsD(3) [OF s(2)] st assms(9) j(1)]
  have "k \<le> length ?ys" "take k ?xs = take k ?ys" using sl c(3) by (simp_all add: j(2) min_absorb2)
  then show ?thesis using take_entry [of k ?xs ?ys] c(1,3) assms(6)
      plain_entry_at [OF implemented_log(1) [OF s(2) assms(5)], of k] by simp
qed

lemma logs_match:
  assumes "system_start ops held V g0" and "system_run ops V g0 g" and "i \<in> V" and "j \<in> V"
    and "entry_at (rlog (node g i)) k = Some e" and "entry_at (rlog (node g j)) k = Some f" and "le_term e = le_term f" and "m \<le> k"
  shows "entry_at (rlog (node g i)) m = entry_at (rlog (node g j)) m"
proof -
  obtain s where s: "implements ops held V g s" using refines [OF assms(1,2)] by blast
  note li = implemented_log [OF s assms(3)] and lj = implemented_log [OF s assms(4)]
  let ?xs = "entries (node g i)" and ?ys = "entries (node g j)"
  have k: "0 < k" "k \<le> length ?xs" "k \<le> length ?ys" "e = ?xs ! (k - 1)" "f = ?ys ! (k - 1)"
    using assms(5,6) by (simp_all add: plain_entry_at [OF li(1)] plain_entry_at [OF lj(1)] split: if_splits)
  have "coherent (sp_lead_log s) (sp_log s v)" for v using spec_invD(1) [OF implementsD(3) [OF s]] by (simp add: logs_ok_def)
  from this [of i] this [of j] have co: "coherent (sp_lead_log s) ?xs" "coherent (sp_lead_log s) ?ys"
    by (simp_all only: li(2) lj(2))
  have "take k ?xs = take k ?ys" using coherent_match [OF co, of "k - 1"] k assms(7) by simp
  from arg_cong [OF this, of "take m"] have "take m ?xs = take m ?ys" using assms(8) by (simp add: min_absorb1)
  then show ?thesis using k(2,3) assms(8) take_entry [of m ?xs ?ys]
    by (simp add: plain_entry_at [OF li(1)] plain_entry_at [OF lj(1)])
qed

end

end
