(* ===== verification/Raft_Run.thy ===== *)
theory Raft_Run
  imports Raft_Examples Raft_Group
begin

text \<open>
  A concrete run of a system of three voters on storages that fail and that make a write durable late:
  voter 1 is elected, replicates its no-op to voter 2, commits it once its own copy is durable, and
  voter 2 learns the commit index. On the way an append of voter 2 fails.
\<close>

section \<open>Steps as functions\<close>

definition sys_tick :: "'s storage_ops \<Rightarrow> step_env \<Rightarrow> node_id \<Rightarrow> 's system \<Rightarrow> 's system" where
  "sys_tick ops env i g = (case group_tick ops env (node g i) of (r, n) \<Rightarrow>
     hand_over i (max (sys_handed g i) (commit_of n))
      (send_appends ((\<lambda>(p, req). AppendRequest p req) ` set (rd_messages (projr r)))
        (send_votes ((\<lambda>(p, req). VoteRequest p req) ` set (rd_vote_requests (projr r))) (put i n g))))"

definition sys_vote :: "'s storage_ops \<Rightarrow> step_env \<Rightarrow> node_id \<Rightarrow> request_vote_request \<Rightarrow> 's system \<Rightarrow> 's system" where
  "sys_vote ops env i req g = (case serve_vote ops env req (node g i) of (r, n) \<Rightarrow>
     send_votes {VoteReply i (rv_candidate_id req) (projr r)} (put i n g))"

definition sys_append :: "'s storage_ops \<Rightarrow> step_env \<Rightarrow> node_id \<Rightarrow> append_entries_request \<Rightarrow> 's system \<Rightarrow> 's system" where
  "sys_append ops env i req g = (case serve_append ops env req (node g i) of (r, n) \<Rightarrow>
     send_appends {AppendReply i (ae_leader_id req) (projr r)} (put i n g))"

lemma step_sys_tick:
  "i \<in> V \<Longrightarrow> \<not> isl (fst (group_tick ops env (node g i))) \<Longrightarrow> system_step ops V g (sys_tick ops env i g)"
  by (cases "group_tick ops env (node g i)"; cases "fst (group_tick ops env (node g i))")
    (auto simp: sys_tick_def intro: system_step.TickSent)

lemma step_sys_vote:
  "VoteRequest i req \<in> net g \<Longrightarrow> \<not> isl (fst (serve_vote ops env req (node g i))) \<Longrightarrow>
   system_step ops V g (sys_vote ops env i req g)"
  by (cases "serve_vote ops env req (node g i)"; cases "fst (serve_vote ops env req (node g i))")
    (auto simp: sys_vote_def intro: system_step.VoteServed)

lemma step_sys_append:
  "AppendRequest i req \<in> sys_appends g \<Longrightarrow> i \<in> V \<Longrightarrow> \<not> isl (fst (serve_append ops env req (node g i))) \<Longrightarrow>
   system_step ops V g (sys_append ops env i req g)"
  by (cases "serve_append ops env req (node g i)"; cases "fst (serve_append ops env req (node g i))")
    (auto simp: sys_append_def intro: system_step.AppendServed)

section \<open>The run\<close>

text \<open>Voter 2 writes its vote, fails to write the first append and writes the second.\<close>

definition run_plan :: "node_id \<Rightarrow> bool list" where
  "run_plan i = (if i = 2 then [False, True] else [])"

definition run0 :: "faulty_storage system" where
  "run0 = \<lparr>sys_cluster = trio_on run_plan, sys_appends = {}, sys_handed = (\<lambda>_. 0)\<rparr>"

definition run1 :: "faulty_storage system" where
  "run1 = sys_tick faulty_ops (at_time 400) 1 run0"

definition run2 :: "faulty_storage system" where
  "run2 = put 1 (exec faulty_ops (at_time 410) (RecvPreVoteResp 2 yes_pre) (node run1 1)) run1"

definition run3 :: "faulty_storage system" where
  "run3 = sys_tick faulty_ops (at_time 420) 1 run2"

definition run4 :: "faulty_storage system" where
  "run4 = sys_vote faulty_ops (at_time 430) 2 ask2 run3"

definition run5 :: "faulty_storage system" where
  "run5 = put 1 (handle_request_vote_response faulty_ops (at_time 440) 2 (yes_vote 1) (node run4 1)) run4"

definition run6 :: "faulty_storage system" where
  "run6 = sys_tick faulty_ops (at_time 450) 1 run5"

definition send6 :: append_entries_request where
  "send6 = \<lparr>ae_term = 1, ae_leader_id = 1, ae_prev_log_index = 0, ae_prev_log_term = 0, ae_entries = [entry 1 1],
     ae_leader_commit = 0, ae_group_id = 7, ae_round = 1, ae_replicated_floor = 0\<rparr>"

definition run7 :: "faulty_storage system" where
  "run7 = sys_append faulty_ops (at_time 460) 2 send6 run6"

definition run8 :: "faulty_storage system" where
  "run8 = sys_append faulty_ops (at_time 465) 2 send6 run7"

definition run9 :: "faulty_storage system" where
  "run9 = put 1 (handle_append_entries_response faulty_ops (at_time 470) 2 (ack 1 1 1) (node run8 1)) run8"

definition run10 :: "faulty_storage system" where
  "run10 = put 1 (exec faulty_ops (at_time 480) (Propose [7]) (node run9 1)) run9"

definition run11 :: "faulty_storage system" where
  "run11 = sys_tick faulty_ops (at_time 600) 1 run10"

definition send11 :: append_entries_request where
  "send11 = \<lparr>ae_term = 1, ae_leader_id = 1, ae_prev_log_index = 1, ae_prev_log_term = 1,
     ae_entries = [\<lparr>le_term = 1, le_index = 2, le_data = [7]\<rparr>], ae_leader_commit = 1, ae_group_id = 7, ae_round = 7,
     ae_replicated_floor = 0\<rparr>"

definition run12 :: "faulty_storage system" where
  "run12 = sys_append faulty_ops (at_time 610) 2 send11 run11"

lemma run_start: "system_start faulty_ops faulty_held trio run0"
proof -
  have "rl_storage (rlog (node run0 i)) = faulty_new (run_plan i)" for i
    by (simp add: run0_def trio_on_def node_new_def raft_log_new_def)
  moreover have "card trio = 3" by (simp add: trio_def)
  ultimately show ?thesis using trio_start [of run_plan]
    by (simp add: system_start_def run0_def faulty_ops_def faulty_held_def faulty_new_def mem_defs mem_storage_new_def)
qed

lemma elect_steps:
  "system_step faulty_ops trio run0 run1"
  "system_step faulty_ops trio run1 run2"
  "system_step faulty_ops trio run2 run3"
  "system_step faulty_ops trio run3 run4"
  "system_step faulty_ops trio run4 run5"
proof -
  show "system_step faulty_ops trio run0 run1" unfolding run1_def by (rule step_sys_tick) code_simp+
  show "system_step faulty_ops trio run1 run2" unfolding run2_def by (rule system_step.Local) code_simp+
  show "system_step faulty_ops trio run2 run3" unfolding run3_def by (rule step_sys_tick) code_simp+
  show "system_step faulty_ops trio run3 run4" unfolding run4_def by (rule step_sys_vote) code_simp+
  show "system_step faulty_ops trio run4 run5" unfolding run5_def by (rule system_step.VoteReplied) code_simp
qed

lemma commit_steps:
  "system_step faulty_ops trio run5 run6"
  "system_step faulty_ops trio run6 run7"
  "system_step faulty_ops trio run7 run8"
  "system_step faulty_ops trio run8 run9"
  "system_step faulty_ops trio run9 run10"
  "system_step faulty_ops trio run10 run11"
  "system_step faulty_ops trio run11 run12"
proof -
  show "system_step faulty_ops trio run5 run6" unfolding run6_def by (rule step_sys_tick) code_simp+
  show "system_step faulty_ops trio run6 run7" unfolding run7_def by (rule step_sys_append) code_simp+
  show "system_step faulty_ops trio run7 run8" unfolding run8_def by (rule step_sys_append) code_simp+
  show "system_step faulty_ops trio run8 run9" unfolding run9_def by (rule system_step.AppendReplied) code_simp+
  show "system_step faulty_ops trio run9 run10" unfolding run10_def by (rule system_step.Local) code_simp+
  show "system_step faulty_ops trio run10 run11" unfolding run11_def by (rule step_sys_tick) code_simp+
  show "system_step faulty_ops trio run11 run12" unfolding run12_def by (rule step_sys_append) code_simp+
qed

lemma elect_terms:
  "terms_fit trio (sys_cluster run0)"
  "terms_fit trio (sys_cluster run1)"
  "terms_fit trio (sys_cluster run2)"
  "terms_fit trio (sys_cluster run3)"
  "terms_fit trio (sys_cluster run4)"
  by (rule terms_fit_trio; code_simp)+

lemma commit_terms:
  "terms_fit trio (sys_cluster run5)"
  "terms_fit trio (sys_cluster run6)"
  "terms_fit trio (sys_cluster run7)"
  "terms_fit trio (sys_cluster run8)"
  "terms_fit trio (sys_cluster run9)"
  "terms_fit trio (sys_cluster run10)"
  "terms_fit trio (sys_cluster run11)"
  by (rule terms_fit_trio; code_simp)+

lemma run_elected: "system_run faulty_ops trio run0 run5"
proof -
  have "system_run faulty_ops trio run0 run0" by simp
  note guarded_step [OF this elect_terms(1) elect_steps(1)]
  note guarded_step [OF this elect_terms(2) elect_steps(2)]
  note guarded_step [OF this elect_terms(3) elect_steps(3)]
  note guarded_step [OF this elect_terms(4) elect_steps(4)]
  note guarded_step [OF this elect_terms(5) elect_steps(5)]
  then show ?thesis .
qed

lemma run_replicated: "system_run faulty_ops trio run5 run11"
proof -
  have "system_run faulty_ops trio run5 run5" by simp
  note guarded_step [OF this commit_terms(1) commit_steps(1)]
  note guarded_step [OF this commit_terms(2) commit_steps(2)]
  note guarded_step [OF this commit_terms(3) commit_steps(3)]
  note guarded_step [OF this commit_terms(4) commit_steps(4)]
  note guarded_step [OF this commit_terms(5) commit_steps(5)]
  note guarded_step [OF this commit_terms(6) commit_steps(6)]
  then show ?thesis .
qed

lemma run_learned: "system_run faulty_ops trio run11 run12"
  using commit_terms(7) commit_steps(7) by (simp add: r_into_rtranclp)

lemmas run_committed = rtranclp_trans [OF run_elected run_replicated]
lemmas run_reached = rtranclp_trans [OF run_committed run_learned]

text \<open>What the witnesses read off the run; voter 1 does not move in the last step.\<close>

definition view :: "'s raft_node \<Rightarrow> node_role \<times> u64 \<times> log_entry option" where
  "view n = (role n, commit_of n, entry_at (rlog n) 1)"

lemma run_views: "view (node run11 1) = (Leader, 1, Some (entry 1 1))" "view (node run12 2) = (Follower, 1, Some (entry 1 1))"
  by code_simp+

lemma run12_leader: "node run12 1 = node run11 1"
  by (simp add: run12_def sys_append_def split: prod.split)

end
