(* ===== verification/Bridge_Ring.thy ===== *)
theory Bridge_Ring
  imports Prelude
begin

text \<open>
  The lock-free ring between the control plane and a data-plane core
  (\<open>nodedb-bridge/src/buffer.rs\<close>, \<open>metrics.rs\<close>, \<open>error.rs\<close>). The counters are \<open>64 word\<close> and wrap.
  Each operation is a composition of its atomic accesses, so that the same definitions serve the
  operation run alone and the interleaving of one producer with one consumer. An \<open>Acquire\<close> load
  sees the slots written before the matching \<open>Release\<close> store; the interleaving reads the latest
  value.
\<close>

unbundle bit_operations_syntax

section \<open>State\<close>

datatype bridge_error =
    Full nat nat
  | Empty
  | Disconnected string
  | Backpressure nat nat
  | DeadlineExceeded nat

text \<open>The result of a call that may hit an \<open>expect\<close>.\<close>

datatype 'a outcome = Done 'a | Err bridge_error | Panic

record bridge_metrics =
  push_count :: "64 word"
  pop_count :: "64 word"
  full_count :: "64 word"

text \<open>The shared part, and the counter each half caches.\<close>

record 'a ring =
  rb_tail :: "64 word"
  rb_head :: "64 word"
  rb_slots :: "'a option list"
  rb_capacity :: nat
  rb_mask :: "64 word"
  rb_disconnected :: bool
  rb_metrics :: bridge_metrics
  cached_head :: "64 word"
  cached_tail :: "64 word"

definition metrics_new :: bridge_metrics where
  "metrics_new = \<lparr>push_count = 0, pop_count = 0, full_count = 0\<rparr>"

definition record_push :: "bridge_metrics \<Rightarrow> bridge_metrics" where
  "record_push m = m\<lparr>push_count := push_count m + 1\<rparr>"

definition record_pops :: "64 word \<Rightarrow> bridge_metrics \<Rightarrow> bridge_metrics" where
  "record_pops n m = m\<lparr>pop_count := pop_count m + n\<rparr>"

definition record_full :: "bridge_metrics \<Rightarrow> bridge_metrics" where
  "record_full m = m\<lparr>full_count := full_count m + 1\<rparr>"

definition in_flight :: "bridge_metrics \<Rightarrow> nat" where
  "in_flight m = unat (push_count m) - unat (pop_count m)"

text \<open>\<open>usize::next_power_of_two\<close>: double until large enough.\<close>

function double_until :: "nat \<Rightarrow> nat \<Rightarrow> nat" where
  "double_until p n = (if p = 0 \<or> n \<le> p then p else double_until (2 * p) n)"
  by pat_completeness auto
termination by (relation "measure (\<lambda>(p, n). n - p)") auto

declare double_until.simps [simp del]

definition next_power_of_two :: "nat \<Rightarrow> nat" where
  "next_power_of_two n = double_until 1 n"

text \<open>A capacity of zero panics.\<close>

definition channel :: "nat \<Rightarrow> 'a ring option" where
  "channel c = (if c = 0 then None else
     (let cap = next_power_of_two c in
      Some \<lparr>rb_tail = 0, rb_head = 0, rb_slots = replicate cap None, rb_capacity = cap, rb_mask = of_nat (cap - 1),
        rb_disconnected = False, rb_metrics = metrics_new, cached_head = 0, cached_tail = 0\<rparr>))"

section \<open>The producer\<close>

definition pending_for :: "64 word \<Rightarrow> 'a ring \<Rightarrow> nat" where
  "pending_for h r = unat (rb_tail r - h)"

text \<open>Is there room? The cached head is refreshed only when the ring looks full.\<close>

definition push_room :: "'a ring \<Rightarrow> (bridge_error + unit) \<times> 'a ring" where
  "push_room r =
     (if rb_tail r - cached_head r \<ge> of_nat (rb_capacity r) then
        let r1 = r\<lparr>cached_head := rb_head r\<rparr>
        in if rb_tail r - cached_head r1 \<ge> of_nat (rb_capacity r)
           then (Inl (Full (rb_capacity r) (pending_for (cached_head r1) r)), r1\<lparr>rb_metrics := record_full (rb_metrics r)\<rparr>)
           else (Inr (), r1)
      else (Inr (), r))"

definition slot_of :: "64 word \<Rightarrow> 'a ring \<Rightarrow> nat" where
  "slot_of p r = unat (p AND rb_mask r)"

definition push_write :: "'a \<Rightarrow> 'a ring \<Rightarrow> 'a ring" where
  "push_write v r = r\<lparr>rb_slots := (rb_slots r)[slot_of (rb_tail r) r := Some v]\<rparr>"

definition push_publish :: "'a ring \<Rightarrow> 'a ring" where
  "push_publish r = r\<lparr>rb_tail := rb_tail r + 1, rb_metrics := record_push (rb_metrics r)\<rparr>"

definition try_push :: "'a \<Rightarrow> 'a ring \<Rightarrow> (bridge_error + unit) \<times> 'a ring" where
  "try_push v r =
     (if rb_disconnected r then (Inl (Disconnected ''consumer''), r)
      else case push_room r of
             (Inl e, r1) \<Rightarrow> (Inl e, r1)
           | (Inr _, r1) \<Rightarrow> (Inr (), push_publish (push_write v r1)))"

definition ring_len :: "'a ring \<Rightarrow> nat" where
  "ring_len r = unat (rb_tail r - rb_head r)"

definition utilization :: "'a ring \<Rightarrow> nat" where
  "utilization r = unat (ucast ((rb_tail r - rb_head r) * 100 div of_nat (rb_capacity r)) :: 8 word)"

section \<open>The consumer\<close>

definition pop_ready :: "'a ring \<Rightarrow> bool \<times> 'a ring" where
  "pop_ready r =
     (if rb_head r = cached_tail r then
        let r1 = r\<lparr>cached_tail := rb_tail r\<rparr> in (rb_head r \<noteq> cached_tail r1, r1)
      else (True, r))"

definition take_slot :: "64 word \<Rightarrow> 'a ring \<Rightarrow> 'a option \<times> 'a ring" where
  "take_slot p r = (rb_slots r ! slot_of p r, r\<lparr>rb_slots := (rb_slots r)[slot_of p r := None]\<rparr>)"

definition pop_advance :: "nat \<Rightarrow> 'a ring \<Rightarrow> 'a ring" where
  "pop_advance k r = r\<lparr>rb_head := rb_head r + of_nat k, rb_metrics := record_pops (of_nat k) (rb_metrics r)\<rparr>"

definition try_pop :: "'a ring \<Rightarrow> 'a outcome \<times> 'a ring" where
  "try_pop r =
     (case pop_ready r of
        (False, r1) \<Rightarrow> (Err (if rb_disconnected r1 then Disconnected ''producer'' else Empty), r1)
      | (True, r1) \<Rightarrow>
          let (v, r2) = take_slot (rb_head r1) r1;
              r3 = pop_advance 1 r2
          in (case v of None \<Rightarrow> Panic | Some x \<Rightarrow> Done x, r3))"

text \<open>The loop of \<open>drain_into\<close>: \<open>n\<close> slots are left, the next is at counter \<open>p\<close>.\<close>

fun drain_slots :: "64 word \<Rightarrow> nat \<Rightarrow> 'a ring \<Rightarrow> 'a list option \<times> 'a ring" where
  "drain_slots p 0 r = (Some [], r)"
| "drain_slots p (Suc n) r =
     (case take_slot p r of
        (None, r1) \<Rightarrow> (None, r1)
      | (Some v, r1) \<Rightarrow> (case drain_slots (p + 1) n r1 of (vs, r2) \<Rightarrow> (map_option ((#) v) vs, r2)))"

definition drain_ready :: "nat \<Rightarrow> 'a ring \<Rightarrow> nat \<times> 'a ring" where
  "drain_ready max_items r =
     (let r1 = r\<lparr>cached_tail := rb_tail r\<rparr> in (min (unat (cached_tail r1 - rb_head r1)) max_items, r1))"

definition drain_into :: "nat \<Rightarrow> 'a ring \<Rightarrow> ('a list \<times> nat \<times> bool) outcome \<times> 'a ring" where
  "drain_into max_items r =
     (let (count, r1) = drain_ready max_items r
      in case drain_slots (rb_head r1) count r1 of
           (None, r2) \<Rightarrow> (Panic, r2)
         | (Some vs, r2) \<Rightarrow>
             let r3 = (if count > 0 then pop_advance count r2 else r2)
             in (Done (vs, count, rb_disconnected r3), r3))"

text \<open>Dropping either half.\<close>

definition disconnect :: "'a ring \<Rightarrow> 'a ring" where
  "disconnect r = r\<lparr>rb_disconnected := True\<rparr>"

section \<open>Counters and slots\<close>

lemma double_until_pow: "double_until (2 ^ k) n = 2 ^ k \<or> (\<exists>j. double_until (2 ^ k) n = 2 ^ j \<and> 2 ^ j < 2 * n)"
proof (induction "(2 :: nat) ^ k" n arbitrary: k rule: double_until.induct)
  case (1 n)
  show ?case
  proof (cases "n \<le> 2 ^ k")
    case False
    then have "double_until (2 ^ k) n = double_until (2 ^ Suc k) n" by (subst double_until.simps) simp
    moreover have "double_until (2 ^ Suc k) n = 2 ^ Suc k \<or> (\<exists>j. double_until (2 ^ Suc k) n = 2 ^ j \<and> 2 ^ j < 2 * n)"
      using 1 [of "Suc k"] False by simp
    ultimately show ?thesis using False by (metis not_le_imp_less nat_mult_less_cancel_disj power_Suc zero_less_numeral)
  qed (simp add: double_until.simps)
qed

lemma double_until_ge: "0 < p \<Longrightarrow> n \<le> double_until p n"
  by (induction p n rule: double_until.induct) (subst double_until.simps, simp)

lemma next_power_of_two_pow:
  assumes "0 < c" and "c \<le> 2 ^ 63"
  shows "\<exists>k \<le> 63. next_power_of_two c = 2 ^ k" and "c \<le> next_power_of_two c"
proof -
  show "c \<le> next_power_of_two c" by (simp add: next_power_of_two_def double_until_ge)
  have "next_power_of_two c = 2 ^ 0 \<or> (\<exists>j. next_power_of_two c = 2 ^ j \<and> 2 ^ j < 2 * c)"
    using double_until_pow [of 0 c] by (simp add: next_power_of_two_def)
  moreover have "j \<le> 63" if "2 ^ j < 2 * c" for j
  proof -
    have "(2 :: nat) ^ j < 2 ^ 64" using that assms(2) by simp
    then show ?thesis using power_less_imp_less_exp [of "2 :: nat" j 64] by simp
  qed
  ultimately show "\<exists>k \<le> 63. next_power_of_two c = 2 ^ k" by auto
qed

lemma next_power_of_two_le:
  assumes "0 < c" and "c \<le> 2 ^ k"
  shows "next_power_of_two c \<le> 2 ^ k"
proof -
  have "2 ^ j \<le> (2 :: nat) ^ k" if "2 ^ j < 2 * c" for j
  proof -
    have "(2 :: nat) ^ j < 2 ^ Suc k" using that assms(2) by simp
    then have "j < Suc k" by (rule power_less_imp_less_exp [rotated]) simp
    then show ?thesis by (intro power_increasing) simp_all
  qed
  then show ?thesis using double_until_pow [of 0 c] by (auto simp: next_power_of_two_def)
qed

text \<open>The counters count without bound; the words are their remainders.\<close>

definition cap_ok :: "'a ring \<Rightarrow> bool" where
  "cap_ok r \<longleftrightarrow> (\<exists>k \<le> 63. rb_capacity r = 2 ^ k) \<and> length (rb_slots r) = rb_capacity r \<and> rb_mask r = of_nat (rb_capacity r - 1)"

lemma unat_diff:
  assumes "c \<le> n" and "n - c < 2 ^ 64"
  shows "unat (of_nat n - of_nat c :: 64 word) = n - c"
proof -
  have "(of_nat n - of_nat c :: 64 word) = of_nat (n - c)" using assms(1) by (simp only: of_nat_diff)
  then show ?thesis using assms(2) by (simp add: unat_of_nat)
qed

lemma of_nat_word_eq: "c \<le> n \<Longrightarrow> n - c < 2 ^ 64 \<Longrightarrow> (of_nat n :: 64 word) = of_nat c \<longleftrightarrow> n = c"
  using unat_diff [of c n] by (cases "n = c") (auto simp: unat_eq_0)

lemma cap_small: "cap_ok r \<Longrightarrow> 0 < rb_capacity r \<and> rb_capacity r < 2 ^ 64"
proof -
  assume "cap_ok r"
  then obtain k where "k \<le> 63" "rb_capacity r = 2 ^ k" by (auto simp: cap_ok_def)
  moreover from this(1) have "(2 :: nat) ^ k < 2 ^ 64" by (intro power_strict_increasing) simp_all
  ultimately show ?thesis by simp
qed

lemma cap_le: "cap_ok r \<Longrightarrow> c \<le> n \<Longrightarrow> n \<le> c + rb_capacity r \<Longrightarrow>
    (of_nat (rb_capacity r) \<le> (of_nat n - of_nat c :: 64 word)) \<longleftrightarrow> n = c + rb_capacity r"
  using cap_small [of r] unat_diff [of c n] by (auto simp: word_le_nat_alt unat_of_nat)

lemma slot_of_nat: "cap_ok r \<Longrightarrow> slot_of (of_nat n) r = n mod rb_capacity r"
proof -
  assume "cap_ok r"
  then obtain k where k: "k \<le> 63" "rb_capacity r = 2 ^ k" "rb_mask r = of_nat (2 ^ k - 1)" by (auto simp: cap_ok_def)
  have "(of_nat (2 ^ k - 1) :: 64 word) = mask k" by (simp add: mask_eq_exp_minus_1 of_nat_diff)
  then have "slot_of (of_nat n) r = unat (take_bit k (of_nat n :: 64 word))" by (simp add: slot_of_def k(3) take_bit_eq_mask)
  also have "\<dots> = take_bit k (take_bit 64 n)" by (simp add: unsigned_take_bit_eq unsigned_of_nat)
  also have "\<dots> = take_bit k n" using k(1) by (simp only: take_bit_take_bit min_def) simp
  also have "\<dots> = n mod 2 ^ k" by (simp add: take_bit_eq_mod)
  finally show ?thesis using k(2) by simp
qed

lemma mod_distinct: "c \<le> i \<Longrightarrow> c \<le> j \<Longrightarrow> i < c + n \<Longrightarrow> j < c + n \<Longrightarrow> i mod n = j mod n \<Longrightarrow> i = (j :: nat)"
proof (induction i j rule: linorder_wlog)
  case (le i j)
  then have "n dvd j - i" by (metis mod_eq_dvd_iff_nat)
  then show ?case using le by (cases "i = j") (auto dest: dvd_imp_le)
qed simp

section \<open>The invariant\<close>

definition slots_hold :: "'a ring \<Rightarrow> 'a list \<Rightarrow> nat \<Rightarrow> bool" where
  "slots_hold r xs a \<longleftrightarrow> (\<forall>j. a \<le> j \<longrightarrow> j < length xs \<longrightarrow> rb_slots r ! (j mod rb_capacity r) = Some (xs ! j))"

lemma slots_hold_update:
  assumes "slots_hold r xs a" and "a \<le> b" and "\<And>j. b \<le> j \<Longrightarrow> j < length xs \<Longrightarrow> j mod rb_capacity r \<noteq> n mod rb_capacity r"
    and "rb_slots r' = (rb_slots r)[n mod rb_capacity r := w]" and "rb_capacity r' = rb_capacity r"
  shows "slots_hold r' xs b"
  unfolding slots_hold_def assms(4,5)
proof (intro allI impI)
  fix j assume j: "b \<le> j" "j < length xs"
  then have "n mod rb_capacity r \<noteq> j mod rb_capacity r" using assms(3) by metis
  then show "(rb_slots r)[n mod rb_capacity r := w] ! (j mod rb_capacity r) = Some (xs ! j)"
    using assms(1,2) j by (simp add: slots_hold_def)
qed

text \<open>
  \<open>xs\<close> is all that was ever published, \<open>c\<close> of it was released, the consumer has emptied \<open>m\<close> more
  slots, and it knows of \<open>ct\<close> items.
\<close>

definition ring_inv :: "'a ring \<Rightarrow> 'a list \<Rightarrow> nat \<Rightarrow> nat \<Rightarrow> nat \<Rightarrow> bool" where
  "ring_inv r xs c m ct \<longleftrightarrow> cap_ok r \<and> rb_tail r = of_nat (length xs) \<and> rb_head r = of_nat c \<and>
     c + m \<le> ct \<and> ct \<le> length xs \<and> length xs \<le> c + rb_capacity r \<and> cached_tail r = of_nat ct \<and>
     (\<exists>ch \<le> c. cached_head r = of_nat ch \<and> length xs \<le> ch + rb_capacity r) \<and>
     slots_hold r xs (c + m)"

text \<open>The producer has seen room for one more.\<close>

definition has_room :: "'a ring \<Rightarrow> 'a list \<Rightarrow> nat \<Rightarrow> bool" where
  "has_room r xs c \<longleftrightarrow> (\<exists>ch \<le> c. cached_head r = of_nat ch \<and> length xs < ch + rb_capacity r)"

lemma ring_invD:
  assumes "ring_inv r xs c m ct"
  shows "cap_ok r" and "rb_tail r = of_nat (length xs)" and "rb_head r = of_nat c" and "c + m \<le> ct" and "ct \<le> length xs"
    and "length xs \<le> c + rb_capacity r" and "cached_tail r = of_nat ct" and "length (rb_slots r) = rb_capacity r"
  using assms by (simp_all add: ring_inv_def cap_ok_def)

lemma push_room_outcome:
  assumes "ring_inv r xs c m ct" and "push_room r = (res, r')"
  shows "ring_inv r' xs c m ct \<and> rb_disconnected r' = rb_disconnected r \<and> rb_slots r' = rb_slots r \<and>
    rb_tail r' = rb_tail r \<and> rb_capacity r' = rb_capacity r \<and>
    (case res of Inr _ \<Rightarrow> has_room r' xs c
     | Inl e \<Rightarrow> e = Full (rb_capacity r) (rb_capacity r) \<and> length xs = c + rb_capacity r)"
proof -
  note i = ring_invD [OF assms(1)]
  obtain ch where ch: "ch \<le> c" "cached_head r = of_nat ch" "length xs \<le> ch + rb_capacity r"
    using assms(1) by (auto simp: ring_inv_def)
  have old: "(of_nat (rb_capacity r) \<le> rb_tail r - cached_head r) \<longleftrightarrow> length xs = ch + rb_capacity r"
    using cap_le [OF i(1), of ch "length xs"] i(2,4,5) ch by simp
  have new: "(of_nat (rb_capacity r) \<le> rb_tail r - rb_head r) \<longleftrightarrow> length xs = c + rb_capacity r"
    using cap_le [OF i(1), of c "length xs"] i(2-6) by simp
  have pend: "pending_for (rb_head r) r = length xs - c"
    using unat_diff [of c "length xs"] i(2-6) cap_small [OF i(1)] unfolding pending_for_def i(2,3) by linarith
  show ?thesis
  proof (cases "length xs = ch + rb_capacity r")
    case False
    then have "push_room r = (Inr (), r)" using old by (simp add: push_room_def)
    then show ?thesis using assms ch False by (auto simp: has_room_def)
  next
    case looks_full: True
    let ?r = "r\<lparr>cached_head := rb_head r\<rparr>"
    show ?thesis
    proof (cases "length xs = c + rb_capacity r")
      case True
      then have "push_room r = (Inl (Full (rb_capacity r) (rb_capacity r)), ?r\<lparr>rb_metrics := record_full (rb_metrics r)\<rparr>)"
        using old new pend looks_full by (simp add: push_room_def Let_def)
      then show ?thesis using assms i(3) True by (auto simp: ring_inv_def cap_ok_def slots_hold_def intro: exI [of _ c])
    next
      case False
      then have "push_room r = (Inr (), ?r)" using old new looks_full by (simp add: push_room_def Let_def)
      then show ?thesis using assms i(3,6) False by (auto simp: ring_inv_def has_room_def cap_ok_def slots_hold_def intro: exI [of _ c])
    qed
  qed
qed

lemma push_write_inv:
  assumes "ring_inv r xs c m ct" and "length xs < c + rb_capacity r"
  shows "ring_inv (push_write v r) xs c m ct" and "rb_slots (push_write v r) ! (length xs mod rb_capacity r) = Some v"
proof -
  note i = ring_invD [OF assms(1)]
  have s: "slot_of (rb_tail r) r = length xs mod rb_capacity r" using slot_of_nat [OF i(1)] i(2) by simp
  have h: "slots_hold r xs (c + m)" using assms(1) by (simp add: ring_inv_def)
  have "j mod rb_capacity r \<noteq> length xs mod rb_capacity r" if "c + m \<le> j" "j < length xs" for j
    using mod_distinct [of c j "length xs" "rb_capacity r"] that i(4,5) assms(2) by linarith
  from slots_hold_update [OF h order.refl this] have "slots_hold (push_write v r) xs (c + m)" by (simp add: push_write_def s)
  then show "ring_inv (push_write v r) xs c m ct" using assms(1) by (simp add: ring_inv_def push_write_def cap_ok_def)
  show "rb_slots (push_write v r) ! (length xs mod rb_capacity r) = Some v"
    using i(8) cap_small [OF i(1)] by (simp add: push_write_def s)
qed

lemma push_publish_inv:
  assumes "ring_inv r xs c m ct" and "has_room r xs c" and "rb_slots r ! (length xs mod rb_capacity r) = Some v"
  shows "ring_inv (push_publish r) (xs @ [v]) c m ct"
  using assms by (auto simp: ring_inv_def has_room_def push_publish_def cap_ok_def slots_hold_def nth_append less_Suc_eq)

lemma pop_ready_outcome:
  assumes "ring_inv r xs c 0 ct" and "pop_ready r = (ok, r')"
  shows "\<exists>ct'. ring_inv r' xs c 0 ct' \<and> rb_disconnected r' = rb_disconnected r \<and> (ok \<longleftrightarrow> c < length xs) \<and> (ok \<longrightarrow> c < ct')"
proof -
  note i = ring_invD [OF assms(1)]
  have 1: "rb_head r = cached_tail r \<longleftrightarrow> ct = c" and 2: "rb_head r = rb_tail r \<longleftrightarrow> length xs = c"
    using of_nat_word_eq [of c ct] of_nat_word_eq [of c "length xs"] i cap_small [OF i(1)] by auto
  show ?thesis
  proof (cases "ct = c")
    case True
    then have "ok = (length xs \<noteq> c)" "r' = r\<lparr>cached_tail := rb_tail r\<rparr>" using assms(2) 1 2 by (simp_all add: pop_ready_def Let_def)
    then show ?thesis using assms(1) i(4,5) by (intro exI [of _ "length xs"]) (auto simp: ring_inv_def cap_ok_def slots_hold_def)
  next
    case False
    then have "ok" "r' = r" using assms(2) 1 by (simp_all add: pop_ready_def)
    then show ?thesis using assms(1) i(4,5) False by (intro exI [of _ ct]) auto
  qed
qed

lemma drain_ready_outcome:
  assumes "ring_inv r xs c 0 ct" and "drain_ready k r = (n, r')"
  shows "n = min (length xs - c) k \<and> ring_inv r' xs c 0 (length xs) \<and> rb_disconnected r' = rb_disconnected r"
  using assms ring_invD [OF assms(1)] cap_small [of r] unat_diff [of c "length xs"]
  by (auto simp: drain_ready_def Let_def ring_inv_def cap_ok_def slots_hold_def)

lemma take_slot_outcome:
  assumes "ring_inv r xs c m ct" and "c + m < ct"
  shows "\<exists>r'. take_slot (rb_head r + of_nat m) r = (Some (xs ! (c + m)), r') \<and> ring_inv r' xs c (Suc m) ct \<and>
    rb_disconnected r' = rb_disconnected r \<and> rb_head r' = rb_head r \<and> rb_tail r' = rb_tail r \<and>
    rb_capacity r' = rb_capacity r \<and> cached_head r' = cached_head r \<and>
    rb_slots r' = (rb_slots r)[(c + m) mod rb_capacity r := None]"
proof -
  note i = ring_invD [OF assms(1)]
  have s: "slot_of (rb_head r + of_nat m) r = (c + m) mod rb_capacity r"
    using slot_of_nat [OF i(1), of "c + m"] i(3) by simp
  have v: "rb_slots r ! ((c + m) mod rb_capacity r) = Some (xs ! (c + m))" using assms i(5) by (simp add: ring_inv_def slots_hold_def)
  define r' where "r' = snd (take_slot (rb_head r + of_nat m) r)"
  have h: "slots_hold r xs (c + m)" using assms(1) by (simp add: ring_inv_def)
  have "j mod rb_capacity r \<noteq> (c + m) mod rb_capacity r" if "c + Suc m \<le> j" "j < length xs" for j
    using mod_distinct [of c j "c + m" "rb_capacity r"] that i(6) by linarith
  from slots_hold_update [OF h _ this] have "slots_hold r' xs (c + Suc m)" by (simp add: r'_def take_slot_def s)
  then have "ring_inv r' xs c (Suc m) ct" using assms by (simp add: ring_inv_def r'_def take_slot_def cap_ok_def)
  then show ?thesis by (auto simp: r'_def take_slot_def s v)
qed

lemma pop_advance_inv:
  assumes "ring_inv r xs c m ct"
  shows "ring_inv (pop_advance m r) xs (c + m) 0 ct"
proof -
  obtain ch where "ch \<le> c" "cached_head r = of_nat ch" "length xs \<le> ch + rb_capacity r" using assms by (auto simp: ring_inv_def)
  then have "\<exists>ch \<le> c + m. cached_head r = of_nat ch \<and> length xs \<le> ch + rb_capacity r" by (intro exI [of _ ch]) simp
  then show ?thesis using assms ring_invD [OF assms] by (simp add: ring_inv_def pop_advance_def cap_ok_def slots_hold_def)
qed

lemma channel_inv:
  assumes "channel c = Some r" and "c \<le> 2 ^ 63"
  shows "ring_inv r [] 0 0 0" and "\<not> rb_disconnected r" and "c \<le> rb_capacity r"
  using assms next_power_of_two_pow [of c]
  by (auto simp: channel_def ring_inv_def cap_ok_def slots_hold_def Let_def split: if_splits)

section \<open>One call at a time\<close>

definition contents :: "'a ring \<Rightarrow> 'a list" where
  "contents r = map (\<lambda>j. the (rb_slots r ! slot_of (rb_head r + of_nat j) r)) [0..<ring_len r]"

definition ring_wf :: "'a ring \<Rightarrow> bool" where
  "ring_wf r \<longleftrightarrow> (\<exists>xs c ct. ring_inv r xs c 0 ct)"

lemma ring_len_inv:
  assumes "ring_inv r xs c m ct"
  shows "ring_len r = length xs - c"
proof -
  note d = ring_invD [OF assms]
  have "c \<le> length xs" "length xs - c < 2 ^ 64" using d(4-6) cap_small [OF d(1)] by linarith+
  then show ?thesis using unat_diff by (simp add: ring_len_def d(2,3))
qed

lemma contents_inv: "ring_inv r xs c 0 ct \<Longrightarrow> contents r = drop c xs"
proof -
  assume i: "ring_inv r xs c 0 ct"
  note d = ring_invD [OF i]
  have "the (rb_slots r ! slot_of (rb_head r + of_nat j) r) = xs ! (c + j)" if "j < length xs - c" for j
    using i that slot_of_nat [OF d(1), of "c + j"] d(3) by (simp add: ring_inv_def slots_hold_def)
  then show ?thesis by (auto simp: contents_def ring_len_inv [OF i] intro!: nth_equalityI)
qed

lemma try_push_outcome:
  assumes "ring_wf r" and "try_push v r = (res, r')"
  shows "ring_wf r' \<and> rb_capacity r' = rb_capacity r \<and> rb_disconnected r' = rb_disconnected r \<and>
    (if rb_disconnected r then res = Inl (Disconnected ''consumer'') \<and> contents r' = contents r
     else if length (contents r) < rb_capacity r then res = Inr () \<and> contents r' = contents r @ [v]
     else res = Inl (Full (rb_capacity r) (rb_capacity r)) \<and> contents r' = contents r)"
proof -
  obtain xs c ct where i: "ring_inv r xs c 0 ct" using assms(1) by (auto simp: ring_wf_def)
  note d = ring_invD [OF i] and cr = contents_inv [OF i]
  obtain q r1 where q: "push_room r = (q, r1)" by fastforce
  note p = push_room_outcome [OF i q]
  have i1: "ring_inv r1 xs c 0 ct" using p by simp
  show ?thesis
  proof (cases "rb_disconnected r")
    case True
    then show ?thesis using assms by (simp add: try_push_def)
  next
    case conn: False
    show ?thesis
    proof (cases q)
      case (Inl e)
      then show ?thesis using assms(2) q p conn contents_inv [OF i1] cr i1 d(4,5)
        by (auto simp: try_push_def ring_wf_def)
    next
      case (Inr u)
      then have r: "has_room r1 xs c" using p by simp
      then have lt: "length xs < c + rb_capacity r1" by (auto simp: has_room_def)
      let ?w = "push_write v r1"
      have hw: "has_room ?w xs c" using r by (simp add: has_room_def push_write_def)
      have cw: "rb_capacity ?w = rb_capacity r1" by (simp add: push_write_def)
      have w: "ring_inv (push_publish ?w) (xs @ [v]) c 0 ct"
        using push_publish_inv [OF push_write_inv(1) [OF i1 lt] hw] push_write_inv(2) [OF i1 lt] by (simp add: cw)
      have "res = Inr ()" "r' = push_publish ?w" using assms(2) q Inr conn by (simp_all add: try_push_def)
      moreover have "length (contents r) < rb_capacity r" using cr lt p d(4,5) by simp
      ultimately show ?thesis using w contents_inv [OF w] cr p conn d(4,5)
        by (auto simp: ring_wf_def push_publish_def push_write_def)
    qed
  qed
qed

lemma try_pop_outcome:
  assumes "ring_wf r" and "try_pop r = (res, r')"
  shows "ring_wf r' \<and> rb_capacity r' = rb_capacity r \<and> rb_disconnected r' = rb_disconnected r \<and>
    (case contents r of
       [] \<Rightarrow> res = Err (if rb_disconnected r then Disconnected ''producer'' else Empty) \<and> contents r' = []
     | v # vs \<Rightarrow> res = Done v \<and> contents r' = vs)"
proof -
  obtain xs c ct where i: "ring_inv r xs c 0 ct" using assms(1) by (auto simp: ring_wf_def)
  obtain ok r1 where q: "pop_ready r = (ok, r1)" by fastforce
  from pop_ready_outcome [OF i q] obtain ct' where p: "ring_inv r1 xs c 0 ct'" "rb_disconnected r1 = rb_disconnected r"
    "ok \<longleftrightarrow> c < length xs" "ok \<Longrightarrow> c < ct'" by blast
  have cap: "rb_capacity r1 = rb_capacity r" using q by (auto simp: pop_ready_def Let_def split: if_splits)
  note cr = contents_inv [OF i] contents_inv [OF p(1)]
  show ?thesis
  proof (cases ok)
    case False
    then show ?thesis using assms(2) q p cr cap by (auto simp: try_pop_def ring_wf_def)
  next
    case True
    from take_slot_outcome [OF p(1)] True p(4) obtain r2 where
      t: "take_slot (rb_head r1) r1 = (Some (xs ! c), r2)" "ring_inv r2 xs c (Suc 0) ct'" "rb_disconnected r2 = rb_disconnected r1"
      "rb_capacity r2 = rb_capacity r1" by auto
    have a: "ring_inv (pop_advance 1 r2) xs (c + 1) 0 ct'" using pop_advance_inv [OF t(2)] by simp
    have "drop c xs = xs ! c # drop (c + 1) xs" using True p(3) by (simp add: Cons_nth_drop_Suc)
    moreover have "r' = pop_advance 1 r2" "res = Done (xs ! c)" using assms(2) q True t(1) by (simp_all add: try_pop_def)
    ultimately show ?thesis using a contents_inv [OF a] cr(1) t(3,4) p(2) cap by (auto simp: ring_wf_def pop_advance_def)
  qed
qed

lemma drain_slots_outcome:
  assumes "ring_inv r xs c m ct" and "c + m + n \<le> ct"
  shows "\<exists>r'. drain_slots (rb_head r + of_nat m) n r = (Some (take n (drop (c + m) xs)), r') \<and> ring_inv r' xs c (m + n) ct \<and>
    rb_disconnected r' = rb_disconnected r \<and> rb_capacity r' = rb_capacity r \<and> rb_head r' = rb_head r"
  using assms
proof (induction n arbitrary: m r)
  case (Suc n)
  from take_slot_outcome [OF Suc.prems(1)] Suc.prems(2) obtain r1 where
    t: "take_slot (rb_head r + of_nat m) r = (Some (xs ! (c + m)), r1)" "ring_inv r1 xs c (Suc m) ct"
    "rb_disconnected r1 = rb_disconnected r" "rb_head r1 = rb_head r" "rb_capacity r1 = rb_capacity r" by auto
  have "c + Suc m + n \<le> ct" using Suc.prems(2) by simp
  from Suc.IH [OF t(2) this] obtain r' where
    r': "drain_slots (rb_head r + of_nat (Suc m)) n r1 = (Some (take n (drop (c + Suc m) xs)), r')" "ring_inv r' xs c (Suc m + n) ct"
    "rb_disconnected r' = rb_disconnected r" "rb_capacity r' = rb_capacity r" "rb_head r' = rb_head r"
    using t(3-5) by auto
  have "take (Suc n) (drop (c + m) xs) = xs ! (c + m) # take n (drop (c + Suc m) xs)"
    using Suc.prems ring_invD(5) [OF Suc.prems(1)] by (simp add: Cons_nth_drop_Suc [symmetric])
  moreover have "rb_head r + of_nat (Suc m) = rb_head r + of_nat m + 1" by simp
  ultimately show ?case using t(1) r' by (simp only: drain_slots.simps) auto
qed auto

lemma drain_into_outcome:
  assumes "ring_wf r"
  shows "\<exists>r'. drain_into k r = (Done (take k (contents r), min (length (contents r)) k, rb_disconnected r), r') \<and>
    ring_wf r' \<and> rb_capacity r' = rb_capacity r \<and> rb_disconnected r' = rb_disconnected r \<and> contents r' = drop k (contents r)"
proof -
  obtain xs c ct where i: "ring_inv r xs c 0 ct" using assms by (auto simp: ring_wf_def)
  obtain n r1 where q: "drain_ready k r = (n, r1)" by fastforce
  note p = drain_ready_outcome [OF i q]
  have i1: "ring_inv r1 xs c 0 (length xs)" and n: "n = min (length xs - c) k" using p by simp_all
  have cap: "rb_capacity r1 = rb_capacity r" using q by (auto simp: drain_ready_def Let_def)
  have "c + 0 + n \<le> length xs" using n ring_invD(4) [OF i1] by simp
  from drain_slots_outcome [OF i1 this] obtain r2 where
    t: "drain_slots (rb_head r1) n r1 = (Some (take n (drop c xs)), r2)" "ring_inv r2 xs c n (length xs)"
    "rb_disconnected r2 = rb_disconnected r1" "rb_capacity r2 = rb_capacity r1" by auto
  define r3 where "r3 = (if n > 0 then pop_advance n r2 else r2)"
  have a: "ring_inv r3 xs (c + n) 0 (length xs)"
    using pop_advance_inv [OF t(2)] t(2) unfolding r3_def by (cases "n = 0") simp_all
  have "drop (c + n) xs = drop k (drop c xs)" "take n (drop c xs) = take k (drop c xs)" using n by (auto simp: min_def add.commute)
  then have c: "contents r3 = drop k (contents r)" "take n (drop c xs) = take k (contents r)"
    using contents_inv [OF a] contents_inv [OF i] by simp_all
  have f: "rb_disconnected r3 = rb_disconnected r" "rb_capacity r3 = rb_capacity r"
    using t(3,4) p cap by (simp_all add: r3_def pop_advance_def)
  have "drain_into k r = (Done (take n (drop c xs), n, rb_disconnected r3), r3)"
    using q t(1) by (simp add: drain_into_def r3_def Let_def)
  moreover have "n = min (length (contents r)) k" using n contents_inv [OF i] by simp
  moreover have "ring_wf r3" using a unfolding ring_wf_def by blast
  ultimately show ?thesis using c f by simp
qed

section \<open>The interface of a bounded channel\<close>

text \<open>
  What the users of a ring rely on. Any mix of pushes and pops hands out exactly what was accepted,
  in order.
\<close>

datatype 'a ring_call = Push 'a | Pop

locale fifo_channel =
  fixes wf :: "'q \<Rightarrow> bool" and items :: "'q \<Rightarrow> 'a list" and bound :: "'q \<Rightarrow> nat" and closed :: "'q \<Rightarrow> bool"
    and push :: "'a \<Rightarrow> 'q \<Rightarrow> (bridge_error + unit) \<times> 'q" and pop :: "'q \<Rightarrow> 'a outcome \<times> 'q"
  assumes push_law: "wf q \<Longrightarrow> push v q = (res, q') \<Longrightarrow> wf q' \<and> bound q' = bound q \<and> closed q' = closed q \<and>
      (if closed q then res = Inl (Disconnected ''consumer'') \<and> items q' = items q
       else if length (items q) < bound q then res = Inr () \<and> items q' = items q @ [v]
       else res = Inl (Full (bound q) (bound q)) \<and> items q' = items q)"
    and pop_law: "wf q \<Longrightarrow> pop q = (out, q') \<Longrightarrow> wf q' \<and> bound q' = bound q \<and> closed q' = closed q \<and>
      (case items q of
         [] \<Rightarrow> out = Err (if closed q then Disconnected ''producer'' else Empty) \<and> items q' = []
       | v # vs \<Rightarrow> out = Done v \<and> items q' = vs)"
begin

text \<open>A sequence of calls: what was accepted, what was handed out, and the channel after it.\<close>

fun calls :: "'a ring_call list \<Rightarrow> 'q \<Rightarrow> 'a list \<times> 'a list \<times> 'q" where
  "calls [] q = ([], [], q)"
| "calls (Push v # cs) q = (case push v q of (res, q1) \<Rightarrow> (case calls cs q1 of (ins, outs, q2) \<Rightarrow>
     (case res of Inr _ \<Rightarrow> (v # ins, outs, q2) | Inl _ \<Rightarrow> (ins, outs, q2))))"
| "calls (Pop # cs) q = (case pop q of (res, q1) \<Rightarrow> (case calls cs q1 of (ins, outs, q2) \<Rightarrow>
     (case res of Done v \<Rightarrow> (ins, v # outs, q2) | _ \<Rightarrow> (ins, outs, q2))))"

lemma fifo: "wf q \<Longrightarrow> calls cs q = (ins, outs, q') \<Longrightarrow> wf q' \<and> items q @ ins = outs @ items q'"
proof (induction cs arbitrary: q ins outs q')
  case (Cons c cs)
  show ?case
  proof (cases c)
    case (Push v)
    obtain res q1 where p: "push v q = (res, q1)" by fastforce
    obtain i1 o1 q2 where r: "calls cs q1 = (i1, o1, q2)" by (cases "calls cs q1") auto
    from push_law [OF Cons.prems(1) p] Cons.IH [OF _ r] Cons.prems(2) show ?thesis
      by (auto simp: Push p r split: if_splits sum.splits)
  next
    case Pop
    obtain out q1 where p: "pop q = (out, q1)" by fastforce
    obtain i1 o1 q2 where r: "calls cs q1 = (i1, o1, q2)" by (cases "calls cs q1") auto
    from pop_law [OF Cons.prems(1) p] Cons.IH [OF _ r] Cons.prems(2) show ?thesis
      by (auto simp: Pop p r split: list.splits outcome.splits)
  qed
qed simp

end

interpretation ring: fifo_channel ring_wf contents rb_capacity rb_disconnected try_push try_pop
  by unfold_locales (rule try_push_outcome, assumption+, rule try_pop_outcome, assumption+)

section \<open>A producer and a consumer at work\<close>

text \<open>
  Where each side stands between two atomic accesses: the producer checked that the ring is open,
  saw room, or wrote its slot; the consumer still has \<open>n\<close> slots to take and holds the values \<open>vs\<close>.
\<close>

datatype 'a producer_at = PIdle | PChecked 'a | PRoom 'a | PWritten 'a
datatype 'a consumer_at = CIdle | CTake nat "'a list" | CPanicked

record 'a bridge =
  br_ring :: "'a ring"
  br_producer :: "'a producer_at"
  br_consumer :: "'a consumer_at"
  br_pushed :: "'a list"
  br_popped :: "'a list"

inductive bridge_step :: "'a bridge \<Rightarrow> 'a bridge \<Rightarrow> bool" where
  PushOpen: "br_producer b = PIdle \<Longrightarrow> \<not> rb_disconnected (br_ring b) \<Longrightarrow> bridge_step b (b\<lparr>br_producer := PChecked v\<rparr>)"
| PushRoom: "br_producer b = PChecked v \<Longrightarrow> push_room (br_ring b) = (Inr u, r) \<Longrightarrow>
    bridge_step b (b\<lparr>br_ring := r, br_producer := PRoom v\<rparr>)"
| PushFull: "br_producer b = PChecked v \<Longrightarrow> push_room (br_ring b) = (Inl e, r) \<Longrightarrow>
    bridge_step b (b\<lparr>br_ring := r, br_producer := PIdle\<rparr>)"
| PushWrite: "br_producer b = PRoom v \<Longrightarrow>
    bridge_step b (b\<lparr>br_ring := push_write v (br_ring b), br_producer := PWritten v\<rparr>)"
| PushPublish: "br_producer b = PWritten v \<Longrightarrow>
    bridge_step b (b\<lparr>br_ring := push_publish (br_ring b), br_producer := PIdle, br_pushed := br_pushed b @ [v]\<rparr>)"
| PopReady: "br_consumer b = CIdle \<Longrightarrow> pop_ready (br_ring b) = (ok, r) \<Longrightarrow>
    bridge_step b (b\<lparr>br_ring := r, br_consumer := (if ok then CTake 1 [] else CIdle)\<rparr>)"
| DrainReady: "br_consumer b = CIdle \<Longrightarrow> drain_ready k (br_ring b) = (n, r) \<Longrightarrow>
    bridge_step b (b\<lparr>br_ring := r, br_consumer := (if n = 0 then CIdle else CTake n [])\<rparr>)"
| Take: "br_consumer b = CTake (Suc n) vs \<Longrightarrow> take_slot (rb_head (br_ring b) + of_nat (length vs)) (br_ring b) = (x, r) \<Longrightarrow>
    bridge_step b (b\<lparr>br_ring := r, br_consumer := (case x of None \<Rightarrow> CPanicked | Some v \<Rightarrow> CTake n (vs @ [v]))\<rparr>)"
| Advance: "br_consumer b = CTake 0 vs \<Longrightarrow>
    bridge_step b (b\<lparr>br_ring := pop_advance (length vs) (br_ring b), br_consumer := CIdle, br_popped := br_popped b @ vs\<rparr>)"
| Drop: "bridge_step b (b\<lparr>br_ring := disconnect (br_ring b)\<rparr>)"

definition bridge_new :: "'a ring \<Rightarrow> 'a bridge" where
  "bridge_new r = \<lparr>br_ring = r, br_producer = PIdle, br_consumer = CIdle, br_pushed = [], br_popped = []\<rparr>"

definition producer_ok :: "'a ring \<Rightarrow> 'a list \<Rightarrow> nat \<Rightarrow> 'a producer_at \<Rightarrow> bool" where
  "producer_ok r xs c p \<longleftrightarrow> (case p of PRoom v \<Rightarrow> has_room r xs c
     | PWritten v \<Rightarrow> has_room r xs c \<and> rb_slots r ! (length xs mod rb_capacity r) = Some v | _ \<Rightarrow> True)"

definition taken :: "'a consumer_at \<Rightarrow> 'a list" where
  "taken k = (case k of CTake n vs \<Rightarrow> vs | _ \<Rightarrow> [])"

definition left :: "'a consumer_at \<Rightarrow> nat" where
  "left k = (case k of CTake n vs \<Rightarrow> n | _ \<Rightarrow> 0)"

definition bridge_inv :: "'a bridge \<Rightarrow> bool" where
  "bridge_inv b \<longleftrightarrow> (\<exists>ct. ring_inv (br_ring b) (br_pushed b) (length (br_popped b)) (length (taken (br_consumer b))) ct \<and>
       length (br_popped b) + length (taken (br_consumer b)) + left (br_consumer b) \<le> ct) \<and>
     producer_ok (br_ring b) (br_pushed b) (length (br_popped b)) (br_producer b) \<and>
     br_consumer b \<noteq> CPanicked \<and>
     br_popped b @ taken (br_consumer b) = take (length (br_popped b) + length (taken (br_consumer b))) (br_pushed b)"

text \<open>What the consumer does leaves the producer's view intact.\<close>

lemma has_room_lt: "has_room r xs c \<Longrightarrow> length xs < c + rb_capacity r"
  by (auto simp: has_room_def)

lemma has_room_mono: "has_room r xs c \<Longrightarrow> c \<le> d \<Longrightarrow> cached_head r' = cached_head r \<Longrightarrow> rb_capacity r' = rb_capacity r \<Longrightarrow>
    has_room r' xs d"
  unfolding has_room_def by (metis order_trans)

lemma producer_ok_frame:
  "producer_ok r xs c p \<Longrightarrow> c \<le> d \<Longrightarrow> cached_head r' = cached_head r \<Longrightarrow> rb_capacity r' = rb_capacity r \<Longrightarrow>
     rb_slots r' ! (length xs mod rb_capacity r) = rb_slots r ! (length xs mod rb_capacity r) \<Longrightarrow> producer_ok r' xs d p"
  using has_room_mono [of r xs c d r'] by (auto simp: producer_ok_def split: producer_at.splits)

lemma pop_ready_frame: "pop_ready r = (ok, r') \<Longrightarrow> r' = r\<lparr>cached_tail := cached_tail r'\<rparr>"
  by (auto simp: pop_ready_def Let_def split: if_splits)

lemma bridge_inv_take:
  assumes "bridge_inv b" and "br_consumer b = CTake (Suc n) vs"
    and "take_slot (rb_head (br_ring b) + of_nat (length vs)) (br_ring b) = (x, r)"
  shows "bridge_inv (b\<lparr>br_ring := r, br_consumer := (case x of None \<Rightarrow> CPanicked | Some v \<Rightarrow> CTake n (vs @ [v]))\<rparr>)"
proof -
  let ?r = "br_ring b" and ?xs = "br_pushed b" and ?c = "length (br_popped b)" and ?m = "length vs"
  obtain ct where i: "ring_inv ?r ?xs ?c ?m ct" "?c + ?m + Suc n \<le> ct"
    and p: "producer_ok ?r ?xs ?c (br_producer b)" and t: "br_popped b @ vs = take (?c + ?m) ?xs"
    using assms(1,2) by (auto simp: bridge_inv_def taken_def left_def)
  from take_slot_outcome [OF i(1)] i(2) obtain r' where r': "take_slot (rb_head ?r + of_nat ?m) ?r = (Some (?xs ! (?c + ?m)), r')"
    "ring_inv r' ?xs ?c (Suc ?m) ct" "rb_capacity r' = rb_capacity ?r" "cached_head r' = cached_head ?r"
    "rb_slots r' = (rb_slots ?r)[(?c + ?m) mod rb_capacity ?r := None]" by auto
  have lt: "?c + ?m < length ?xs" using i ring_invD(5) [OF i(1)] by simp
  have "producer_ok r' ?xs ?c (br_producer b)"
  proof (cases "has_room ?r ?xs ?c")
    case True
    then have "(?c + ?m) mod rb_capacity ?r \<noteq> length ?xs mod rb_capacity ?r"
      using mod_distinct [of ?c "?c + ?m" "length ?xs" "rb_capacity ?r"] lt has_room_lt [OF True] by auto
    then show ?thesis using producer_ok_frame [OF p order.refl r'(4,3)] r'(5) by simp
  next
    case False
    then show ?thesis using p by (auto simp: producer_ok_def split: producer_at.splits)
  qed
  moreover have "br_popped b @ vs @ [?xs ! (?c + ?m)] = take (?c + Suc ?m) ?xs"
    using t lt by (simp add: take_Suc_conv_app_nth flip: append_assoc)
  ultimately show ?thesis using assms(3) r'(1,2) i(2) by (auto simp: bridge_inv_def taken_def left_def)
qed

lemma bridge_inv_step: "bridge_step b b' \<Longrightarrow> bridge_inv b \<Longrightarrow> bridge_inv b'"
proof (induction rule: bridge_step.induct)
  case (PushRoom b v u r)
  then show ?case using push_room_outcome [OF _ PushRoom.hyps(2)] by (fastforce simp: bridge_inv_def producer_ok_def)
next
  case (PushFull b v e r)
  then show ?case using push_room_outcome [OF _ PushFull.hyps(2)] by (fastforce simp: bridge_inv_def producer_ok_def)
next
  case (PushWrite b v)
  then show ?case using push_write_inv [OF _ has_room_lt]
    by (fastforce simp: bridge_inv_def producer_ok_def has_room_def push_write_def)
next
  case (PushPublish b v)
  then show ?case using push_publish_inv
    by (fastforce simp: bridge_inv_def producer_ok_def dest: ring_invD(4,5))
next
  case (PopReady b ok r)
  note f = pop_ready_frame [OF PopReady.hyps(2)]
  obtain ct where i: "ring_inv (br_ring b) (br_pushed b) (length (br_popped b)) 0 ct"
    using PopReady by (auto simp: bridge_inv_def taken_def)
  from pop_ready_outcome [OF i PopReady.hyps(2)] obtain ct' where
    j: "ring_inv r (br_pushed b) (length (br_popped b)) 0 ct'" "ok \<longrightarrow> length (br_popped b) < ct'" by blast
  moreover have "length (br_popped b) \<le> ct'" using ring_invD(4) [OF j(1)] by simp
  moreover have "producer_ok r (br_pushed b) (length (br_popped b)) (br_producer b)"
    using PopReady.prems by (subst f) (auto simp: bridge_inv_def intro: producer_ok_frame)
  ultimately show ?case using PopReady by (auto simp: bridge_inv_def taken_def left_def)
next
  case (DrainReady b k n r)
  obtain ct where i: "ring_inv (br_ring b) (br_pushed b) (length (br_popped b)) 0 ct"
    using DrainReady by (auto simp: bridge_inv_def taken_def)
  note o = drain_ready_outcome [OF i DrainReady.hyps(2)]
  have "r = (br_ring b)\<lparr>cached_tail := rb_tail (br_ring b)\<rparr>" using DrainReady.hyps(2) by (auto simp: drain_ready_def Let_def)
  then have "producer_ok r (br_pushed b) (length (br_popped b)) (br_producer b)"
    using DrainReady.prems by (auto simp: bridge_inv_def intro: producer_ok_frame)
  moreover have "length (br_popped b) \<le> length (br_pushed b)" using ring_invD(4,5) [OF i] by simp
  ultimately show ?case using DrainReady o by (auto simp: bridge_inv_def taken_def left_def)
next
  case (Take b n vs x r)
  then show ?case by (intro bridge_inv_take)
next
  case (Advance b vs)
  then obtain ct where i: "ring_inv (br_ring b) (br_pushed b) (length (br_popped b)) (length vs) ct"
    by (auto simp: bridge_inv_def taken_def)
  have "producer_ok (pop_advance (length vs) (br_ring b)) (br_pushed b) (length (br_popped b) + length vs) (br_producer b)"
    using Advance.prems by (auto simp: bridge_inv_def pop_advance_def intro: producer_ok_frame)
  moreover have "length (br_popped b) + length vs \<le> length (br_pushed b)" using ring_invD(4,5) [OF i] by simp
  ultimately show ?case using Advance pop_advance_inv [OF i] ring_invD(4) [OF i]
    by (auto simp: bridge_inv_def taken_def left_def min_absorb2)
next
  case (Drop b)
  then show ?case
    by (auto simp: bridge_inv_def disconnect_def ring_inv_def cap_ok_def slots_hold_def producer_ok_def has_room_def
        split: producer_at.splits)
qed (auto simp: bridge_inv_def producer_ok_def)

lemma bridge_inv_new:
  assumes "channel c = Some r" and "c \<le> 2 ^ 63"
  shows "bridge_inv (bridge_new r)"
  using channel_inv(1) [OF assms] by (auto simp: bridge_inv_def bridge_new_def taken_def left_def producer_ok_def)

lemma bridge_inv_reachable:
  assumes "channel c = Some r" and "c \<le> 2 ^ 63" and "bridge_step\<^sup>*\<^sup>* (bridge_new r) b"
  shows "bridge_inv b"
  using assms(3) bridge_inv_new [OF assms(1,2)] by (induction rule: rtranclp_induct) (auto intro: bridge_inv_step)

lemma capacity_step: "bridge_step b b' \<Longrightarrow> rb_capacity (br_ring b') = rb_capacity (br_ring b)"
  by (induction rule: bridge_step.induct)
    (auto simp: push_room_def push_write_def push_publish_def pop_ready_def drain_ready_def take_slot_def pop_advance_def
      disconnect_def Let_def split: if_splits)

lemma capacity_steps: "bridge_step\<^sup>*\<^sup>* b b' \<Longrightarrow> rb_capacity (br_ring b') = rb_capacity (br_ring b)"
  by (induction rule: rtranclp_induct) (auto dest: capacity_step)

end
