(* ===== verification/Bridge_Channel.thy ===== *)
theory Bridge_Channel
  imports Bridge_Ring
begin

text \<open>
  The two-way channel between the planes: the backpressure controller
  (\<open>nodedb-bridge/src/backpressure.rs\<close>) and the handles of both sides
  (\<open>nodedb-bridge/src/async_bridge.rs\<close>) over a request ring and a response ring. A wake-up is a
  signal sent to an event file descriptor; the model counts the signals.
\<close>

section \<open>Backpressure\<close>

record backpressure_config =
  throttle_enter :: nat
  throttle_exit :: nat
  suspend_enter :: nat
  suspend_exit :: nat

definition backpressure_default :: backpressure_config where
  "backpressure_default = \<lparr>throttle_enter = 85, throttle_exit = 75, suspend_enter = 95, suspend_exit = 85\<rparr>"

datatype pressure_state = Normal | Throttled | Suspended

definition pressure_from_u8 :: "nat \<Rightarrow> pressure_state" where
  "pressure_from_u8 v = (if v = 0 then Normal else if v = 1 then Throttled else Suspended)"

definition pressure_u8 :: "pressure_state \<Rightarrow> nat" where
  "pressure_u8 s = (case s of Normal \<Rightarrow> 0 | Throttled \<Rightarrow> 1 | Suspended \<Rightarrow> 2)"

record backpressure_controller =
  bp_config :: backpressure_config
  bp_state :: nat
  throttle_count :: "64 word"
  suspend_count :: "64 word"

definition controller_new :: "backpressure_config \<Rightarrow> backpressure_controller" where
  "controller_new cfg = \<lparr>bp_config = cfg, bp_state = pressure_u8 Normal, throttle_count = 0, suspend_count = 0\<rparr>"

definition controller_state :: "backpressure_controller \<Rightarrow> pressure_state" where
  "controller_state c = pressure_from_u8 (bp_state c)"

definition next_pressure :: "backpressure_config \<Rightarrow> pressure_state \<Rightarrow> nat \<Rightarrow> pressure_state option" where
  "next_pressure cfg current u =
     (case current of
        Normal \<Rightarrow>
          if u \<ge> suspend_enter cfg then Some Suspended
          else if u \<ge> throttle_enter cfg then Some Throttled
          else None
      | Throttled \<Rightarrow>
          if u \<ge> suspend_enter cfg then Some Suspended
          else if u < throttle_exit cfg then Some Normal
          else None
      | Suspended \<Rightarrow>
          if u < suspend_exit cfg then (if u < throttle_exit cfg then Some Normal else Some Throttled)
          else None)"

definition controller_update :: "nat \<Rightarrow> backpressure_controller \<Rightarrow> pressure_state option \<times> backpressure_controller" where
  "controller_update u c =
     (case next_pressure (bp_config c) (controller_state c) u of
        None \<Rightarrow> (None, c)
      | Some new_state \<Rightarrow>
          let c1 = c\<lparr>bp_state := pressure_u8 new_state\<rparr>
          in (Some new_state,
              case new_state of
                Throttled \<Rightarrow> c1\<lparr>throttle_count := throttle_count c + 1\<rparr>
              | Suspended \<Rightarrow> c1\<lparr>suspend_count := suspend_count c + 1\<rparr>
              | Normal \<Rightarrow> c1))"

text \<open>Thresholds with room for hysteresis, as the default has.\<close>

definition config_ordered :: "backpressure_config \<Rightarrow> bool" where
  "config_ordered cfg \<longleftrightarrow> throttle_exit cfg \<le> throttle_enter cfg \<and> throttle_enter cfg \<le> suspend_enter cfg \<and>
     throttle_exit cfg \<le> suspend_exit cfg \<and> suspend_exit cfg \<le> suspend_enter cfg"

definition pressure_fits :: "backpressure_config \<Rightarrow> nat \<Rightarrow> pressure_state \<Rightarrow> bool" where
  "pressure_fits cfg u s \<longleftrightarrow> (case s of
     Normal \<Rightarrow> u < throttle_enter cfg
   | Throttled \<Rightarrow> throttle_exit cfg \<le> u \<and> u < suspend_enter cfg
   | Suspended \<Rightarrow> suspend_exit cfg \<le> u)"

lemma pressure_u8_inv [simp]: "pressure_from_u8 (pressure_u8 s) = s"
  by (cases s) (simp_all add: pressure_from_u8_def pressure_u8_def)

lemma controller_update_config [simp]: "bp_config (snd (controller_update u c)) = bp_config c"
  by (auto simp: controller_update_def Let_def split: option.split pressure_state.split)

lemma controller_update_state:
  "controller_state (snd (controller_update u c)) =
     (case next_pressure (bp_config c) (controller_state c) u of None \<Rightarrow> controller_state c | Some s \<Rightarrow> s)"
proof -
  have "controller_state (c'\<lparr>throttle_count := x\<rparr>) = controller_state c'"
    "controller_state (c'\<lparr>suspend_count := x\<rparr>) = controller_state c'"
    "controller_state (c'\<lparr>bp_state := pressure_u8 s\<rparr>) = s" for c' x s
    by (simp_all add: controller_state_def)
  then show ?thesis by (simp add: controller_update_def Let_def split: option.split pressure_state.split)
qed

lemma controller_update_fits:
  "config_ordered (bp_config c) \<Longrightarrow> pressure_fits (bp_config c) u (controller_state (snd (controller_update u c)))"
  unfolding controller_update_state
  by (cases "controller_state c") (auto simp: next_pressure_def pressure_fits_def config_ordered_def)

section \<open>The channel\<close>

record wake_pair =
  producer_wake :: nat
  consumer_wake :: nat

record ('req, 'rsp) bridge_channel =
  bc_req :: "'req ring"
  bc_rsp :: "'rsp ring"
  bc_pressure :: backpressure_controller
  bc_req_wake :: wake_pair
  bc_rsp_wake :: wake_pair

definition notify_consumer :: "wake_pair \<Rightarrow> wake_pair" where
  "notify_consumer w = w\<lparr>consumer_wake := consumer_wake w + 1\<rparr>"

definition notify_producer :: "wake_pair \<Rightarrow> wake_pair" where
  "notify_producer w = w\<lparr>producer_wake := producer_wake w + 1\<rparr>"

definition bridge_channel_new :: "nat \<Rightarrow> nat \<Rightarrow> ('req, 'rsp) bridge_channel option" where
  "bridge_channel_new req_capacity rsp_capacity =
     (case channel req_capacity of
        None \<Rightarrow> None
      | Some q \<Rightarrow> (case channel rsp_capacity of
            None \<Rightarrow> None
          | Some s \<Rightarrow> Some \<lparr>bc_req = q, bc_rsp = s, bc_pressure = controller_new backpressure_default,
              bc_req_wake = \<lparr>producer_wake = 0, consumer_wake = 0\<rparr>,
              bc_rsp_wake = \<lparr>producer_wake = 0, consumer_wake = 0\<rparr>\<rparr>))"

definition try_send_request ::
  "'req \<Rightarrow> ('req, 'rsp) bridge_channel \<Rightarrow> (bridge_error + unit) \<times> ('req, 'rsp) bridge_channel" where
  "try_send_request req ch =
     (let (result, q) = try_push req (bc_req ch);
          util = utilization q;
          ch1 = ch\<lparr>bc_req := q, bc_pressure := snd (controller_update util (bc_pressure ch))\<rparr>
      in case result of
           Inr _ \<Rightarrow> (result, ch1\<lparr>bc_req_wake := notify_consumer (bc_req_wake ch)\<rparr>)
         | Inl _ \<Rightarrow> (result, ch1))"

definition try_recv_response :: "('req, 'rsp) bridge_channel \<Rightarrow> 'rsp outcome \<times> ('req, 'rsp) bridge_channel" where
  "try_recv_response ch =
     (let (result, s) = try_pop (bc_rsp ch); ch1 = ch\<lparr>bc_rsp := s\<rparr>
      in case result of
           Done _ \<Rightarrow> (result, ch1\<lparr>bc_rsp_wake := notify_producer (bc_rsp_wake ch)\<rparr>)
         | _ \<Rightarrow> (result, ch1))"

definition drain_responses :: "nat \<Rightarrow> ('req, 'rsp) bridge_channel \<Rightarrow> ('rsp list \<times> nat) outcome \<times> ('req, 'rsp) bridge_channel" where
  "drain_responses k ch =
     (let (result, s) = drain_into k (bc_rsp ch); ch1 = ch\<lparr>bc_rsp := s\<rparr>
      in case result of
           Done (vs, count, _) \<Rightarrow>
             (Done (vs, count), if count > 0 then ch1\<lparr>bc_rsp_wake := notify_producer (bc_rsp_wake ch)\<rparr> else ch1)
         | Err e \<Rightarrow> (Err e, ch1)
         | Panic \<Rightarrow> (Panic, ch1))"

definition try_recv_request :: "('req, 'rsp) bridge_channel \<Rightarrow> 'req outcome \<times> ('req, 'rsp) bridge_channel" where
  "try_recv_request ch =
     (let (result, q) = try_pop (bc_req ch); ch1 = ch\<lparr>bc_req := q\<rparr>
      in case result of
           Done _ \<Rightarrow> (result, ch1\<lparr>bc_req_wake := notify_producer (bc_req_wake ch)\<rparr>)
         | _ \<Rightarrow> (result, ch1))"

definition drain_requests :: "nat \<Rightarrow> ('req, 'rsp) bridge_channel \<Rightarrow> ('req list \<times> nat) outcome \<times> ('req, 'rsp) bridge_channel" where
  "drain_requests k ch =
     (let (result, q) = drain_into k (bc_req ch); ch1 = ch\<lparr>bc_req := q\<rparr>
      in case result of
           Done (vs, count, _) \<Rightarrow>
             (Done (vs, count), if count > 0 then ch1\<lparr>bc_req_wake := notify_producer (bc_req_wake ch)\<rparr> else ch1)
         | Err e \<Rightarrow> (Err e, ch1)
         | Panic \<Rightarrow> (Panic, ch1))"

definition try_send_response ::
  "'rsp \<Rightarrow> ('req, 'rsp) bridge_channel \<Rightarrow> (bridge_error + unit) \<times> ('req, 'rsp) bridge_channel" where
  "try_send_response rsp ch =
     (let (result, s) = try_push rsp (bc_rsp ch); ch1 = ch\<lparr>bc_rsp := s\<rparr>
      in case result of
           Inr _ \<Rightarrow> (result, ch1\<lparr>bc_rsp_wake := notify_consumer (bc_rsp_wake ch)\<rparr>)
         | Inl _ \<Rightarrow> (result, ch1))"

definition pressure :: "('req, 'rsp) bridge_channel \<Rightarrow> pressure_state" where
  "pressure ch = controller_state (bc_pressure ch)"

definition should_throttle :: "('req, 'rsp) bridge_channel \<Rightarrow> bool" where
  "should_throttle ch \<longleftrightarrow> (case pressure ch of Throttled \<Rightarrow> True | Suspended \<Rightarrow> True | Normal \<Rightarrow> False)"

definition should_suspend :: "('req, 'rsp) bridge_channel \<Rightarrow> bool" where
  "should_suspend ch \<longleftrightarrow> pressure ch = Suspended"

definition close_handle :: "('req, 'rsp) bridge_channel \<Rightarrow> ('req, 'rsp) bridge_channel" where
  "close_handle ch = ch\<lparr>bc_req := disconnect (bc_req ch), bc_rsp := disconnect (bc_rsp ch)\<rparr>"

section \<open>Runs of the channel\<close>

text \<open>
  The calls of both sides; dropping either handle closes both rings. A run keeps what each side was
  told: the requests accepted and received, the responses accepted and received.
\<close>

datatype ('req, 'rsp) channel_call =
    SendRequest 'req
  | RecvRequest
  | DrainRequests nat
  | SendResponse 'rsp
  | RecvResponse
  | DrainResponses nat
  | DropHandle

record ('req, 'rsp) exchange =
  ex_channel :: "('req, 'rsp) bridge_channel"
  requests_in :: "'req list"
  requests_out :: "'req list"
  responses_in :: "'rsp list"
  responses_out :: "'rsp list"

definition exchange_new :: "('req, 'rsp) bridge_channel \<Rightarrow> ('req, 'rsp) exchange" where
  "exchange_new ch = \<lparr>ex_channel = ch, requests_in = [], requests_out = [], responses_in = [], responses_out = []\<rparr>"

definition received :: "'a outcome \<Rightarrow> 'a list" where
  "received out = (case out of Done v \<Rightarrow> [v] | _ \<Rightarrow> [])"

definition drained :: "('a list \<times> nat) outcome \<Rightarrow> 'a list" where
  "drained out = (case out of Done (vs, _) \<Rightarrow> vs | _ \<Rightarrow> [])"

fun exchange_call :: "('req, 'rsp) channel_call \<Rightarrow> ('req, 'rsp) exchange \<Rightarrow> ('req, 'rsp) exchange" where
  "exchange_call (SendRequest v) x = (case try_send_request v (ex_channel x) of (res, ch) \<Rightarrow>
     x\<lparr>ex_channel := ch, requests_in := requests_in x @ (case res of Inr _ \<Rightarrow> [v] | Inl _ \<Rightarrow> [])\<rparr>)"
| "exchange_call RecvRequest x = (case try_recv_request (ex_channel x) of (out, ch) \<Rightarrow>
     x\<lparr>ex_channel := ch, requests_out := requests_out x @ received out\<rparr>)"
| "exchange_call (DrainRequests k) x = (case drain_requests k (ex_channel x) of (out, ch) \<Rightarrow>
     x\<lparr>ex_channel := ch, requests_out := requests_out x @ drained out\<rparr>)"
| "exchange_call (SendResponse v) x = (case try_send_response v (ex_channel x) of (res, ch) \<Rightarrow>
     x\<lparr>ex_channel := ch, responses_in := responses_in x @ (case res of Inr _ \<Rightarrow> [v] | Inl _ \<Rightarrow> [])\<rparr>)"
| "exchange_call RecvResponse x = (case try_recv_response (ex_channel x) of (out, ch) \<Rightarrow>
     x\<lparr>ex_channel := ch, responses_out := responses_out x @ received out\<rparr>)"
| "exchange_call (DrainResponses k) x = (case drain_responses k (ex_channel x) of (out, ch) \<Rightarrow>
     x\<lparr>ex_channel := ch, responses_out := responses_out x @ drained out\<rparr>)"
| "exchange_call DropHandle x = x\<lparr>ex_channel := close_handle (ex_channel x)\<rparr>"

definition exchange_inv :: "nat \<Rightarrow> nat \<Rightarrow> ('req, 'rsp) exchange \<Rightarrow> bool" where
  "exchange_inv m n x \<longleftrightarrow> ring_wf (bc_req (ex_channel x)) \<and> ring_wf (bc_rsp (ex_channel x)) \<and>
     rb_capacity (bc_req (ex_channel x)) = m \<and> rb_capacity (bc_rsp (ex_channel x)) = n \<and>
     bp_config (bc_pressure (ex_channel x)) = backpressure_default \<and>
     requests_in x = requests_out x @ contents (bc_req (ex_channel x)) \<and>
     responses_in x = responses_out x @ contents (bc_rsp (ex_channel x))"

text \<open>A push, a pop and a drain as the channel sees them.\<close>

lemma push_view:
  assumes "ring_wf r" and "try_push v r = (res, r')"
  shows "ring_wf r' \<and> rb_capacity r' = rb_capacity r \<and> contents r' = contents r @ (case res of Inr _ \<Rightarrow> [v] | Inl _ \<Rightarrow> [])"
  using ring.push_law [OF assms] by (auto split: if_splits)

lemma pop_view:
  assumes "ring_wf r" and "try_pop r = (out, r')"
  shows "ring_wf r' \<and> rb_capacity r' = rb_capacity r \<and> contents r = received out @ contents r'"
  using ring.pop_law [OF assms] by (auto simp: received_def split: list.splits)

lemma drain_view:
  assumes "ring_wf r"
  shows "\<exists>n d r'. drain_into k r = (Done (take k (contents r), n, d), r') \<and> ring_wf r' \<and> rb_capacity r' = rb_capacity r \<and>
    contents r = take k (contents r) @ contents r'"
  using drain_into_outcome [OF assms, of k] by auto

lemma disconnect_wf: "ring_wf r \<Longrightarrow> ring_wf (disconnect r)" and disconnect_contents [simp]: "contents (disconnect r) = contents r"
  and disconnect_capacity [simp]: "rb_capacity (disconnect r) = rb_capacity r"
  by (auto simp: ring_wf_def disconnect_def ring_inv_def cap_ok_def slots_hold_def contents_def ring_len_def slot_of_def)

lemma exchange_call_inv: "exchange_inv m n x \<Longrightarrow> exchange_inv m n (exchange_call c x)"
proof (cases c)
  case (SendRequest v)
  assume "exchange_inv m n x"
  then show ?thesis using push_view [of "bc_req (ex_channel x)" v]
    by (auto simp: SendRequest exchange_inv_def try_send_request_def Let_def split: prod.splits sum.splits)
next
  case RecvRequest
  assume "exchange_inv m n x"
  then show ?thesis using pop_view [of "bc_req (ex_channel x)"]
    by (fastforce simp: RecvRequest exchange_inv_def try_recv_request_def Let_def split: prod.splits outcome.splits)
next
  case (DrainRequests k)
  assume "exchange_inv m n x"
  then show ?thesis using drain_view [of "bc_req (ex_channel x)" k]
    by (auto simp: DrainRequests exchange_inv_def drain_requests_def drained_def Let_def)
next
  case (SendResponse v)
  assume "exchange_inv m n x"
  then show ?thesis using push_view [of "bc_rsp (ex_channel x)" v]
    by (auto simp: SendResponse exchange_inv_def try_send_response_def Let_def split: prod.splits sum.splits)
next
  case RecvResponse
  assume "exchange_inv m n x"
  then show ?thesis using pop_view [of "bc_rsp (ex_channel x)"]
    by (fastforce simp: RecvResponse exchange_inv_def try_recv_response_def Let_def split: prod.splits outcome.splits)
next
  case (DrainResponses k)
  assume "exchange_inv m n x"
  then show ?thesis using drain_view [of "bc_rsp (ex_channel x)" k]
    by (auto simp: DrainResponses exchange_inv_def drain_responses_def drained_def Let_def)
next
  case DropHandle
  assume "exchange_inv m n x"
  then show ?thesis by (simp add: DropHandle exchange_inv_def close_handle_def disconnect_wf)
qed

lemma channel_wf: "channel c = Some r \<Longrightarrow> c \<le> 2 ^ 63 \<Longrightarrow> ring_wf r \<and> contents r = []"
  using channel_inv(1) [of c r] contents_inv [of r "[]" 0 0] by (auto simp: ring_wf_def)

lemma exchange_inv_run:
  assumes "bridge_channel_new a b = Some ch" and "a \<le> 2 ^ 63" and "b \<le> 2 ^ 63"
  shows "exchange_inv (next_power_of_two a) (next_power_of_two b) (fold exchange_call cs (exchange_new ch))"
proof -
  obtain q s where "channel a = Some q" "channel b = Some s"
    and "bc_req ch = q" "bc_rsp ch = s" "rb_capacity q = next_power_of_two a" "rb_capacity s = next_power_of_two b" "bp_config (bc_pressure ch) = backpressure_default"
    using assms(1) by (auto simp: bridge_channel_new_def controller_new_def channel_def Let_def split: option.splits if_splits)
  then have "exchange_inv (next_power_of_two a) (next_power_of_two b) (exchange_new ch)"
    using channel_wf [of a q] channel_wf [of b s] assms(2,3) by (simp add: exchange_inv_def exchange_new_def)
  then show ?thesis by (induction cs arbitrary: ch rule: rev_induct) (simp_all add: exchange_call_inv)
qed

lemma ring_wf_len: "ring_wf r \<Longrightarrow> ring_len r = length (contents r) \<and> length (contents r) \<le> rb_capacity r \<and> 0 < rb_capacity r"
  using contents_inv ring_len_inv ring_invD(1,4-6) cap_small by (fastforce simp: ring_wf_def)

lemma utilization_wf:
  assumes "ring_wf r" and "rb_capacity r \<le> 2 ^ 57"
  shows "utilization r = length (contents r) * 100 div rb_capacity r"
proof -
  note l = ring_wf_len [OF assms(1)]
  then have "length (contents r) * 100 div rb_capacity r \<le> rb_capacity r * 100 div rb_capacity r" by (intro div_le_mono) simp
  also have "\<dots> = 100" using l by simp
  finally have u: "length (contents r) * 100 div rb_capacity r < 256" by simp
  define d where "d = rb_tail r - rb_head r"
  have n: "unat d = length (contents r)" using l by (simp add: ring_len_def d_def)
  have "unat (d * 100) = length (contents r) * 100" using l assms(2) by (simp add: unat_word_ariths n)
  moreover have "unat (of_nat (rb_capacity r) :: 64 word) = rb_capacity r" using assms(2) by (simp add: unat_of_nat)
  ultimately have "unat (d * 100 div of_nat (rb_capacity r)) = length (contents r) * 100 div rb_capacity r"
    by (simp add: unat_div_distrib)
  then show ?thesis using u by (simp add: utilization_def d_def [symmetric] unsigned_ucast_eq take_bit_eq_mod)
qed

lemma send_outcome:
  assumes inv: "exchange_inv m n x" and m: "m \<le> 2 ^ 57" and s: "try_send_request v (ex_channel x) = (res, ch')"
  shows "res = (if rb_disconnected (bc_req (ex_channel x)) then Inl (Disconnected ''consumer'')
      else if length (contents (bc_req (ex_channel x))) < m then Inr () else Inl (Full m m))"
    and "pressure_fits backpressure_default (length (contents (bc_req ch')) * 100 div m) (pressure ch')"
proof -
  let ?q = "bc_req (ex_channel x)" and ?c = "bc_pressure (ex_channel x)"
  obtain r q where p: "try_push v ?q = (r, q)" by fastforce
  have i: "ring_wf ?q" "rb_capacity ?q = m" "bp_config ?c = backpressure_default" using inv by (simp_all add: exchange_inv_def)
  note o = ring.push_law [OF i(1) p]
  have c: "res = r" "bc_req ch' = q" "bc_pressure ch' = snd (controller_update (utilization q) ?c)"
    using s by (auto simp: try_send_request_def p Let_def split: sum.splits)
  then show "res = (if rb_disconnected ?q then Inl (Disconnected ''consumer'') else if length (contents ?q) < m then Inr () else Inl (Full m m))"
    using o i(2) by (auto split: if_splits)
  have "config_ordered (bp_config ?c)" by (simp add: i(3) config_ordered_def backpressure_default_def)
  moreover have "utilization q = length (contents q) * 100 div m" using utilization_wf [of q] o i(2) m by simp
  ultimately show "pressure_fits backpressure_default (length (contents (bc_req ch')) * 100 div m) (pressure ch')"
    using controller_update_fits [of ?c "utilization q"] by (simp add: pressure_def c(2,3) i(3))
qed

end
