(* ===== verification/Bridge_Wfq.thy ===== *)
theory Bridge_Wfq
  imports Prelude "HOL-Library.AList"
begin

text \<open>
  The weighted-fair queue that orders the requests of many databases for one core
  (\<open>nodedb-bridge/src/wfq.rs\<close>): deficit round-robin over one queue per database. A \<open>HashMap\<close> is an
  association list with distinct keys; the code never depends on its order.
\<close>

section \<open>State and operations\<close>

datatype priority_class = Critical | Standard | Bulk

definition priority_weight :: "priority_class \<Rightarrow> nat" where
  "priority_weight cls = (case cls of Critical \<Rightarrow> 4 | Standard \<Rightarrow> 2 | Bulk \<Rightarrow> 1)"

record 'a virtual_queue =
  vq_items :: "'a list"
  vq_deficit :: nat

definition virtual_queue_new :: "'a virtual_queue" where
  "virtual_queue_new = \<lparr>vq_items = [], vq_deficit = 0\<rparr>"

record 'a wfq =
  wq_queues :: "(u64 \<times> 'a virtual_queue) list"
  wq_order :: "u64 list"
  wq_total :: nat
  wq_capacity :: nat
  wq_priorities :: "(u64 \<times> priority_class) list"
  wq_touched :: "u64 set"
  wq_pops :: nat
  wq_reap_after :: nat

definition wfq_new :: "nat \<Rightarrow> nat \<Rightarrow> 'a wfq" where
  "wfq_new cap reap_after_pops =
     \<lparr>wq_queues = [], wq_order = [], wq_total = 0, wq_capacity = cap, wq_priorities = [], wq_touched = {},
      wq_pops = 0, wq_reap_after = reap_after_pops\<rparr>"

definition try_enqueue :: "u64 \<Rightarrow> 'a \<Rightarrow> 'a wfq \<Rightarrow> ('a + unit) \<times> 'a wfq" where
  "try_enqueue database_id item w =
     (if wq_total w \<ge> wq_capacity w then (Inl item, w)
      else
        let w1 = (if map_of (wq_queues w) database_id = None
                  then w\<lparr>wq_queues := AList.update database_id virtual_queue_new (wq_queues w),
                         wq_order := wq_order w @ [database_id]\<rparr>
                  else w);
            vq = the (map_of (wq_queues w1) database_id)
        in (Inr (), w1\<lparr>wq_queues := AList.update database_id (vq\<lparr>vq_items := vq_items vq @ [item]\<rparr>) (wq_queues w1),
                       wq_total := wq_total w + 1\<rparr>))"

definition set_priority :: "u64 \<Rightarrow> priority_class \<Rightarrow> 'a wfq \<Rightarrow> 'a wfq" where
  "set_priority database_id cls w =
     w\<lparr>wq_priorities := AList.update database_id cls (wq_priorities w), wq_touched := insert database_id (wq_touched w)\<rparr>"

definition reap_empty_queues :: "'a wfq \<Rightarrow> 'a wfq" where
  "reap_empty_queues w =
     (let empty_ids = map fst (filter (\<lambda>(_, vq). vq_items vq = []) (wq_queues w));
          qs = filter (\<lambda>(d, _). d \<notin> set empty_ids) (wq_queues w)
      in w\<lparr>wq_queues := qs,
           wq_order := filter (\<lambda>d. d \<notin> set empty_ids) (wq_order w),
           wq_touched := {},
           wq_priorities := filter (\<lambda>(d, _). d \<in> wq_touched w \<or> map_of qs d \<noteq> None) (wq_priorities w)\<rparr>)"

text \<open>The end of a successful pop: count it, and reap when the count is reached.\<close>

definition pop_counted :: "'a wfq \<Rightarrow> 'a wfq" where
  "pop_counted w =
     (if wq_pops w + 1 \<ge> wq_reap_after w then (reap_empty_queues (w\<lparr>wq_pops := wq_pops w + 1\<rparr>))\<lparr>wq_pops := 0\<rparr>
      else w\<lparr>wq_pops := wq_pops w + 1\<rparr>)"

definition turn_deficit :: "'a wfq \<Rightarrow> u64 \<Rightarrow> 'a virtual_queue \<Rightarrow> nat" where
  "turn_deficit w db vq =
     (if vq_deficit vq = 0
      then priority_weight (case map_of (wq_priorities w) db of None \<Rightarrow> Standard | Some c \<Rightarrow> c)
      else vq_deficit vq)"

fun pop_scan :: "nat \<Rightarrow> 'a wfq \<Rightarrow> 'a option \<times> 'a wfq" where
  "pop_scan 0 w = (None, w)"
| "pop_scan (Suc n) w =
     (case wq_order w of
        [] \<Rightarrow> (None, w)
      | db # rest \<Rightarrow>
          (case map_of (wq_queues w) db of
             None \<Rightarrow> pop_scan n (w\<lparr>wq_order := rest\<rparr>)
           | Some vq \<Rightarrow>
               (case vq_items vq of
                  item # its \<Rightarrow>
                    let d = turn_deficit w db vq - 1;
                        w1 = w\<lparr>wq_queues := AList.update db \<lparr>vq_items = its, vq_deficit = d\<rparr> (wq_queues w),
                               wq_total := wq_total w - 1\<rparr>;
                        w2 = (if d = 0 then w1\<lparr>wq_order := rest @ [db]\<rparr> else w1)
                    in (Some item, pop_counted w2)
                | [] \<Rightarrow>
                    pop_scan n (w\<lparr>wq_queues := AList.update db (vq\<lparr>vq_deficit := 0\<rparr>) (wq_queues w),
                                  wq_order := rest @ [db]\<rparr>))))"

definition pop_next :: "'a wfq \<Rightarrow> 'a option \<times> 'a wfq" where
  "pop_next w = (if wq_total w = 0 then (None, w) else pop_scan (length (wq_order w)) w)"

definition depth_for :: "u64 \<Rightarrow> 'a wfq \<Rightarrow> nat" where
  "depth_for database_id w = (case map_of (wq_queues w) database_id of None \<Rightarrow> 0 | Some vq \<Rightarrow> length (vq_items vq))"

definition fair_share_slots :: "'a wfq \<Rightarrow> nat" where
  "fair_share_slots w =
     (let active = max (max (length (wq_priorities w)) (length (wq_queues w))) 1 in max (wq_capacity w div active) 1)"

definition is_throttled_for :: "u64 \<Rightarrow> 'a wfq \<Rightarrow> bool" where
  "is_throttled_for database_id w \<longleftrightarrow> depth_for database_id w * 100 \<ge> fair_share_slots w * 85"

definition is_suspended_for :: "u64 \<Rightarrow> 'a wfq \<Rightarrow> bool" where
  "is_suspended_for database_id w \<longleftrightarrow> depth_for database_id w * 100 \<ge> fair_share_slots w * 95"

section \<open>Invariant\<close>

definition queued :: "'a wfq \<Rightarrow> u64 \<Rightarrow> 'a list" where
  "queued w d = (case map_of (wq_queues w) d of None \<Rightarrow> [] | Some vq \<Rightarrow> vq_items vq)"

definition deficit :: "'a wfq \<Rightarrow> u64 \<Rightarrow> nat" where
  "deficit w d = (case map_of (wq_queues w) d of None \<Rightarrow> 0 | Some vq \<Rightarrow> vq_deficit vq)"

definition wfq_ok :: "'a wfq \<Rightarrow> bool" where
  "wfq_ok w \<longleftrightarrow> distinct (wq_order w) \<and> distinct (map fst (wq_queues w)) \<and> set (wq_order w) = dom (map_of (wq_queues w)) \<and>
     wq_total w = (\<Sum>d\<in>set (wq_order w). length (queued w d)) \<and> wq_total w \<le> wq_capacity w \<and> (\<forall>d. deficit w d \<le> 4)"

lemma priority_weight_range: "1 \<le> priority_weight c" "priority_weight c \<le> 4"
  by (cases c; simp add: priority_weight_def)+

lemma wfq_ok_new: "wfq_ok (wfq_new cap k)"
  by (simp add: wfq_ok_def wfq_new_def queued_def deficit_def)

text \<open>A queue is replaced, and the order rearranged.\<close>

lemma queued_update: "queued (w\<lparr>wq_queues := AList.update d vq (wq_queues w)\<rparr>) e = (if e = d then vq_items vq else queued w e)"
  and deficit_update: "deficit (w\<lparr>wq_queues := AList.update d vq (wq_queues w)\<rparr>) e = (if e = d then vq_deficit vq else deficit w e)"
  by (simp_all add: queued_def deficit_def update_conv')

lemma queued_frame [simp]:
  "queued (w\<lparr>wq_order := x\<rparr>) d = queued w d" "queued (w\<lparr>wq_total := t\<rparr>) d = queued w d" "queued (w\<lparr>wq_pops := t\<rparr>) d = queued w d"
  "deficit (w\<lparr>wq_order := x\<rparr>) d = deficit w d" "deficit (w\<lparr>wq_total := t\<rparr>) d = deficit w d" "deficit (w\<lparr>wq_pops := t\<rparr>) d = deficit w d"
  by (simp_all add: queued_def deficit_def)

lemma wfq_ok_cong:
  assumes "wq_queues w' = wq_queues w" and "wq_order w' = wq_order w" and "wq_total w' = wq_total w" and "wq_capacity w' = wq_capacity w"
  shows "wfq_ok w' = wfq_ok w"
  using assms by (simp add: wfq_ok_def queued_def deficit_def)

lemma map_of_filter_fst: "map_of (filter (\<lambda>(d, _). P d) xs) d = (if P d then map_of xs d else None)"
  by (induction xs) auto

lemma reap_view:
  assumes "distinct (map fst (wq_queues w))" and "set (wq_order w) = dom (map_of (wq_queues w))"
  shows "map_of (wq_queues (reap_empty_queues w)) = (\<lambda>d. if queued w d = [] then None else map_of (wq_queues w) d)"
    and "wq_order (reap_empty_queues w) = filter (\<lambda>d. queued w d \<noteq> []) (wq_order w)"
    and "wq_total (reap_empty_queues w) = wq_total w" and "wq_capacity (reap_empty_queues w) = wq_capacity w"
    and "distinct (map fst (wq_queues (reap_empty_queues w)))"
proof -
  let ?E = "set (map fst (filter (\<lambda>(_, vq). vq_items vq = []) (wq_queues w)))"
  have e: "d \<in> ?E \<longleftrightarrow> (\<exists>vq. map_of (wq_queues w) d = Some vq \<and> vq_items vq = [])" for d
    using assms(1) by (force simp: map_of_eq_Some_iff)
  have "map_of (wq_queues (reap_empty_queues w)) d = (if d \<notin> ?E then map_of (wq_queues w) d else None)" for d
    using map_of_filter_fst [of "\<lambda>d. d \<notin> ?E" "wq_queues w" d] by (simp add: reap_empty_queues_def Let_def)
  then show "map_of (wq_queues (reap_empty_queues w)) = (\<lambda>d. if queued w d = [] then None else map_of (wq_queues w) d)"
    using e by (auto simp: fun_eq_iff queued_def split: option.splits)
  have "d \<notin> ?E \<longleftrightarrow> queued w d \<noteq> []" if "d \<in> set (wq_order w)" for d
    using that e [of d] assms(2) by (auto simp: queued_def split: option.splits)
  then have "filter (\<lambda>d. d \<notin> ?E) (wq_order w) = filter (\<lambda>d. queued w d \<noteq> []) (wq_order w)" by (intro filter_cong) simp_all
  then show "wq_order (reap_empty_queues w) = filter (\<lambda>d. queued w d \<noteq> []) (wq_order w)"
    by (simp add: reap_empty_queues_def Let_def)
  show "wq_total (reap_empty_queues w) = wq_total w" "wq_capacity (reap_empty_queues w) = wq_capacity w"
    by (simp_all add: reap_empty_queues_def Let_def)
  show "distinct (map fst (wq_queues (reap_empty_queues w)))"
    using assms(1) by (simp add: reap_empty_queues_def Let_def distinct_map_filter)
qed

lemma wfq_okD:
  assumes "wfq_ok w"
  shows "distinct (wq_order w)" and "distinct (map fst (wq_queues w))" and "set (wq_order w) = dom (map_of (wq_queues w))"
    and "wq_total w = (\<Sum>d\<in>set (wq_order w). length (queued w d))" and "wq_total w \<le> wq_capacity w" and "deficit w d \<le> 4"
  using assms unfolding wfq_ok_def by blast+

lemma wfq_ok_order: "wfq_ok w \<Longrightarrow> distinct xs \<Longrightarrow> set xs = set (wq_order w) \<Longrightarrow> wfq_ok (w\<lparr>wq_order := xs\<rparr>)"
  by (auto simp: wfq_ok_def)

lemma wfq_ok_replace:
  assumes "wfq_ok w" and "map_of (wq_queues w) d = Some vq" and "vq_deficit vq' \<le> 4" and "length (vq_items vq') \<le> length (vq_items vq)"
    and "w' = w\<lparr>wq_queues := AList.update d vq' (wq_queues w), wq_total := wq_total w - (length (vq_items vq) - length (vq_items vq'))\<rparr>"
  shows "wfq_ok w'"
proof -
  note o = wfq_okD [OF assms(1)]
  have d: "d \<in> set (wq_order w)" using o(3) assms(2) by auto
  let ?S = "set (wq_order w) - {d}"
  have q: "queued w' e = (if e = d then vq_items vq' else queued w e)" "deficit w' e = (if e = d then vq_deficit vq' else deficit w e)" for e
    unfolding assms(5) by (simp_all add: queued_update deficit_update)
  have qd: "queued w d = vq_items vq" using assms(2) by (simp add: queued_def)
  have s: "(\<Sum>e\<in>set (wq_order w). length (f e)) = length (f d) + (\<Sum>e\<in>?S. length (f e))" for f :: "u64 \<Rightarrow> 'a list"
    using sum.remove [OF finite_set d, of "\<lambda>e. length (f e)"] by simp
  have "(\<Sum>e\<in>?S. length (queued w' e)) = (\<Sum>e\<in>?S. length (queued w e))" by (intro sum.cong) (auto simp: q)
  then have "wq_total w' = (\<Sum>e\<in>set (wq_order w). length (queued w' e))"
    using s [of "queued w'"] s [of "queued w"] o(4) q(1) [of d] qd assms(4,5) by simp
  moreover have "set (wq_order w) = dom (map_of (wq_queues w'))" using o(3) d by (auto simp: assms(5) update_conv')
  moreover have "distinct (map fst (wq_queues w'))" using o(2) by (simp add: assms(5) distinct_update)
  moreover have "wq_order w' = wq_order w" "wq_total w' \<le> wq_capacity w'" using o(5) by (simp_all add: assms(5))
  ultimately show ?thesis using o(1) o(6) assms(3) by (simp add: wfq_ok_def q(2))
qed

lemma pop_counted_view:
  assumes "wfq_ok w"
  shows "wfq_ok (pop_counted w)" and "queued (pop_counted w) d = queued w d" and "wq_total (pop_counted w) = wq_total w"
    and "wq_capacity (pop_counted w) = wq_capacity w" and "queued w d \<noteq> [] \<Longrightarrow> deficit (pop_counted w) d = deficit w d"
    and "wq_order (pop_counted w) = wq_order w \<or> wq_order (pop_counted w) = filter (\<lambda>d. queued w d \<noteq> []) (wq_order w)"
proof -
  note o = wfq_okD [OF assms]
  define w1 where "w1 = w\<lparr>wq_pops := wq_pops w + 1\<rparr>"
  define r where "r = reap_empty_queues w1"
  have w1: "wfq_ok w1" "queued w1 e = queued w e" "deficit w1 e = deficit w e" for e
    using assms wfq_ok_cong [of w1 w] by (simp_all add: w1_def)
  note v = reap_view [OF wfq_okD(2,3) [OF w1(1)], folded r_def]
  have q: "queued r e = queued w e" for e using w1(2) [of e] by (auto simp: queued_def v(1) w1_def)
  have df: "queued w e \<noteq> [] \<Longrightarrow> deficit r e = deficit w e" "deficit r e \<le> deficit w e" for e
    using w1(2,3) by (simp_all add: deficit_def v(1))
  have "(\<Sum>e\<in>set (wq_order r). length (queued w e)) = (\<Sum>e\<in>set (wq_order w). length (queued w e))"
    using v(2) w1(2) by (intro sum.mono_neutral_left) (auto simp: w1_def)
  moreover have "deficit r e \<le> 4" for e using df(2) [of e] o(6) [of e] by simp
  ultimately have "wfq_ok r"
    using o v(3-5) v(2) w1(2) q
    by (auto simp: wfq_ok_def v(1) dom_def w1_def split: if_splits)
  moreover have c: "pop_counted w = r\<lparr>wq_pops := 0\<rparr> \<or> pop_counted w = w1" by (simp add: pop_counted_def r_def w1_def)
  ultimately show "wfq_ok (pop_counted w)" using w1(1) wfq_ok_cong [of "r\<lparr>wq_pops := 0\<rparr>" r] by auto
  show "queued (pop_counted w) d = queued w d" "queued w d \<noteq> [] \<Longrightarrow> deficit (pop_counted w) d = deficit w d"
    using c q [of d] w1(2,3) [of d] df(1) [of d] by auto
  show "wq_total (pop_counted w) = wq_total w" "wq_capacity (pop_counted w) = wq_capacity w" using c v(3,4) by (auto simp: w1_def)
  show "wq_order (pop_counted w) = wq_order w \<or> wq_order (pop_counted w) = filter (\<lambda>d. queued w d \<noteq> []) (wq_order w)"
    using c v(2) w1(2) by (auto simp: w1_def)
qed

section \<open>Service\<close>

text \<open>\<open>x\<close> is taken from the front of the queue of \<open>d\<close>, and no other queue changes.\<close>

definition served :: "'a wfq \<Rightarrow> u64 \<Rightarrow> 'a \<Rightarrow> 'a wfq \<Rightarrow> bool" where
  "served w d x w' \<longleftrightarrow> queued w d = x # queued w' d \<and> (\<forall>e. e \<noteq> d \<longrightarrow> queued w' e = queued w e)"

text \<open>The services that may still come before that of \<open>d\<close>: for each database ahead, what is left of its turn.\<close>

definition ahead :: "'a wfq \<Rightarrow> u64 \<Rightarrow> u64 list" where
  "ahead w d = takeWhile (\<lambda>e. e \<noteq> d) (wq_order w)"

definition credit :: "'a wfq \<Rightarrow> u64 \<Rightarrow> nat" where
  "credit w d = (if deficit w d = 0 then 4 else deficit w d)"

definition debt :: "'a wfq \<Rightarrow> u64 \<Rightarrow> nat" where
  "debt w d = sum_list (map (credit w) (ahead w d))"

lemma takeWhile_filter_to: "P d \<Longrightarrow> takeWhile (\<lambda>e. e \<noteq> d) (filter P xs) = filter P (takeWhile (\<lambda>e. e \<noteq> d) xs)"
  by (induction xs) auto

lemma sum_list_filter_le: "sum_list (map f (filter P xs)) \<le> (sum_list (map f xs) :: nat)"
  by (induction xs) auto

lemma debt_counted:
  assumes "wfq_ok w" and "queued w t \<noteq> []"
  shows "debt (pop_counted w) t \<le> debt w t"
proof -
  note v = pop_counted_view [OF assms(1)]
  show ?thesis
  proof (cases "wq_order (pop_counted w) = filter (\<lambda>d. queued w d \<noteq> []) (wq_order w)")
    case True
    have "map (credit (pop_counted w)) (ahead (pop_counted w) t) = map (credit w) (filter (\<lambda>d. queued w d \<noteq> []) (ahead w t))"
      using takeWhile_filter_to [of "\<lambda>d. queued w d \<noteq> []" t "wq_order w"] assms(2) True v(5) by (simp add: ahead_def credit_def)
    then show ?thesis using sum_list_filter_le by (simp add: debt_def)
  next
    case False
    then have "wq_order (pop_counted w) = wq_order w" "pop_counted w = w\<lparr>wq_pops := wq_pops w + 1\<rparr>"
      using v(6) reap_view(2) [OF wfq_okD(2,3) [OF assms(1)]] by (auto simp: pop_counted_def reap_empty_queues_def Let_def queued_def split: if_splits)
    moreover have "credit (w\<lparr>wq_pops := n\<rparr>) = credit w" for n by (simp add: fun_eq_iff credit_def)
    ultimately show ?thesis by (simp add: debt_def ahead_def)
  qed
qed

lemma takeWhile_rotate: "t \<noteq> d \<Longrightarrow> t \<in> set rest \<Longrightarrow> takeWhile (\<lambda>e. e \<noteq> t) (rest @ [d]) = takeWhile (\<lambda>e. e \<noteq> t) rest"
  by (induction rest) auto

lemma pop_front:
  assumes ok: "wfq_ok w" and o: "wq_order w = db # rest" and q: "map_of (wq_queues w) db = Some vq" and i: "vq_items vq = x # its"
    and d: "d = turn_deficit w db vq - 1"
    and w1: "w1 = w\<lparr>wq_queues := AList.update db \<lparr>vq_items = its, vq_deficit = d\<rparr> (wq_queues w), wq_total := wq_total w - 1\<rparr>"
    and w2: "w2 = (if d = 0 then w1\<lparr>wq_order := rest @ [db]\<rparr> else w1)"
  shows "wfq_ok w2" and "served w db x w2" and "wq_total w2 = wq_total w - 1" and "wq_capacity w2 = wq_capacity w"
    and "t \<noteq> db \<Longrightarrow> queued w t \<noteq> [] \<Longrightarrow> debt w2 t < debt w t"
proof -
  note k = wfq_okD [OF ok]
  have vd: "vq_deficit vq = deficit w db" using q by (simp add: deficit_def)
  have td: "1 \<le> turn_deficit w db vq" "turn_deficit w db vq \<le> credit w db"
    using priority_weight_range k(6) [of db] vd by (simp_all add: turn_deficit_def credit_def split: option.split)
  have "credit w db \<le> 4" using k(6) [of db] by (simp add: credit_def)
  then have d4: "d < credit w db" "d \<le> 4" using td d by auto
  have ok1: "wfq_ok w1" by (rule wfq_ok_replace [OF ok q, of "\<lparr>vq_items = its, vq_deficit = d\<rparr>"]) (use d4 i w1 in simp_all)
  have o1: "wq_order w1 = db # rest" using o by (simp add: w1)
  show "wfq_ok w2" unfolding w2 using ok1 k(1) o o1 by (auto intro: wfq_ok_order)
  have q2: "queued w2 e = (if e = db then its else queued w e)" "deficit w2 e = (if e = db then d else deficit w e)" for e
    by (simp_all add: w2 w1 queued_update deficit_update)
  show "served w db x w2" using q i q2(1) by (simp add: served_def queued_def [of w db])
  show "wq_total w2 = wq_total w - 1" "wq_capacity w2 = wq_capacity w" by (simp_all add: w2 w1)
  assume t: "t \<noteq> db" "queued w t \<noteq> []"
  then have "t \<in> set (wq_order w)" unfolding k(3) by (auto simp: queued_def split: option.splits)
  then have tr: "t \<in> set rest" using t(1) o by simp
  let ?a = "takeWhile (\<lambda>e. e \<noteq> t) rest"
  have "db \<notin> set ?a" using k(1) o by (auto dest: set_takeWhileD)
  then have "map (credit w2) ?a = map (credit w) ?a" using q2(2) by (auto simp: credit_def)
  from arg_cong [OF this, of sum_list] have m: "sum_list (map (credit w2) ?a) = sum_list (map (credit w) ?a)" .
  have aw: "ahead w t = db # ?a" using o t(1) by (simp add: ahead_def)
  show "debt w2 t < debt w t"
  proof (cases "d = 0")
    case True
    then have "ahead w2 t = ?a" using takeWhile_rotate [OF t(1) tr] by (simp add: ahead_def w2)
    then show ?thesis using m aw d4(1) by (simp add: debt_def)
  next
    case False
    then have "ahead w2 t = db # ?a" "credit w2 db = d" using o1 t(1) q2(2) by (simp_all add: ahead_def w2 credit_def)
    then show ?thesis using m aw d4(1) by (simp add: debt_def)
  qed
qed

lemma rotate_empty:
  assumes ok: "wfq_ok w" and o: "wq_order w = db # rest" and q: "map_of (wq_queues w) db = Some vq" and i: "vq_items vq = []"
    and w1: "w1 = w\<lparr>wq_queues := AList.update db (vq\<lparr>vq_deficit := 0\<rparr>) (wq_queues w), wq_order := rest @ [db]\<rparr>"
  shows "wfq_ok w1" and "queued w1 t = queued w t" and "queued w t \<noteq> [] \<Longrightarrow> debt w1 t \<le> debt w t"
proof -
  note k = wfq_okD [OF ok]
  let ?w = "w\<lparr>wq_queues := AList.update db (vq\<lparr>vq_deficit := 0\<rparr>) (wq_queues w)\<rparr>"
  have "wfq_ok ?w" by (rule wfq_ok_replace [OF ok q, of "vq\<lparr>vq_deficit := 0\<rparr>"]) simp_all
  then show "wfq_ok w1" using wfq_ok_order [of ?w "rest @ [db]"] k(1) o by (simp add: w1)
  have q1: "queued w1 e = queued w e" "e \<noteq> db \<Longrightarrow> deficit w1 e = deficit w e" for e
    using q by (simp_all add: w1 queued_def deficit_def update_conv')
  then show "queued w1 t = queued w t" by simp
  assume t: "queued w t \<noteq> []"
  then have tn: "t \<noteq> db" using q i by (auto simp: queued_def)
  moreover have "t \<in> set (wq_order w)" unfolding k(3) using t by (auto simp: queued_def split: option.splits)
  ultimately have tr: "t \<in> set rest" "t \<noteq> db" using o by auto
  let ?a = "takeWhile (\<lambda>e. e \<noteq> t) rest"
  have "db \<notin> set ?a" using k(1) o by (auto dest: set_takeWhileD)
  then have "e \<noteq> db" if "e \<in> set ?a" for e using that by auto
  then have "map (credit w1) ?a = map (credit w) ?a" using q1(2) by (simp add: credit_def)
  from arg_cong [OF this, of sum_list] have "sum_list (map (credit w1) ?a) = sum_list (map (credit w) ?a)" .
  moreover have "ahead w1 t = ?a" "ahead w t = db # ?a" using takeWhile_rotate [OF tr(2,1)] o tr(2) by (simp_all add: ahead_def w1)
  ultimately show "debt w1 t \<le> debt w t" by (simp add: debt_def)
qed

lemma pop_scan_outcome:
  assumes "wfq_ok w" and "n \<le> length (wq_order w)" and "i < n" and "queued w (wq_order w ! i) \<noteq> []"
  shows "\<exists>x d w'. pop_scan n w = (Some x, w') \<and> wfq_ok w' \<and> served w d x w' \<and> wq_total w' = wq_total w - 1 \<and>
    wq_capacity w' = wq_capacity w \<and> (\<forall>t. queued w t \<noteq> [] \<longrightarrow> t = d \<or> debt w' t < debt w t)"
  using assms
proof (induction n arbitrary: i w)
  case (Suc n)
  obtain db rest where o: "wq_order w = db # rest" using Suc.prems(2) by (cases "wq_order w") auto
  then have "db \<in> dom (map_of (wq_queues w))" using wfq_okD(3) [OF Suc.prems(1)] by auto
  then obtain vq where q: "map_of (wq_queues w) db = Some vq" by blast
  show ?case
  proof (cases "vq_items vq")
    case (Cons x its)
    define d where "d = turn_deficit w db vq - 1"
    define w1 where "w1 = w\<lparr>wq_queues := AList.update db \<lparr>vq_items = its, vq_deficit = d\<rparr> (wq_queues w), wq_total := wq_total w - 1\<rparr>"
    define w2 where "w2 = (if d = 0 then w1\<lparr>wq_order := rest @ [db]\<rparr> else w1)"
    note f = pop_front [OF Suc.prems(1) o q Cons d_def w1_def w2_def]
    note v = pop_counted_view [OF f(1)]
    have "pop_scan (Suc n) w = (Some x, pop_counted w2)"
      by (simp add: o q Cons Let_def d_def w1_def w2_def)
    moreover have s: "served w db x (pop_counted w2)" using f(2) v(2) by (simp add: served_def)
    moreover have "debt (pop_counted w2) t < debt w t" if "queued w t \<noteq> []" "t \<noteq> db" for t
    proof -
      have "queued w2 t \<noteq> []" using f(2) that by (simp add: served_def)
      from debt_counted [OF f(1) this] f(5) [OF that(2,1)] show ?thesis by simp
    qed
    ultimately show ?thesis using v(1,3,4) f(3,4) by (intro exI [of _ x] exI [of _ db] exI [of _ "pop_counted w2"]) auto
  next
    case Nil
    define w1 where "w1 = w\<lparr>wq_queues := AList.update db (vq\<lparr>vq_deficit := 0\<rparr>) (wq_queues w), wq_order := rest @ [db]\<rparr>"
    note r = rotate_empty [OF Suc.prems(1) o q Nil w1_def]
    have qe: "queued w1 e = queued w e" for e using rotate_empty(2) [OF Suc.prems(1) o q Nil w1_def] .
    have i0: "i \<noteq> 0" using Suc.prems(4) o q Nil by (cases i) (auto simp: queued_def)
    have "i - 1 < length rest" using Suc.prems(2,3) i0 o by auto
    then have "wq_order w1 ! (i - 1) = wq_order w ! i" using i0 o by (simp add: w1_def nth_append nth_Cons')
    then have "queued w1 (wq_order w1 ! (i - 1)) \<noteq> []" using Suc.prems(4) qe by simp
    moreover have "n \<le> length (wq_order w1)" "i - 1 < n" using Suc.prems(2,3) o i0 by (simp_all add: w1_def)
    ultimately obtain x d w' where h: "pop_scan n w1 = (Some x, w')" "wfq_ok w'" "served w1 d x w'" "wq_total w' = wq_total w1 - 1"
      "wq_capacity w' = wq_capacity w1" "\<And>t. queued w1 t \<noteq> [] \<Longrightarrow> t = d \<or> debt w' t < debt w1 t"
      using Suc.IH [OF r(1)] by metis
    have "served w d x w'" using h(3) qe by (simp add: served_def)
    moreover have "t = d \<or> debt w' t < debt w t" if "queued w t \<noteq> []" for t
      using h(6) [of t] qe [of t] rotate_empty(3) [OF Suc.prems(1) o q Nil w1_def that] that by auto
    moreover have "pop_scan (Suc n) w = (Some x, w')" using h(1) by (simp add: o q Nil w1_def)
    ultimately show ?thesis using h(2,4,5) by (intro exI [of _ x] exI [of _ d] exI [of _ w']) (simp add: w1_def)
  qed
qed simp

lemma pop_next_outcome:
  assumes "wfq_ok w"
  shows "if wq_total w = 0 then pop_next w = (None, w)
    else \<exists>x d w'. pop_next w = (Some x, w') \<and> wfq_ok w' \<and> served w d x w' \<and> wq_total w' = wq_total w - 1 \<and>
      wq_capacity w' = wq_capacity w \<and> (\<forall>t. queued w t \<noteq> [] \<longrightarrow> t = d \<or> debt w' t < debt w t)"
proof (cases "wq_total w = 0")
  case False
  then have "\<not> (\<forall>d\<in>set (wq_order w). queued w d = [])" using wfq_okD(4) [OF assms] by auto
  then obtain i where "i < length (wq_order w)" "queued w (wq_order w ! i) \<noteq> []" by (auto simp: in_set_conv_nth)
  from pop_scan_outcome [OF assms order.refl this] False show ?thesis by (simp add: pop_next_def)
qed (simp add: pop_next_def)

lemma try_enqueue_outcome:
  assumes "wfq_ok w" and "try_enqueue d x w = (res, w')"
  shows "if wq_total w < wq_capacity w
    then res = Inr () \<and> wfq_ok w' \<and> wq_capacity w' = wq_capacity w \<and> wq_total w' = wq_total w + 1 \<and>
      queued w' d = queued w d @ [x] \<and> (\<forall>e. e \<noteq> d \<longrightarrow> queued w' e = queued w e) \<and>
      (\<forall>t. queued w t \<noteq> [] \<longrightarrow> debt w' t = debt w t)
    else res = Inl x \<and> w' = w"
proof (cases "wq_total w < wq_capacity w")
  case True
  note k = wfq_okD [OF assms(1)]
  define w1 where "w1 = (if map_of (wq_queues w) d = None
    then w\<lparr>wq_queues := AList.update d virtual_queue_new (wq_queues w), wq_order := wq_order w @ [d]\<rparr> else w)"
  define vq where "vq = the (map_of (wq_queues w1) d)"
  have w': "res = Inr ()" "w' = w1\<lparr>wq_queues := AList.update d (vq\<lparr>vq_items := vq_items vq @ [x]\<rparr>) (wq_queues w1), wq_total := wq_total w + 1\<rparr>"
    using assms(2) True by (simp_all add: try_enqueue_def Let_def w1_def [symmetric] vq_def [symmetric])
  have q1: "queued w1 e = queued w e" "deficit w1 e = deficit w e" "wq_capacity w1 = wq_capacity w" "wq_total w1 = wq_total w" for e
    by (auto simp: w1_def queued_def deficit_def update_conv' virtual_queue_new_def)
  have s1: "set (wq_order w1) = dom (map_of (wq_queues w1))" "distinct (wq_order w1)" "distinct (map fst (wq_queues w1))" "d \<in> set (wq_order w1)"
    using k(1-3) by (auto simp: w1_def dom_update dom_map_of_conv_image_fst distinct_update intro: rev_image_eqI)
  have "(\<Sum>e\<in>set (wq_order w1). length (queued w e)) = (\<Sum>e\<in>set (wq_order w). length (queued w e))"
    by (intro sum.mono_neutral_right) (auto simp: w1_def queued_def)
  then have ok1: "wfq_ok w1" using k s1 q1 by (simp add: wfq_ok_def)
  have md: "map_of (wq_queues w1) d = Some vq" using s1(1,4) by (auto simp: vq_def)
  have qd: "queued w d = vq_items vq" "deficit w d = vq_deficit vq" using md q1(1,2) [of d] by (simp_all add: queued_def deficit_def)
  have q': "queued w' e = (if e = d then queued w d @ [x] else queued w e)" "deficit w' e = deficit w e" for e
    using q1(1,2) qd by (simp_all add: w'(2) queued_update deficit_update)
  have o': "wq_order w' = wq_order w1" by (simp add: w'(2))
  have "(\<Sum>e\<in>set (wq_order w1). length (queued w' e)) = Suc (\<Sum>e\<in>set (wq_order w1). length (queued w e))"
    using sum.remove [OF finite_set s1(4), of "\<lambda>e. length (queued w' e)"] sum.remove [OF finite_set s1(4), of "\<lambda>e. length (queued w e)"]
    by (simp add: q')
  moreover have "wq_total w = (\<Sum>e\<in>set (wq_order w1). length (queued w e))" using wfq_okD(4) [OF ok1] q1 by simp
  moreover have "dom (map_of (wq_queues w')) = insert d (set (wq_order w1))" unfolding s1(1) by (simp add: w'(2) update_conv')
  then have "set (wq_order w1) = dom (map_of (wq_queues w'))" using s1(4) by (metis insert_absorb)
  moreover have "distinct (map fst (wq_queues w'))" using s1(3) by (simp add: w'(2) distinct_update)
  moreover have "wq_total w' = Suc (wq_total w)" "wq_capacity w' = wq_capacity w" using q1(3) by (simp_all add: w'(2))
  moreover have "deficit w' e \<le> 4" for e using q'(2) k(6) [of e] by simp
  ultimately have "wfq_ok w'" using s1(2) True unfolding wfq_ok_def o' by (metis Suc_leI)
  moreover have "debt w' t = debt w t" if "queued w t \<noteq> []" for t
  proof -
    have "t \<in> set (wq_order w)" unfolding k(3) using that by (auto simp: queued_def split: option.splits)
    then have "ahead w' t = ahead w t" using takeWhile_append1 by (fastforce simp: ahead_def o' w1_def)
    moreover have "credit w' = credit w" using q'(2) by (simp add: fun_eq_iff credit_def)
    ultimately show ?thesis by (simp add: debt_def)
  qed
  ultimately show ?thesis using True w' q' q1(3) by simp
qed (use assms(2) in \<open>simp add: try_enqueue_def\<close>)

lemma set_priority_view:
  "wfq_ok (set_priority d c w) = wfq_ok w" "queued (set_priority d c w) t = queued w t" "debt (set_priority d c w) t = debt w t"
  "wq_total (set_priority d c w) = wq_total w" "wq_capacity (set_priority d c w) = wq_capacity w"
proof -
  have "credit (set_priority d c w) = credit w" by (simp add: fun_eq_iff credit_def deficit_def set_priority_def)
  then show "debt (set_priority d c w) t = debt w t" by (simp add: debt_def ahead_def set_priority_def)
qed (simp_all add: wfq_ok_def queued_def deficit_def set_priority_def)

section \<open>Draining\<close>

lemma pop_scan_total: "pop_scan n w = (Some x, w') \<Longrightarrow> wq_total w' = wq_total w - 1"
proof (induction n arbitrary: w)
  case (Suc n)
  have "wq_total (pop_counted v) = wq_total v" for v :: "'a wfq" by (simp add: pop_counted_def reap_empty_queues_def Let_def)
  then show ?case using Suc by (auto simp: Let_def split: list.splits option.splits if_splits)
qed simp

lemma pop_next_total: "pop_next w = (Some x, w') \<Longrightarrow> wq_total w' < wq_total w"
  using pop_scan_total [of "length (wq_order w)" w x w'] by (auto simp: pop_next_def split: if_splits)

function drain :: "'a wfq \<Rightarrow> 'a list \<times> 'a wfq" where
  "drain w = (case pop_next w of
     (None, w1) \<Rightarrow> ([], w1)
   | (Some x, w1) \<Rightarrow> (case drain w1 of (xs, w2) \<Rightarrow> (x # xs, w2)))"
  by pat_completeness auto
termination by (relation "measure wq_total") (auto intro: pop_next_total sym)

declare drain.simps [simp del]

section \<open>Runs\<close>

datatype 'a wfq_call = Enqueue u64 'a | SetPriority u64 priority_class | PopNext

text \<open>The items accepted with their database, and the items handed out.\<close>

record 'a wfq_run =
  wr_queue :: "'a wfq"
  wr_in :: "(u64 \<times> 'a) list"
  wr_out :: "'a list"

fun run_call :: "'a wfq_call \<Rightarrow> 'a wfq_run \<Rightarrow> 'a wfq_run" where
  "run_call (Enqueue d x) r = (case try_enqueue d x (wr_queue r) of (res, w) \<Rightarrow>
     r\<lparr>wr_queue := w, wr_in := wr_in r @ (case res of Inr _ \<Rightarrow> [(d, x)] | Inl _ \<Rightarrow> [])\<rparr>)"
| "run_call (SetPriority d c) r = r\<lparr>wr_queue := set_priority d c (wr_queue r)\<rparr>"
| "run_call PopNext r = (case pop_next (wr_queue r) of (res, w) \<Rightarrow>
     r\<lparr>wr_queue := w, wr_out := wr_out r @ (case res of Some x \<Rightarrow> [x] | None \<Rightarrow> [])\<rparr>)"

definition run_calls :: "'a wfq_call list \<Rightarrow> 'a wfq \<Rightarrow> 'a wfq_run" where
  "run_calls cs w = fold run_call cs \<lparr>wr_queue = w, wr_in = [], wr_out = []\<rparr>"

text \<open>The items of one database in a tagged list.\<close>

definition items_of :: "u64 \<Rightarrow> (u64 \<times> 'a) list \<Rightarrow> 'a list" where
  "items_of d xs = map snd (filter (\<lambda>(e, _). e = d) xs)"

lemma items_of_append [simp]: "items_of d (xs @ ys) = items_of d xs @ items_of d ys"
  and items_of_single [simp]: "items_of d [(e, x)] = (if e = d then [x] else [])" and items_of_Nil [simp]: "items_of d [] = []"
  and items_of_Cons: "items_of d ((e, x) # xs) = (if e = d then x # items_of d xs else items_of d xs)"
  by (auto simp: items_of_def)

lemma total_zero: "wfq_ok w \<Longrightarrow> wq_total w = 0 \<longleftrightarrow> (\<forall>d. queued w d = [])"
proof -
  assume ok: "wfq_ok w"
  have "queued w d = []" if "d \<notin> set (wq_order w)" for d
    using that wfq_okD(3) [OF ok] by (auto simp: queued_def split: option.split)
  then show ?thesis using wfq_okD(4) [OF ok] by auto
qed

lemma drain_outcome:
  assumes "wfq_ok w" and "drain w = (xs, w')"
  shows "wfq_ok w' \<and> wq_total w' = 0 \<and> (\<exists>ds. length ds = length xs \<and> (\<forall>d. items_of d (zip ds xs) = queued w d))"
  using assms
proof (induction w arbitrary: xs rule: drain.induct)
  case (1 w)
  show ?case
  proof (cases "wq_total w = 0")
    case True
    then have "xs = []" "w' = w" using "1.prems"(2) by (simp_all add: drain.simps [of w] pop_next_def)
    moreover have "queued w d = []" for d using total_zero [OF "1.prems"(1)] True by simp
    ultimately show ?thesis using True "1.prems"(1) by (intro conjI exI [of _ "[]"]) simp_all
  next
    case False
    with pop_next_outcome [OF "1.prems"(1)] obtain x d w1 where
      p: "pop_next w = (Some x, w1)" "wfq_ok w1" "served w d x w1" by auto
    obtain ys w2 where dr: "drain w1 = (ys, w2)" by fastforce
    then have xs: "xs = x # ys" "w2 = w'" using "1.prems"(2) p(1) by (simp_all add: drain.simps [of w])
    from "1.IH" [OF p(1) [symmetric] refl p(2)] dr xs(2) obtain ds where
      ds: "wfq_ok w'" "wq_total w' = 0" "length ds = length ys" "\<forall>e. items_of e (zip ds ys) = queued w1 e" by auto
    have "items_of e (zip (d # ds) xs) = queued w e" for e using ds(4) p(3) by (auto simp: xs(1) items_of_Cons served_def)
    then show ?thesis using ds(1-3) xs(1) by (intro conjI exI [of _ "d # ds"]) simp_all
  qed
qed

text \<open>What went in is what came out, followed by what is still queued, for each database.\<close>

definition run_inv :: "'a wfq_run \<Rightarrow> bool" where
  "run_inv r \<longleftrightarrow> wfq_ok (wr_queue r) \<and> (\<exists>ds. length ds = length (wr_out r) \<and>
     (\<forall>d. items_of d (wr_in r) = items_of d (zip ds (wr_out r)) @ queued (wr_queue r) d))"

lemma run_inv_call: "run_inv r \<Longrightarrow> run_inv (run_call c r)"
proof -
  assume r: "run_inv r"
  then obtain ds where ok: "wfq_ok (wr_queue r)" and ds: "length ds = length (wr_out r)"
    "\<And>d. items_of d (wr_in r) = items_of d (zip ds (wr_out r)) @ queued (wr_queue r) d" by (auto simp: run_inv_def)
  show ?thesis
  proof (cases c)
    case (Enqueue d x)
    obtain res w where e: "try_enqueue d x (wr_queue r) = (res, w)" by fastforce
    from try_enqueue_outcome [OF ok e] show ?thesis using ok ds
      by (auto simp: Enqueue e run_inv_def split: if_splits intro!: exI [of _ ds])
  next
    case (SetPriority d cls)
    then show ?thesis using ok ds by (auto simp: run_inv_def set_priority_view)
  next
    case PopNext
    show ?thesis
    proof (cases "wq_total (wr_queue r) = 0")
      case True
      then show ?thesis using r by (simp add: PopNext pop_next_def)
    next
      case False
      with pop_next_outcome [OF ok] obtain x d w where
        p: "pop_next (wr_queue r) = (Some x, w)" "wfq_ok w" "served (wr_queue r) d x w" by auto
      have "items_of e (zip (ds @ [d]) (wr_out r @ [x])) = items_of e (zip ds (wr_out r)) @ (if e = d then [x] else [])" for e
        using ds(1) by simp
      then show ?thesis using p ds by (auto simp: PopNext run_inv_def served_def intro!: exI [of _ "ds @ [d]"])
    qed
  qed
qed

lemma run_inv_run: "run_inv (run_calls cs (wfq_new cap k))"
  unfolding run_calls_def
proof (induction cs rule: rev_induct)
  case Nil
  then show ?case using wfq_ok_new [of cap k] by (simp add: run_inv_def queued_def) (simp add: wfq_new_def)
next
  case (snoc c cs)
  then show ?case by (simp add: run_inv_call)
qed

section \<open>Fairness\<close>

definition pops :: "'a wfq_call list \<Rightarrow> nat" where
  "pops cs = length (filter (\<lambda>c. case c of PopNext \<Rightarrow> True | _ \<Rightarrow> False) cs)"

lemma pops_simps [simp]: "pops [] = 0" "pops (PopNext # cs) = Suc (pops cs)" "pops (Enqueue d x # cs) = pops cs" "pops (SetPriority d c # cs) = pops cs"
  by (simp_all add: pops_def)

lemma run_queue_cong: "wr_queue r = wr_queue r' \<Longrightarrow> wr_queue (fold run_call cs r) = wr_queue (fold run_call cs r')"
proof (induction cs arbitrary: r r')
  case (Cons c cs)
  have "wr_queue (run_call c r) = wr_queue (run_call c r')" by (cases c) (simp_all add: Cons.prems split: prod.split)
  from Cons.IH [OF this] show ?case by simp
qed simp

lemma run_queue_Cons: "wr_queue (run_calls (c # cs) w) = wr_queue (run_calls cs (wr_queue (run_calls [c] w)))"
  by (simp add: run_calls_def, rule run_queue_cong) simp

lemma debt_le: "wfq_ok w \<Longrightarrow> debt w t \<le> 4 * length (ahead w t)"
proof -
  assume "wfq_ok w"
  then have "credit w d \<le> 4" for d using wfq_okD(6) [of w d] by (simp add: credit_def)
  then have "sum_list (map (credit w) xs) \<le> 4 * length xs" for xs by (induction xs) (auto simp: add_le_mono)
  then show ?thesis by (simp add: debt_def)
qed

text \<open>A call that does not serve the database keeps its head in place and does not put anything before it; a pop
  brings it nearer.\<close>

lemma call_waits:
  assumes ok: "wfq_ok w" and q: "queued w t = x # xs" and w': "w' = wr_queue (run_calls [c] w)"
  shows "(c = PopNext \<and> pop_next w = (Some x, w') \<and> served w t x w') \<or>
    wfq_ok w' \<and> (\<exists>ys. queued w' t = x # ys) \<and> debt w' t + pops [c] \<le> debt w t"
proof (cases c)
  case (Enqueue d y)
  obtain res v where e: "try_enqueue d y w = (res, v)" by fastforce
  have "w' = v" by (simp add: w' run_calls_def Enqueue e)
  then show ?thesis using try_enqueue_outcome [OF ok e] ok q by (auto simp: Enqueue split: if_splits) (metis append_Cons)
next
  case (SetPriority d cls)
  then have "w' = set_priority d cls w" by (simp add: w' run_calls_def)
  then show ?thesis using ok q by (simp add: SetPriority set_priority_view)
next
  case PopNext
  have "wq_total w \<noteq> 0" using total_zero [OF ok] q by (metis list.distinct(1))
  with pop_next_outcome [OF ok] obtain y d v where
    p: "pop_next w = (Some y, v)" "wfq_ok v" "served w d y v" "\<forall>t. queued w t \<noteq> [] \<longrightarrow> t = d \<or> debt v t < debt w t" by auto
  have "w' = v" by (simp add: w' run_calls_def PopNext p(1))
  moreover have "t = d \<or> debt v t < debt w t" using p(4) q by (metis list.distinct(1))
  ultimately show ?thesis using p(1-3) q by (cases "t = d") (auto simp: PopNext served_def Suc_le_eq)
qed

lemma waits_served:
  assumes "wfq_ok w" and "queued w t = x # xs" and "debt w t < pops cs"
  shows "\<exists>a b v v'. cs = a @ PopNext # b \<and> pops a \<le> debt w t \<and> v = wr_queue (run_calls a w) \<and>
    pop_next v = (Some x, v') \<and> served v t x v'"
  using assms
proof (induction cs arbitrary: w xs)
  case (Cons c cs)
  define w' where "w' = wr_queue (run_calls [c] w)"
  from call_waits [OF Cons.prems(1,2) w'_def] show ?case
  proof (elim disjE conjE exE)
    assume "c = PopNext" "pop_next w = (Some x, w')" "served w t x w'"
    then show ?thesis by (intro exI [of _ "[]"] exI [of _ cs] exI [of _ w] exI [of _ w']) (simp add: run_calls_def)
  next
    fix ys
    assume n: "wfq_ok w'" "queued w' t = x # ys" "debt w' t + pops [c] \<le> debt w t"
    have pc: "pops (c # as) = pops [c] + pops as" for as by (cases c) simp_all
    then have "debt w' t < pops cs" using n(3) Cons.prems(3) pc [of cs] by linarith
    with Cons.IH [OF n(1,2)] obtain a b v v' where
      a: "cs = a @ PopNext # b" "pops a \<le> debt w' t" "v = wr_queue (run_calls a w')" "pop_next v = (Some x, v')" "served v t x v'" by blast
    then show ?thesis using pc [of a] n(3) run_queue_Cons [of c a w]
      by (intro exI [of _ "c # a"] exI [of _ b] exI [of _ v] exI [of _ v']) (simp add: w'_def)
  qed
qed simp

end
