(* ===== verification/Bridge_Properties.thy ===== *)
theory Bridge_Properties
  imports Bridge_Channel Bridge_Wfq
begin

text \<open>
  Properties of the bridge between the planes: the ring under every interleaving of its producer and
  consumer, the two-way channel under every sequence of calls, and the dispatch queue in front of it.
\<close>

section \<open>The ring\<close>

lemma bridge_inv_prefix:
  assumes "bridge_inv b"
  shows "\<exists>ys. br_pushed b = br_popped b @ taken (br_consumer b) @ ys \<and> length (taken (br_consumer b)) + length ys \<le> rb_capacity (br_ring b)"
proof -
  let ?k = "length (br_popped b) + length (taken (br_consumer b))"
  from assms obtain ct where i: "ring_inv (br_ring b) (br_pushed b) (length (br_popped b)) (length (taken (br_consumer b))) ct"
    and t: "br_popped b @ taken (br_consumer b) = take ?k (br_pushed b)" by (auto simp: bridge_inv_def)
  have "br_pushed b = (br_popped b @ taken (br_consumer b)) @ drop ?k (br_pushed b)" by (simp only: t append_take_drop_id)
  moreover have "?k + length (drop ?k (br_pushed b)) \<le> length (br_popped b) + rb_capacity (br_ring b)"
    using i by (auto simp: ring_inv_def)
  ultimately show ?thesis by (intro exI [of _ "drop ?k (br_pushed b)"]) simp
qed

lemma bridge_slots_apart:
  assumes inv: "bridge_inv b" and p: "br_producer b = PRoom v \<or> br_producer b = PWritten v" and c: "br_consumer b = CTake (Suc n) vs"
  shows "slot_of (rb_tail (br_ring b)) (br_ring b) \<noteq> slot_of (rb_head (br_ring b) + of_nat (length vs)) (br_ring b)"
proof -
  let ?r = "br_ring b" and ?xs = "br_pushed b" and ?c = "length (br_popped b)"
  from inv c obtain ct where i: "ring_inv ?r ?xs ?c (length vs) ct" "?c + length vs + Suc n \<le> ct"
    by (auto simp: bridge_inv_def taken_def left_def)
  have "has_room ?r ?xs ?c" using inv p by (auto simp: bridge_inv_def producer_ok_def)
  from has_room_lt [OF this] have l: "length ?xs < ?c + rb_capacity ?r" .
  have r: "cap_ok ?r" "rb_tail ?r = of_nat (length ?xs)" "rb_head ?r = of_nat ?c" "ct \<le> length ?xs" using i(1) by (simp_all add: ring_inv_def)
  have "(?c + length vs) mod rb_capacity ?r \<noteq> length ?xs mod rb_capacity ?r"
    using mod_distinct [of ?c "?c + length vs" "length ?xs" "rb_capacity ?r"] l i(2) r(4) by linarith
  then show ?thesis using slot_of_nat [OF r(1), of "length ?xs"] slot_of_nat [OF r(1), of "?c + length vs"] r(2,3) by simp
qed

text \<open>
  C31. The ring is a bounded queue under every interleaving. Whatever the order in which
  the atomic accesses of one producer and one consumer meet (pushes, pops, drains, and either half
  dropped), what was published is what was handed out, followed by what the consumer holds, followed by what
  is pending, never more than the capacity; the counters may wrap. The consumer never finds a
  slot empty, so the \<open>expect\<close> in the code cannot fire, and a slot being written is never the slot
  being read: the \<open>unsafe\<close> cell accesses do not race.
\<close>

theorem ring_fifo:
  assumes "channel c = Some r" and "c \<le> 2 ^ 63" and "bridge_step\<^sup>*\<^sup>* (bridge_new r) b"
  shows "(\<exists>ys. br_pushed b = br_popped b @ taken (br_consumer b) @ ys \<and>
        length (taken (br_consumer b)) + length ys \<le> rb_capacity r) \<and>
    br_consumer b \<noteq> CPanicked \<and>
    (\<forall>v n vs. (br_producer b = PRoom v \<or> br_producer b = PWritten v) \<and> br_consumer b = CTake (Suc n) vs \<longrightarrow>
       slot_of (rb_tail (br_ring b)) (br_ring b) \<noteq> slot_of (rb_head (br_ring b) + of_nat (length vs)) (br_ring b))"
proof -
  have i: "bridge_inv b" by (rule bridge_inv_reachable [OF assms])
  have "rb_capacity (br_ring b) = rb_capacity r" using capacity_steps [OF assms(3)] by (simp add: bridge_new_def)
  then show ?thesis using bridge_inv_prefix [OF i] bridge_slots_apart [OF i] i by (simp add: bridge_inv_def) blast
qed

section \<open>The channel\<close>

text \<open>
  C34. The channel neither loses, repeats nor reorders. After any calls of both sides
  on a new channel (sends, receives, drains, handles dropped), the requests accepted are the requests
  received followed by those pending, and so are the responses; no more are pending than the ring holds.
  A request is refused exactly when the peer is gone or the ring is full, and after every send
  the pressure state is the one the thresholds allow at the resulting utilization.
\<close>

theorem bridge_exchange:
  assumes "bridge_channel_new a b = Some ch" and "a \<le> 2 ^ 57" and "b \<le> 2 ^ 57"
    and "x = fold exchange_call cs (exchange_new ch)" and "try_send_request v (ex_channel x) = (res, ch')"
  shows "requests_in x = requests_out x @ contents (bc_req (ex_channel x)) \<and>
    responses_in x = responses_out x @ contents (bc_rsp (ex_channel x)) \<and>
    length (contents (bc_req (ex_channel x))) \<le> rb_capacity (bc_req ch) \<and>
    length (contents (bc_rsp (ex_channel x))) \<le> rb_capacity (bc_rsp ch) \<and>
    res = (if rb_disconnected (bc_req (ex_channel x)) then Inl (Disconnected ''consumer'')
      else if length (contents (bc_req (ex_channel x))) < rb_capacity (bc_req ch) then Inr ()
      else Inl (Full (rb_capacity (bc_req ch)) (rb_capacity (bc_req ch)))) \<and>
    pressure_fits backpressure_default (length (contents (bc_req ch')) * 100 div rb_capacity (bc_req ch)) (pressure ch')"
proof -
  let ?m = "next_power_of_two a" and ?n = "next_power_of_two b"
  have i: "exchange_inv ?m ?n x" unfolding assms(4) by (rule exchange_inv_run [OF assms(1)]) (use assms(2,3) in simp_all)
  have n: "rb_capacity (bc_req ch) = ?m" "rb_capacity (bc_rsp ch) = ?n" "0 < a"
    using assms(1) by (auto simp: bridge_channel_new_def channel_def Let_def split: option.splits if_splits)
  have "?m \<le> 2 ^ 57" by (rule next_power_of_two_le [OF n(3) assms(2)])
  note send_outcome [OF i this assms(5)]
  moreover have "length (contents (bc_req (ex_channel x))) \<le> ?m" "length (contents (bc_rsp (ex_channel x))) \<le> ?n"
    using i ring_wf_len by (fastforce simp: exchange_inv_def)+
  ultimately show ?thesis using i unfolding n(1,2) by (simp add: exchange_inv_def)
qed

section \<open>The dispatch queue\<close>

lemma queue_ok: "wfq_ok (wr_queue (run_calls cs (wfq_new cap k)))"
  using run_inv_run [of cs cap k] by (simp add: run_inv_def)

text \<open>
  C32. No database starves. Take any queue the calls can reach, in which a
  database waits behind \<open>p\<close> others. Whatever is enqueued, reprioritised or reaped meanwhile, among the next
  \<open>4 p + 1\<close> pops one returns the item at the front of its queue.
\<close>

theorem wfq_no_starvation:
  assumes "w = wr_queue (run_calls cs (wfq_new cap k))" and "queued w d = x # xs"
    and "4 * length (ahead w d) < pops ds"
  shows "\<exists>a b v v'. ds = a @ PopNext # b \<and> pops a \<le> 4 * length (ahead w d) \<and> v = wr_queue (run_calls a w) \<and>
    pop_next v = (Some x, v') \<and> queued v d = x # queued v' d"
proof -
  have ok: "wfq_ok w" unfolding assms(1) by (rule queue_ok)
  have "debt w d < pops ds" using debt_le [OF ok, of d] assms(3) by linarith
  from waits_served [OF ok assms(2) this] obtain a b v v' where
    a: "ds = a @ PopNext # b" "pops a \<le> debt w d" "v = wr_queue (run_calls a w)" "pop_next v = (Some x, v')" "served v d x v'" by blast
  moreover have "pops a \<le> 4 * length (ahead w d)" using a(2) debt_le [OF ok, of d] by linarith
  ultimately show ?thesis by (metis served_def)
qed

text \<open>
  C33. The dispatch queue loses and invents nothing, and keeps the order of each database.
  After any calls on a new queue, the items accepted for a database are those handed out for it, in
  order, followed by those a drain now returns for it; a pop returns nothing exactly when nothing is
  queued, an enqueue is refused (handing the item back) exactly when the total capacity is reached, and a drain
  leaves the queue empty.
\<close>

theorem wfq_conserves:
  assumes "r = run_calls cs (wfq_new cap k)" and "drain (wr_queue r) = (rest, w')"
  shows "(\<exists>ds es. length ds = length (wr_out r) \<and> length es = length rest \<and>
      (\<forall>d. items_of d (wr_in r) = items_of d (zip ds (wr_out r)) @ items_of d (zip es rest) \<and>
        items_of d (zip es rest) = queued (wr_queue r) d)) \<and>
    (\<forall>d. queued w' d = []) \<and>
    (fst (pop_next (wr_queue r)) = None) = (\<forall>d. queued (wr_queue r) d = []) \<and>
    fst (try_enqueue d x (wr_queue r)) = (if wq_total (wr_queue r) < wq_capacity (wr_queue r) then Inr () else Inl x)"
proof -
  let ?q = "wr_queue r"
  have inv: "run_inv r" unfolding assms(1) by (rule run_inv_run)
  then obtain ds where ds: "length ds = length (wr_out r)"
    "\<forall>d. items_of d (wr_in r) = items_of d (zip ds (wr_out r)) @ queued ?q d" by (auto simp: run_inv_def)
  have ok: "wfq_ok ?q" using inv by (simp add: run_inv_def)
  from drain_outcome [OF ok assms(2)] obtain es where
    es: "wfq_ok w'" "wq_total w' = 0" "length es = length rest" "\<forall>d. items_of d (zip es rest) = queued ?q d" by blast
  have "(fst (pop_next ?q) = None) = (wq_total ?q = 0)" using pop_next_outcome [OF ok] by (cases "wq_total ?q = 0") auto
  then have "(fst (pop_next ?q) = None) = (\<forall>d. queued ?q d = [])" unfolding total_zero [OF ok] .
  moreover have "fst (try_enqueue d x ?q) = (if wq_total ?q < wq_capacity ?q then Inr () else Inl x)"
    by (simp add: try_enqueue_def Let_def not_less)
  moreover have "\<forall>d. queued w' d = []" using total_zero [OF es(1)] es(2) by blast
  ultimately show ?thesis using ds es(3,4) by metis
qed

section \<open>Witnesses\<close>

text \<open>A push completed, a pop under way and a second push under way, on a ring of two slots.\<close>

definition ring2 :: "nat ring" where
  "ring2 = \<lparr>rb_tail = 0, rb_head = 0, rb_slots = [None, None], rb_capacity = 2, rb_mask = 1, rb_disconnected = False,
     rb_metrics = metrics_new, cached_head = 0, cached_tail = 0\<rparr>"
definition br1 :: "nat bridge" where "br1 = (bridge_new ring2)\<lparr>br_producer := PChecked 7\<rparr>"
definition br2 :: "nat bridge" where "br2 = br1\<lparr>br_ring := snd (push_room (br_ring br1)), br_producer := PRoom 7\<rparr>"
definition br3 :: "nat bridge" where "br3 = br2\<lparr>br_ring := push_write 7 (br_ring br2), br_producer := PWritten 7\<rparr>"
definition br4 :: "nat bridge" where
  "br4 = br3\<lparr>br_ring := push_publish (br_ring br3), br_producer := PIdle, br_pushed := br_pushed br3 @ [7]\<rparr>"
definition br5 :: "nat bridge" where "br5 = br4\<lparr>br_ring := snd (pop_ready (br_ring br4)), br_consumer := CTake 1 []\<rparr>"
definition br6 :: "nat bridge" where "br6 = br5\<lparr>br_producer := PChecked 8\<rparr>"
definition br7 :: "nat bridge" where "br7 = br6\<lparr>br_ring := snd (push_room (br_ring br6)), br_producer := PRoom 8\<rparr>"

lemmas br_defs = br7_def br6_def br5_def br4_def br3_def br2_def br1_def

lemma ring2_eq: "channel 2 = Some ring2" and ring2_capacity: "rb_capacity ring2 = 2"
proof -
  have "next_power_of_two 2 = 2" by code_simp
  then show "channel 2 = Some ring2" by (simp add: channel_def ring2_def Let_def numeral_2_eq_2)
qed (simp add: ring2_def)

lemma br_values: "fst (push_room (br_ring br1)) = Inr ()" "fst (pop_ready (br_ring br4))" "fst (push_room (br_ring br6)) = Inr ()"
  "\<not> rb_disconnected ring2" "\<not> rb_disconnected (br_ring br5)"
  by (simp_all add: br_defs bridge_new_def ring2_def push_room_def push_write_def push_publish_def pop_ready_def Let_def word_le_nat_alt)

lemma br_reached: "bridge_step\<^sup>*\<^sup>* (bridge_new ring2) br7"
proof -
  have p: "push_room (br_ring br1) = (Inr (), snd (push_room (br_ring br1)))" "pop_ready (br_ring br4) = (True, snd (pop_ready (br_ring br4)))"
    "push_room (br_ring br6) = (Inr (), snd (push_room (br_ring br6)))"
    using br_values by (simp_all add: prod_eq_iff)
  have "bridge_step (bridge_new ring2) br1" unfolding br1_def by (rule PushOpen) (simp_all add: bridge_new_def br_values)
  moreover have "bridge_step br1 br2" unfolding br2_def by (rule PushRoom [OF _ p(1)]) (simp add: br1_def)
  moreover have "bridge_step br2 br3" unfolding br3_def by (rule PushWrite) (simp add: br2_def)
  moreover have "bridge_step br3 br4" unfolding br4_def by (rule PushPublish) (simp add: br3_def)
  moreover have "bridge_step br4 br5" using PopReady [OF _ p(2)] by (simp add: br5_def) (simp add: br_defs bridge_new_def)
  moreover have "bridge_step br5 br6" unfolding br6_def
    by (rule PushOpen [OF _ br_values(5)]) (simp add: br5_def br4_def)
  moreover have "bridge_step br6 br7" unfolding br7_def by (rule PushRoom [OF _ p(3)]) (simp add: br6_def)
  ultimately show ?thesis by (meson converse_rtranclp_into_rtranclp rtranclp.rtrancl_refl)
qed

theorem ring_fifo_witness:
  "bridge_step\<^sup>*\<^sup>* (bridge_new ring2) br7 \<and> br_pushed br7 = [7] \<and> br_producer br7 = PRoom 8 \<and> br_consumer br7 = CTake (Suc 0) [] \<and>
   (\<exists>ys. br_pushed br7 = br_popped br7 @ ys \<and> length ys \<le> 2) \<and>
   slot_of (rb_tail (br_ring br7)) (br_ring br7) \<noteq> slot_of (rb_head (br_ring br7)) (br_ring br7)"
proof -
  have s: "br_pushed br7 = [7]" "br_producer br7 = PRoom 8" "br_consumer br7 = CTake (Suc 0) []"
    by (simp_all add: br_defs bridge_new_def)
  show ?thesis using ring_fifo [OF ring2_eq _ br_reached] s by (auto simp: br_reached taken_def ring2_capacity)
qed

text \<open>A channel of one slot: the second request is refused and the sender is suspended.\<close>

definition channel1 :: "(nat, nat) bridge_channel" where "channel1 = the (bridge_channel_new 1 1)"
definition exchange1 :: "(nat, nat) exchange" where "exchange1 = fold exchange_call [SendRequest 1] (exchange_new channel1)"
definition ring1 :: "nat ring" where
  "ring1 = \<lparr>rb_tail = 0, rb_head = 0, rb_slots = [None], rb_capacity = 1, rb_mask = 0, rb_disconnected = False,
     rb_metrics = metrics_new, cached_head = 0, cached_tail = 0\<rparr>"

lemma ring1_eq: "channel (Suc 0) = Some ring1"
  by (simp add: channel_def next_power_of_two_def double_until.simps ring1_def)

lemma ring1_fields: "rb_capacity ring1 = 1" "\<not> rb_disconnected ring1" "rb_head ring1 = 0"
  by (simp_all add: ring1_def)

lemma ring1_push: "try_push v ring1 = (Inr (), ring1\<lparr>rb_slots := [Some v], rb_tail := 1, rb_metrics := record_push metrics_new\<rparr>)"
  "try_push v (ring1\<lparr>rb_slots := [Some w], rb_tail := 1, rb_metrics := m\<rparr>) =
     (Inl (Full 1 1), ring1\<lparr>rb_slots := [Some w], rb_tail := 1, rb_metrics := record_full m\<rparr>)"
  by (simp_all add: try_push_def ring1_def push_room_def push_write_def push_publish_def slot_of_def pending_for_def)

lemma exchange1_values: "requests_in exchange1 = [1]" "requests_out exchange1 = []" "rb_capacity (bc_req channel1) = 1"
  "\<not> rb_disconnected (bc_req (ex_channel exchange1))" "ring_len (bc_req (snd (try_send_request 4 (ex_channel exchange1)))) = 1"
  by (simp_all add: exchange1_def channel1_def bridge_channel_new_def ring1_eq exchange_new_def try_send_request_def ring1_push
      Let_def ring1_fields ring_len_def)

theorem bridge_exchange_witness:
  "\<exists>ch'. try_send_request 4 (ex_channel exchange1) = (Inl (Full 1 1), ch') \<and> contents (bc_req (ex_channel exchange1)) = [1] \<and>
     length (contents (bc_req ch')) = 1 \<and> pressure ch' = Suspended"
proof -
  obtain res ch' where s: "try_send_request 4 (ex_channel exchange1) = (res, ch')" by fastforce
  have c: "bridge_channel_new 1 1 = Some channel1" by (simp add: channel1_def bridge_channel_new_def channel_def Let_def)
  have l: "length (contents (bc_req ch')) = 1" using exchange1_values(5) by (simp add: s contents_def)
  have p: "p = Suspended" if "pressure_fits backpressure_default 100 p" for p
    using that by (cases p) (simp_all add: pressure_fits_def backpressure_default_def)
  note t = bridge_exchange [OF c _ _ exchange1_def s, unfolded exchange1_values l]
  have "pressure ch' = Suspended" using t by (intro p) simp
  moreover have q: "contents (bc_req (ex_channel exchange1)) = [1]" using t by simp
  moreover have "res = Inl (Full 1 1)" using t exchange1_values(4) by (simp add: q del: One_nat_def)
  ultimately show ?thesis using l s by simp
qed

definition calls1 :: "nat wfq_call list" where
  "calls1 = [SetPriority 1 Critical, Enqueue 1 10, Enqueue 1 11, Enqueue 1 12, Enqueue 1 13, Enqueue 1 14, Enqueue 2 20]"

theorem wfq_no_starvation_witness:
  "\<exists>w a b v v'. w = wr_queue (run_calls calls1 (wfq_new 8 4)) \<and> length (ahead w 2) = 1 \<and>
     [PopNext, Enqueue 1 15, PopNext, PopNext, SetPriority 2 Bulk, PopNext, PopNext] = a @ PopNext # b \<and> pops a \<le> 4 \<and>
     v = wr_queue (run_calls a w) \<and> pop_next v = (Some 20, v') \<and> queued v 2 = 20 # queued v' 2"
proof -
  define w where "w = wr_queue (run_calls calls1 (wfq_new 8 4))"
  have "queued w 2 = [20]" "length (ahead w 2) = 1" unfolding w_def by code_simp+
  with wfq_no_starvation [OF w_def, of 2 20 "[]" "[PopNext, Enqueue 1 15, PopNext, PopNext, SetPriority 2 Bulk, PopNext, PopNext]"]
  show ?thesis unfolding w_def [symmetric] by auto
qed

theorem wfq_conserves_witness:
  "\<exists>r w' ds es. r = run_calls (calls1 @ [PopNext, PopNext]) (wfq_new 5 4) \<and> wr_in r = [(1, 10), (1, 11), (1, 12), (1, 13), (1, 14)] \<and>
     wr_out r = [10, 11] \<and> drain (wr_queue r) = ([12, 13, 14], w') \<and> length ds = 2 \<and> length es = 3 \<and>
     (\<forall>d. items_of d (wr_in r) = items_of d (zip ds [10, 11]) @ items_of d (zip es [12, 13, 14])) \<and> (\<forall>d. queued w' d = [])"
proof -
  define r where "r = run_calls (calls1 @ [PopNext, PopNext]) (wfq_new 5 4)"
  have v: "fst (drain (wr_queue r)) = [12, 13, 14]" "wr_in r = [(1, 10), (1, 11), (1, 12), (1, 13), (1, 14)]" "wr_out r = [10, 11]"
    unfolding r_def by code_simp+
  obtain w' where d: "drain (wr_queue r) = ([12, 13, 14], w')" using v(1) by (metis prod.collapse)
  from wfq_conserves [OF r_def d, unfolded v(3)] obtain ds es where
    "length ds = length [10 :: nat, 11]" "length es = length [12 :: nat, 13, 14]" "\<forall>d. queued w' d = []"
    "\<forall>d. items_of d (wr_in r) = items_of d (zip ds [10, 11]) @ items_of d (zip es [12, 13, 14])" by blast
  then show ?thesis using r_def v d by (intro exI [of _ r] exI [of _ w'] exI [of _ ds] exI [of _ es]) simp
qed

end
