(* ===== verification/Mem_Governor.thy ===== *)
theory Mem_Governor
  imports Prelude "HOL-Library.AList"
begin

text \<open>
  The memory governor (\<open>nodedb-mem\<close>): a global ceiling, optional budgets per database and per
  tenant, and one budget per engine. A reservation credits the four layers in that order and rolls back
  what it credited when a layer refuses; dropping the token releases them in reverse. Sizes are
  \<open>usize\<close> with the wrap-around of \<open>+\<close> written out. A database or tenant counter is an
  \<open>Arc\<close> that outlives its entry, so the counters are a store with reference counts. Each
  compare-and-swap loop is one atomic access.
\<close>

section \<open>Engines, errors, pressure\<close>

datatype engine_id =
    Vector | Graph | DocumentSchemaless | DocumentStrict | Kv | Columnar | Timeseries | Spatial | Array | Fts
  | Sparse | Crdt | Query | Wal | Bridge

definition engine_all :: "engine_id list" where
  "engine_all = [Vector, Graph, DocumentSchemaless, DocumentStrict, Kv, Columnar, Timeseries, Spatial, Array, Fts,
     Sparse, Crdt, Query, Wal, Bridge]"

datatype mem_error =
    BudgetExhausted engine_id nat nat nat
  | GlobalCeilingExceeded nat nat nat
  | DatabaseBudgetExhausted u64 nat nat nat
  | TenantBudgetExhausted u64 u64 nat nat nat
  | Jemalloc string

datatype pressure_level = Normal | Warning | Critical | Emergency

record pressure_thresholds =
  pt_warning :: nat
  pt_critical :: nat
  pt_emergency :: nat

definition thresholds_default :: pressure_thresholds where
  "thresholds_default = \<lparr>pt_warning = 70, pt_critical = 85, pt_emergency = 95\<rparr>"

definition level_for :: "pressure_thresholds \<Rightarrow> nat \<Rightarrow> pressure_level" where
  "level_for t u =
     (if u \<ge> pt_emergency t then Emergency
      else if u \<ge> pt_critical t then Critical
      else if u \<ge> pt_warning t then Warning
      else Normal)"

text \<open>The derived order of the levels.\<close>

definition level_rank :: "pressure_level \<Rightarrow> nat" where
  "level_rank l = (case l of Normal \<Rightarrow> 0 | Warning \<Rightarrow> 1 | Critical \<Rightarrow> 2 | Emergency \<Rightarrow> 3)"

definition worse_level :: "pressure_level \<Rightarrow> pressure_level \<Rightarrow> pressure_level" where
  "worse_level a b = (if level_rank a \<le> level_rank b then b else a)"

section \<open>Counters\<close>

definition wrapping_add :: "nat \<Rightarrow> nat \<Rightarrow> nat" where
  "wrapping_add a b = (a + b) mod 2 ^ 64"

text \<open>The shortfall and the new value.\<close>

definition atomic_saturating_sub :: "nat \<Rightarrow> nat \<Rightarrow> nat \<times> nat" where
  "atomic_saturating_sub v sz = (if sz = 0 then (0, v) else (sz - v, v - sz))"

datatype layer = Global | Database | Tenant | Engine

record over_release =
  or_global :: nat
  or_database :: nat
  or_tenant :: nat
  or_engine :: nat

definition over_release_new :: over_release where
  "over_release_new = \<lparr>or_global = 0, or_database = 0, or_tenant = 0, or_engine = 0\<rparr>"

definition over_record :: "layer \<Rightarrow> nat \<Rightarrow> over_release \<Rightarrow> over_release" where
  "over_record l shortfall r =
     (if shortfall = 0 then r else
      case l of
        Global \<Rightarrow> r\<lparr>or_global := wrapping_add (or_global r) 1\<rparr>
      | Database \<Rightarrow> r\<lparr>or_database := wrapping_add (or_database r) 1\<rparr>
      | Tenant \<Rightarrow> r\<lparr>or_tenant := wrapping_add (or_tenant r) 1\<rparr>
      | Engine \<Rightarrow> r\<lparr>or_engine := wrapping_add (or_engine r) 1\<rparr>)"

definition over_total :: "over_release \<Rightarrow> nat" where
  "over_total r = wrapping_add (wrapping_add (wrapping_add (or_global r) (or_database r)) (or_tenant r)) (or_engine r)"

definition release_layer :: "nat \<Rightarrow> nat \<Rightarrow> layer \<Rightarrow> over_release \<Rightarrow> nat \<times> over_release" where
  "release_layer v sz l r =
     (case atomic_saturating_sub v sz of (shortfall, v') \<Rightarrow> (v', over_record l shortfall r))"

section \<open>Engine budgets\<close>

record budget =
  bg_limit :: nat
  bg_allocated :: nat
  bg_peak :: nat
  bg_rejections :: nat

definition budget_new :: "nat \<Rightarrow> budget" where
  "budget_new l = \<lparr>bg_limit = l, bg_allocated = 0, bg_peak = 0, bg_rejections = 0\<rparr>"

definition raise_peak :: "nat \<Rightarrow> budget \<Rightarrow> budget" where
  "raise_peak n b = (if n > bg_peak b then b\<lparr>bg_peak := n\<rparr> else b)"

definition budget_try_reserve :: "nat \<Rightarrow> budget \<Rightarrow> bool \<times> budget" where
  "budget_try_reserve sz b =
     (let n = wrapping_add (bg_allocated b) sz
      in if n > bg_limit b then (False, b\<lparr>bg_rejections := wrapping_add (bg_rejections b) 1\<rparr>)
         else (True, raise_peak n (b\<lparr>bg_allocated := n\<rparr>)))"

definition credit_arc :: "nat \<Rightarrow> budget \<Rightarrow> budget" where
  "credit_arc sz b = (let n = wrapping_add (bg_allocated b) sz in raise_peak n (b\<lparr>bg_allocated := n\<rparr>))"

definition budget_available :: "budget \<Rightarrow> nat" where
  "budget_available b = bg_limit b - bg_allocated b"

definition utilization_percent :: "budget \<Rightarrow> nat" where
  "utilization_percent b =
     (if bg_limit b = 0 then (if bg_allocated b = 0 then 0 else 100)
      else min (bg_allocated b * 100 div bg_limit b) 100)"

definition set_limit :: "nat \<Rightarrow> budget \<Rightarrow> budget" where
  "set_limit new_limit b = b\<lparr>bg_limit := max new_limit (bg_allocated b)\<rparr>"

section \<open>Database and tenant budgets\<close>

text \<open>A counter behind an \<open>Arc\<close>, with its strong count.\<close>

record counter =
  ct_value :: nat
  ct_strong :: nat

record scoped_budget =
  sb_limit :: "nat option"
  sb_counter :: nat

text \<open>The map of a scope, and the counters it has ever made.\<close>

record 'k scoped_map =
  sm_entries :: "('k \<times> scoped_budget) list"
  sm_counters :: "nat \<Rightarrow> counter"
  sm_next :: nat

definition scoped_map_new :: "'k scoped_map" where
  "scoped_map_new = \<lparr>sm_entries = [], sm_counters = (\<lambda>_. \<lparr>ct_value = 0, ct_strong = 0\<rparr>), sm_next = 0\<rparr>"

definition arc_clone :: "nat \<Rightarrow> 'k scoped_map \<Rightarrow> 'k scoped_map" where
  "arc_clone c m = m\<lparr>sm_counters := (sm_counters m)(c := (sm_counters m c)\<lparr>ct_strong := ct_strong (sm_counters m c) + 1\<rparr>)\<rparr>"

definition arc_drop :: "nat \<Rightarrow> 'k scoped_map \<Rightarrow> 'k scoped_map" where
  "arc_drop c m = m\<lparr>sm_counters := (sm_counters m)(c := (sm_counters m c)\<lparr>ct_strong := ct_strong (sm_counters m c) - 1\<rparr>)\<rparr>"

definition counter_set :: "nat \<Rightarrow> nat \<Rightarrow> 'k scoped_map \<Rightarrow> 'k scoped_map" where
  "counter_set c v m = m\<lparr>sm_counters := (sm_counters m)(c := (sm_counters m c)\<lparr>ct_value := v\<rparr>)\<rparr>"

definition scoped_credit :: "nat \<Rightarrow> scoped_budget \<Rightarrow> 'k scoped_map \<Rightarrow> nat \<times> 'k scoped_map" where
  "scoped_credit sz b m =
     (let c = sb_counter b in (c, arc_clone c (counter_set c (wrapping_add (ct_value (sm_counters m c)) sz) m)))"

text \<open>The cap that denied it, or the counter.\<close>

definition scoped_try_reserve :: "nat \<Rightarrow> scoped_budget \<Rightarrow> 'k scoped_map \<Rightarrow> (nat + nat) \<times> 'k scoped_map" where
  "scoped_try_reserve sz b m =
     (let c = sb_counter b; n = wrapping_add (ct_value (sm_counters m c)) sz
      in case sb_limit b of
           None \<Rightarrow> (Inr c, arc_clone c (counter_set c n m))
         | Some limit \<Rightarrow> if n > limit then (Inl limit, m) else (Inr c, arc_clone c (counter_set c n m)))"

definition scoped_available :: "scoped_budget \<Rightarrow> 'k scoped_map \<Rightarrow> nat" where
  "scoped_available b m =
     (case sb_limit b of Some limit \<Rightarrow> limit - ct_value (sm_counters m (sb_counter b)) | None \<Rightarrow> 2 ^ 64 - 1)"

definition set_scoped_limit :: "'k \<Rightarrow> nat \<Rightarrow> 'k scoped_map \<Rightarrow> 'k scoped_map" where
  "set_scoped_limit key max_bytes m =
     (case map_of (sm_entries m) key of
        Some b \<Rightarrow> m\<lparr>sm_entries := AList.update key (b\<lparr>sb_limit := Some max_bytes\<rparr>) (sm_entries m)\<rparr>
      | None \<Rightarrow> m\<lparr>sm_entries := AList.update key \<lparr>sb_limit = Some max_bytes, sb_counter = sm_next m\<rparr> (sm_entries m),
                  sm_counters := (sm_counters m)(sm_next m := \<lparr>ct_value = 0, ct_strong = 1\<rparr>),
                  sm_next := sm_next m + 1\<rparr>)"

definition clear_scoped_limit :: "'k \<Rightarrow> 'k scoped_map \<Rightarrow> 'k scoped_map" where
  "clear_scoped_limit key m =
     (case map_of (sm_entries m) key of
        None \<Rightarrow> m
      | Some b \<Rightarrow>
          if ct_strong (sm_counters m (sb_counter b)) = 1
          then arc_drop (sb_counter b) (m\<lparr>sm_entries := AList.delete key (sm_entries m)\<rparr>)
          else m\<lparr>sm_entries := AList.update key (b\<lparr>sb_limit := None\<rparr>) (sm_entries m)\<rparr>)"

text \<open>\<open>HashMap::retain\<close>: the entries that go drop their counters.\<close>

definition scoped_retain :: "('k \<Rightarrow> bool) \<Rightarrow> 'k scoped_map \<Rightarrow> 'k scoped_map" where
  "scoped_retain P m =
     fold (\<lambda>(_, b). arc_drop (sb_counter b)) (filter (\<lambda>(k, _). \<not> P k) (sm_entries m))
       (m\<lparr>sm_entries := filter (\<lambda>(k, _). P k) (sm_entries m)\<rparr>)"

section \<open>The governor\<close>

record governor =
  mg_budgets :: "engine_id \<Rightarrow> budget"
  gc_allocated :: nat
  gc_ceiling :: nat
  gc_over :: over_release
  mg_ceiling :: nat
  mg_thresholds :: pressure_thresholds
  mg_databases :: "u64 scoped_map"
  mg_tenants :: "(u64 \<times> u64) scoped_map"

definition limits_total :: "(engine_id \<Rightarrow> nat) \<Rightarrow> nat" where
  "limits_total l = fold (\<lambda>e n. wrapping_add n (l e)) engine_all 0"

definition validate :: "nat \<Rightarrow> (engine_id \<Rightarrow> nat) \<Rightarrow> mem_error + unit" where
  "validate ceiling l = (if limits_total l > ceiling then Inl (GlobalCeilingExceeded (limits_total l) ceiling 0) else Inr ())"

definition governor_new :: "nat \<Rightarrow> (engine_id \<Rightarrow> nat) \<Rightarrow> mem_error + governor" where
  "governor_new ceiling l =
     (case validate ceiling l of
        Inl e \<Rightarrow> Inl e
      | Inr _ \<Rightarrow> Inr \<lparr>mg_budgets = (\<lambda>e. budget_new (l e)), gc_allocated = 0, gc_ceiling = ceiling, gc_over = over_release_new,
          mg_ceiling = ceiling, mg_thresholds = thresholds_default, mg_databases = scoped_map_new, mg_tenants = scoped_map_new\<rparr>)"

definition set_database_budget :: "u64 \<Rightarrow> nat \<Rightarrow> governor \<Rightarrow> governor" where
  "set_database_budget db n g = g\<lparr>mg_databases := set_scoped_limit db n (mg_databases g)\<rparr>"

definition clear_database_budget :: "u64 \<Rightarrow> governor \<Rightarrow> governor" where
  "clear_database_budget db g = g\<lparr>mg_databases := clear_scoped_limit db (mg_databases g)\<rparr>"

definition set_tenant_budget :: "u64 \<Rightarrow> u64 \<Rightarrow> nat \<Rightarrow> governor \<Rightarrow> governor" where
  "set_tenant_budget db tenant n g = g\<lparr>mg_tenants := set_scoped_limit (db, tenant) n (mg_tenants g)\<rparr>"

definition clear_tenant_budget :: "u64 \<Rightarrow> u64 \<Rightarrow> governor \<Rightarrow> governor" where
  "clear_tenant_budget db tenant g = g\<lparr>mg_tenants := clear_scoped_limit (db, tenant) (mg_tenants g)\<rparr>"

definition clear_database_scope :: "u64 \<Rightarrow> governor \<Rightarrow> governor" where
  "clear_database_scope db g =
     g\<lparr>mg_databases := scoped_retain (\<lambda>d. d \<noteq> db) (mg_databases g),
       mg_tenants := scoped_retain (\<lambda>(d, _). d \<noteq> db) (mg_tenants g)\<rparr>"

definition clear_tenant_scope :: "u64 \<Rightarrow> governor \<Rightarrow> governor" where
  "clear_tenant_scope tenant g = g\<lparr>mg_tenants := scoped_retain (\<lambda>(_, t). t \<noteq> tenant) (mg_tenants g)\<rparr>"

definition total_allocated :: "governor \<Rightarrow> nat" where
  "total_allocated g = fold (\<lambda>e n. wrapping_add n (bg_allocated (mg_budgets g e))) engine_all 0"

definition global_utilization_percent :: "governor \<Rightarrow> nat" where
  "global_utilization_percent g =
     (if mg_ceiling g = 0 then (if gc_allocated g = 0 then 0 else 100)
      else min (gc_allocated g * 100 div mg_ceiling g) 100)"

definition engine_pressure :: "engine_id \<Rightarrow> governor \<Rightarrow> pressure_level" where
  "engine_pressure e g = level_for (mg_thresholds g) (utilization_percent (mg_budgets g e))"

definition global_pressure :: "governor \<Rightarrow> pressure_level" where
  "global_pressure g = level_for (mg_thresholds g) (global_utilization_percent g)"

definition worst_engine_pressure :: "governor \<Rightarrow> pressure_level" where
  "worst_engine_pressure g = fold (\<lambda>e l. worse_level l (engine_pressure e g)) engine_all Normal"

definition set_thresholds :: "pressure_thresholds \<Rightarrow> governor \<Rightarrow> governor" where
  "set_thresholds t g = g\<lparr>mg_thresholds := t\<rparr>"

section \<open>Reserving\<close>

record reserve_scope =
  rs_global_credited :: bool
  rs_database :: "nat option"
  rs_tenant :: "nat option"
  rs_engine :: "engine_id option"
  rs_size :: nat

definition scope_new :: "nat \<Rightarrow> reserve_scope" where
  "scope_new sz = \<lparr>rs_global_credited = False, rs_database = None, rs_tenant = None, rs_engine = None, rs_size = sz\<rparr>"

definition try_credit_global :: "reserve_scope \<Rightarrow> governor \<Rightarrow> (mem_error + unit) \<times> reserve_scope \<times> governor" where
  "try_credit_global s g =
     (if rs_size s = 0 then (Inr (), s\<lparr>rs_global_credited := True\<rparr>, g)
      else let n = wrapping_add (gc_allocated g) (rs_size s)
           in if n > gc_ceiling g then (Inl (GlobalCeilingExceeded (gc_allocated g) (gc_ceiling g) (rs_size s)), s, g)
              else (Inr (), s\<lparr>rs_global_credited := True\<rparr>, g\<lparr>gc_allocated := n\<rparr>))"

definition credit_global_unchecked :: "reserve_scope \<Rightarrow> governor \<Rightarrow> reserve_scope \<times> governor" where
  "credit_global_unchecked s g =
     (s\<lparr>rs_global_credited := True\<rparr>, g\<lparr>gc_allocated := wrapping_add (gc_allocated g) (rs_size s)\<rparr>)"

definition reserve_database :: "u64 \<Rightarrow> reserve_scope \<Rightarrow> governor \<Rightarrow> (mem_error + unit) \<times> reserve_scope \<times> governor" where
  "reserve_database db s g =
     (case map_of (sm_entries (mg_databases g)) db of
        None \<Rightarrow> (Inr (), s, g)
      | Some b \<Rightarrow>
          (case scoped_try_reserve (rs_size s) b (mg_databases g) of
             (Inr c, m) \<Rightarrow> (Inr (), s\<lparr>rs_database := Some c\<rparr>, g\<lparr>mg_databases := m\<rparr>)
           | (Inl limit, m) \<Rightarrow> (Inl (DatabaseBudgetExhausted db (rs_size s) (scoped_available b m) limit), s, g\<lparr>mg_databases := m\<rparr>)))"

definition reserve_tenant :: "u64 \<Rightarrow> u64 \<Rightarrow> reserve_scope \<Rightarrow> governor \<Rightarrow> (mem_error + unit) \<times> reserve_scope \<times> governor" where
  "reserve_tenant db tenant s g =
     (case map_of (sm_entries (mg_tenants g)) (db, tenant) of
        None \<Rightarrow> (Inr (), s, g)
      | Some b \<Rightarrow>
          (case scoped_try_reserve (rs_size s) b (mg_tenants g) of
             (Inr c, m) \<Rightarrow> (Inr (), s\<lparr>rs_tenant := Some c\<rparr>, g\<lparr>mg_tenants := m\<rparr>)
           | (Inl limit, m) \<Rightarrow> (Inl (TenantBudgetExhausted db tenant (rs_size s) (scoped_available b m) limit), s, g\<lparr>mg_tenants := m\<rparr>)))"

definition reserve_engine :: "engine_id \<Rightarrow> reserve_scope \<Rightarrow> governor \<Rightarrow> (mem_error + unit) \<times> reserve_scope \<times> governor" where
  "reserve_engine e s g =
     (case budget_try_reserve (rs_size s) (mg_budgets g e) of
        (True, b) \<Rightarrow> (Inr (), s\<lparr>rs_engine := Some e\<rparr>, g\<lparr>mg_budgets := (mg_budgets g)(e := b)\<rparr>)
      | (False, b) \<Rightarrow> (Inl (BudgetExhausted e (rs_size s) (budget_available b) (bg_limit b)), s, g\<lparr>mg_budgets := (mg_budgets g)(e := b)\<rparr>))"

definition charge_database :: "u64 \<Rightarrow> reserve_scope \<Rightarrow> governor \<Rightarrow> reserve_scope \<times> governor" where
  "charge_database db s g =
     (case map_of (sm_entries (mg_databases g)) db of
        None \<Rightarrow> (s, g)
      | Some b \<Rightarrow> (case scoped_credit (rs_size s) b (mg_databases g) of
          (c, m) \<Rightarrow> (s\<lparr>rs_database := Some c\<rparr>, g\<lparr>mg_databases := m\<rparr>)))"

definition charge_tenant :: "u64 \<Rightarrow> u64 \<Rightarrow> reserve_scope \<Rightarrow> governor \<Rightarrow> reserve_scope \<times> governor" where
  "charge_tenant db tenant s g =
     (case map_of (sm_entries (mg_tenants g)) (db, tenant) of
        None \<Rightarrow> (s, g)
      | Some b \<Rightarrow> (case scoped_credit (rs_size s) b (mg_tenants g) of
          (c, m) \<Rightarrow> (s\<lparr>rs_tenant := Some c\<rparr>, g\<lparr>mg_tenants := m\<rparr>)))"

definition charge_engine :: "engine_id \<Rightarrow> reserve_scope \<Rightarrow> governor \<Rightarrow> reserve_scope \<times> governor" where
  "charge_engine e s g =
     (s\<lparr>rs_engine := Some e\<rparr>, g\<lparr>mg_budgets := (mg_budgets g)(e := credit_arc (rs_size s) (mg_budgets g e))\<rparr>)"

section \<open>Releasing\<close>

definition release_engine :: "engine_id option \<Rightarrow> nat \<Rightarrow> governor \<Rightarrow> governor" where
  "release_engine eo sz g =
     (case eo of
        None \<Rightarrow> g
      | Some e \<Rightarrow> (case release_layer (bg_allocated (mg_budgets g e)) sz Engine (gc_over g) of
          (v, r) \<Rightarrow> g\<lparr>mg_budgets := (mg_budgets g)(e := (mg_budgets g e)\<lparr>bg_allocated := v\<rparr>), gc_over := r\<rparr>))"

definition release_tenant :: "nat option \<Rightarrow> nat \<Rightarrow> governor \<Rightarrow> governor" where
  "release_tenant co sz g =
     (case co of
        None \<Rightarrow> g
      | Some c \<Rightarrow> (case release_layer (ct_value (sm_counters (mg_tenants g) c)) sz Tenant (gc_over g) of
          (v, r) \<Rightarrow> g\<lparr>mg_tenants := counter_set c v (mg_tenants g), gc_over := r\<rparr>))"

definition release_database :: "nat option \<Rightarrow> nat \<Rightarrow> governor \<Rightarrow> governor" where
  "release_database co sz g =
     (case co of
        None \<Rightarrow> g
      | Some c \<Rightarrow> (case release_layer (ct_value (sm_counters (mg_databases g) c)) sz Database (gc_over g) of
          (v, r) \<Rightarrow> g\<lparr>mg_databases := counter_set c v (mg_databases g), gc_over := r\<rparr>))"

definition release_global :: "nat \<Rightarrow> governor \<Rightarrow> governor" where
  "release_global sz g =
     (case release_layer (gc_allocated g) sz Global (gc_over g) of (v, r) \<Rightarrow> g\<lparr>gc_allocated := v, gc_over := r\<rparr>)"

text \<open>The counters a dropped value held.\<close>

definition drop_arcs :: "nat option \<Rightarrow> nat option \<Rightarrow> governor \<Rightarrow> governor" where
  "drop_arcs d t g =
     g\<lparr>mg_databases := (case d of None \<Rightarrow> mg_databases g | Some c \<Rightarrow> arc_drop c (mg_databases g)),
       mg_tenants := (case t of None \<Rightarrow> mg_tenants g | Some c \<Rightarrow> arc_drop c (mg_tenants g))\<rparr>"

text \<open>\<open>Drop\<close> of a scope that was not committed.\<close>

definition scope_drop :: "reserve_scope \<Rightarrow> governor \<Rightarrow> governor" where
  "scope_drop s g =
     drop_arcs (rs_database s) (rs_tenant s)
       (if rs_size s = 0 then g
        else
          let g1 = release_engine (rs_engine s) (rs_size s) g;
              g2 = release_tenant (rs_tenant s) (rs_size s) g1;
              g3 = release_database (rs_database s) (rs_size s) g2
          in if rs_global_credited s then release_global (rs_size s) g3 else g3)"

record reservation_token =
  rt_database :: "nat option"
  rt_tenant :: "nat option"
  rt_engine :: "engine_id option"
  rt_size :: nat
  rt_db :: u64
  rt_tenant_id :: u64
  rt_engine_id :: engine_id

definition token_from_layers :: "reserve_scope \<Rightarrow> u64 \<Rightarrow> u64 \<Rightarrow> engine_id \<Rightarrow> reservation_token" where
  "token_from_layers s db tenant engine =
     \<lparr>rt_database = rs_database s, rt_tenant = rs_tenant s, rt_engine = rs_engine s, rt_size = rs_size s,
      rt_db = db, rt_tenant_id = tenant, rt_engine_id = engine\<rparr>"

definition token_drop :: "reservation_token \<Rightarrow> governor \<Rightarrow> governor" where
  "token_drop t g =
     drop_arcs (rt_database t) (rt_tenant t)
       (if rt_size t = 0 then g
        else release_global (rt_size t) (release_database (rt_database t) (rt_size t)
               (release_tenant (rt_tenant t) (rt_size t) (release_engine (rt_engine t) (rt_size t) g))))"

section \<open>The entry points\<close>

definition try_reserve :: "u64 \<Rightarrow> u64 \<Rightarrow> engine_id \<Rightarrow> nat \<Rightarrow> governor \<Rightarrow> (mem_error + reservation_token) \<times> governor" where
  "try_reserve db tenant engine sz g =
     (case try_credit_global (scope_new sz) g of
        (Inl e, s, g1) \<Rightarrow> (Inl e, scope_drop s g1)
      | (Inr _, s, g1) \<Rightarrow>
     (case reserve_database db s g1 of
        (Inl e, s, g2) \<Rightarrow> (Inl e, scope_drop s g2)
      | (Inr _, s, g2) \<Rightarrow>
     (case reserve_tenant db tenant s g2 of
        (Inl e, s, g3) \<Rightarrow> (Inl e, scope_drop s g3)
      | (Inr _, s, g3) \<Rightarrow>
     (case reserve_engine engine s g3 of
        (Inl e, s, g4) \<Rightarrow> (Inl e, scope_drop s g4)
      | (Inr _, s, g4) \<Rightarrow> (Inr (token_from_layers s db tenant engine), g4)))))"

definition charge :: "u64 \<Rightarrow> u64 \<Rightarrow> engine_id \<Rightarrow> nat \<Rightarrow> governor \<Rightarrow> reservation_token \<times> governor" where
  "charge db tenant engine sz g =
     (let (s1, g1) = credit_global_unchecked (scope_new sz) g;
          (s2, g2) = charge_database db s1 g1;
          (s3, g3) = charge_tenant db tenant s2 g2;
          (s4, g4) = charge_engine engine s3 g3
      in (token_from_layers s4 db tenant engine, g4))"

section \<open>Pressure\<close>

lemma fold_worse:
  "level_rank l \<le> level_rank (fold (\<lambda>e k. worse_level k (f e)) es l)"
  "e \<in> set es \<Longrightarrow> level_rank (f e) \<le> level_rank (fold (\<lambda>e k. worse_level k (f e)) es l)"
proof (induction es arbitrary: l)
  case (Cons x es)
  have "level_rank k \<le> level_rank (worse_level k m)" "level_rank m \<le> level_rank (worse_level k m)" for k m by (simp_all add: worse_level_def)
  moreover {
    case 1
    then show ?case using Cons.IH(1) [of "worse_level l (f x)"] calculation(1) [of l "f x"] by simp
  next
    case 2
    then show ?case using Cons.IH [of "worse_level l (f x)"] calculation(2) [of "f x" l] by (cases "e = x") (auto intro: order_trans)
  }
qed simp_all

lemma worst_engine: "level_rank (engine_pressure e g) \<le> level_rank (worst_engine_pressure g)"
proof -
  have "e \<in> set engine_all" by (cases e) (simp_all add: engine_all_def)
  then show ?thesis unfolding worst_engine_pressure_def by (rule fold_worse(2))
qed

lemma set_limit_covers: "bg_allocated b \<le> bg_limit (set_limit n b)" "bg_allocated (set_limit n b) = bg_allocated b"
  by (simp_all add: set_limit_def)

section \<open>A reservation made alone\<close>

text \<open>No sum the call forms passes \<open>usize::MAX\<close>.\<close>

definition scoped_value :: "'k \<Rightarrow> 'k scoped_map \<Rightarrow> nat" where
  "scoped_value k m = (case map_of (sm_entries m) k of None \<Rightarrow> 0 | Some b \<Rightarrow> ct_value (sm_counters m (sb_counter b)))"

definition reserve_fits :: "u64 \<Rightarrow> u64 \<Rightarrow> engine_id \<Rightarrow> nat \<Rightarrow> governor \<Rightarrow> bool" where
  "reserve_fits db tenant engine sz g \<longleftrightarrow> gc_allocated g + sz < 2 ^ 64 \<and> scoped_value db (mg_databases g) + sz < 2 ^ 64 \<and>
     scoped_value (db, tenant) (mg_tenants g) + sz < 2 ^ 64 \<and> bg_allocated (mg_budgets g engine) + sz < 2 ^ 64"

text \<open>What a scope would refuse with: the bytes left and the cap.\<close>

definition over_cap :: "'k \<Rightarrow> nat \<Rightarrow> 'k scoped_map \<Rightarrow> (nat \<times> nat) option" where
  "over_cap k sz m =
     (case map_of (sm_entries m) k of
        None \<Rightarrow> None
      | Some b \<Rightarrow> (case sb_limit b of
          None \<Rightarrow> None
        | Some l \<Rightarrow> if scoped_value k m + sz > l then Some (l - scoped_value k m, l) else None))"

lemma wrapping_add_fits [simp]: "a + b < 2 ^ 64 \<Longrightarrow> wrapping_add a b = a + b"
  by (simp add: wrapping_add_def)

lemma release_layer_clean: "sz \<le> v \<Longrightarrow> release_layer v sz l r = (v - sz, r)"
  by (simp add: release_layer_def atomic_saturating_sub_def over_record_def)

lemma scoped_undo:
  "ct_value (sm_counters m c) = v \<Longrightarrow> arc_drop c (counter_set c v (arc_clone c (counter_set c n m))) = m"
  "arc_drop c (arc_clone c (counter_set c (ct_value (sm_counters m c)) m)) = m"
  by (auto simp: arc_drop_def arc_clone_def counter_set_def fun_upd_idem)

lemma scoped_try_reserve_cap:
  assumes "map_of (sm_entries m) k = Some b" and "scoped_value k m + sz < 2 ^ 64"
  shows "scoped_try_reserve sz b m = (case over_cap k sz m of
      Some (_, l) \<Rightarrow> (Inl l, m)
    | None \<Rightarrow> (Inr (fst (scoped_credit sz b m)), snd (scoped_credit sz b m)))"
    and "over_cap k sz m = Some (a, l) \<Longrightarrow> scoped_available b m = a"
  using assms by (auto simp: scoped_try_reserve_def over_cap_def scoped_value_def scoped_credit_def scoped_available_def Let_def
      split: option.splits if_splits)

lemma credit_undo:
  assumes "map_of (sm_entries m) k = Some b" and "scoped_value k m + sz < 2 ^ 64" and "scoped_credit sz b m = (c, m')"
  shows "ct_value (sm_counters m' c) = scoped_value k m + sz" and "arc_drop c (counter_set c (scoped_value k m) m') = m"
    and "sz = 0 \<Longrightarrow> arc_drop c m' = m"
proof -
  have v: "ct_value (sm_counters m c) = scoped_value k m" and m': "m' = arc_clone c (counter_set c (scoped_value k m + sz) m)"
    using assms by (auto simp: scoped_credit_def scoped_value_def Let_def)
  show "ct_value (sm_counters m' c) = scoped_value k m + sz" by (simp add: m' arc_clone_def counter_set_def)
  show "arc_drop c (counter_set c (scoped_value k m) m') = m" unfolding m' by (rule scoped_undo(1) [OF v])
  show "sz = 0 \<Longrightarrow> arc_drop c m' = m" using scoped_undo(2) [of c m] v by (simp add: m')
qed

text \<open>Charging one layer and releasing it again.\<close>

lemma charge_database_undo:
  assumes "scoped_value db (mg_databases g) + rs_size s < 2 ^ 64" and "charge_database db s g = (s', g')" and "rs_database s = None"
  shows "drop_arcs (rs_database s') None (if rs_size s = 0 then g' else release_database (rs_database s') (rs_size s) g') = g"
    and "rs_tenant s' = rs_tenant s \<and> rs_engine s' = rs_engine s \<and> rs_size s' = rs_size s \<and> rs_global_credited s' = rs_global_credited s"
    and "mg_tenants g' = mg_tenants g \<and> mg_budgets g' = mg_budgets g"
proof -
  show "rs_tenant s' = rs_tenant s \<and> rs_engine s' = rs_engine s \<and> rs_size s' = rs_size s \<and> rs_global_credited s' = rs_global_credited s"
    "mg_tenants g' = mg_tenants g \<and> mg_budgets g' = mg_budgets g"
    using assms(2,3) by (auto simp: charge_database_def split: option.splits prod.splits)
  show "drop_arcs (rs_database s') None (if rs_size s = 0 then g' else release_database (rs_database s') (rs_size s) g') = g"
  proof (cases "map_of (sm_entries (mg_databases g)) db")
    case None
    then show ?thesis using assms(2,3) by (auto simp: charge_database_def drop_arcs_def release_database_def)
  next
    case (Some b)
    obtain c m where c: "scoped_credit (rs_size s) b (mg_databases g) = (c, m)" by fastforce
    note u = credit_undo [OF Some assms(1) c]
    have "s' = s\<lparr>rs_database := Some c\<rparr>" "g' = g\<lparr>mg_databases := m\<rparr>" using assms(2) Some c by (auto simp: charge_database_def)
    then show ?thesis using u by (simp add: drop_arcs_def release_database_def release_layer_clean)
  qed
qed

lemma charge_tenant_undo:
  assumes "scoped_value (db, t) (mg_tenants g) + rs_size s < 2 ^ 64" and "charge_tenant db t s g = (s', g')" and "rs_tenant s = None"
  shows "drop_arcs None (rs_tenant s') (if rs_size s = 0 then g' else release_tenant (rs_tenant s') (rs_size s) g') = g"
    and "rs_database s' = rs_database s \<and> rs_engine s' = rs_engine s \<and> rs_size s' = rs_size s \<and> rs_global_credited s' = rs_global_credited s"
    and "mg_budgets g' = mg_budgets g"
proof -
  show "rs_database s' = rs_database s \<and> rs_engine s' = rs_engine s \<and> rs_size s' = rs_size s \<and> rs_global_credited s' = rs_global_credited s"
    "mg_budgets g' = mg_budgets g"
    using assms(2,3) by (auto simp: charge_tenant_def split: option.splits prod.splits)
  show "drop_arcs None (rs_tenant s') (if rs_size s = 0 then g' else release_tenant (rs_tenant s') (rs_size s) g') = g"
  proof (cases "map_of (sm_entries (mg_tenants g)) (db, t)")
    case None
    then show ?thesis using assms(2,3) by (auto simp: charge_tenant_def drop_arcs_def release_tenant_def)
  next
    case (Some b)
    obtain c m where c: "scoped_credit (rs_size s) b (mg_tenants g) = (c, m)" by fastforce
    note u = credit_undo [OF Some assms(1) c]
    have "s' = s\<lparr>rs_tenant := Some c\<rparr>" "g' = g\<lparr>mg_tenants := m\<rparr>" using assms(2) Some c by (auto simp: charge_tenant_def)
    then show ?thesis using u by (simp add: drop_arcs_def release_tenant_def release_layer_clean)
  qed
qed

text \<open>Without overflow a layer refuses exactly over its cap, and otherwise does what a charge does.\<close>

lemma reserve_database_cap:
  assumes "scoped_value db (mg_databases g) + rs_size s < 2 ^ 64"
  shows "reserve_database db s g = (case over_cap db (rs_size s) (mg_databases g) of
      Some (a, l) \<Rightarrow> (Inl (DatabaseBudgetExhausted db (rs_size s) a l), s, g)
    | None \<Rightarrow> (Inr (), charge_database db s g))"
  using scoped_try_reserve_cap [of "mg_databases g" db _ "rs_size s"] assms
  by (auto simp: reserve_database_def charge_database_def over_cap_def split: option.splits prod.splits)

lemma reserve_tenant_cap:
  assumes "scoped_value (db, t) (mg_tenants g) + rs_size s < 2 ^ 64"
  shows "reserve_tenant db t s g = (case over_cap (db, t) (rs_size s) (mg_tenants g) of
      Some (a, l) \<Rightarrow> (Inl (TenantBudgetExhausted db t (rs_size s) a l), s, g)
    | None \<Rightarrow> (Inr (), charge_tenant db t s g))"
  using scoped_try_reserve_cap [of "mg_tenants g" "(db, t)" _ "rs_size s"] assms
  by (auto simp: reserve_tenant_def charge_tenant_def over_cap_def split: option.splits prod.splits)

lemma reserve_engine_cap:
  assumes "bg_allocated (mg_budgets g e) + rs_size s < 2 ^ 64"
  shows "reserve_engine e s g =
    (if bg_allocated (mg_budgets g e) + rs_size s > bg_limit (mg_budgets g e)
     then (Inl (BudgetExhausted e (rs_size s) (budget_available (mg_budgets g e)) (bg_limit (mg_budgets g e))), s,
       g\<lparr>mg_budgets := (mg_budgets g)(e := (mg_budgets g e)\<lparr>bg_rejections := wrapping_add (bg_rejections (mg_budgets g e)) 1\<rparr>)\<rparr>)
     else (Inr (), charge_engine e s g))"
  using assms by (simp add: reserve_engine_def budget_try_reserve_def charge_engine_def credit_arc_def Let_def budget_available_def)

lemma try_credit_global_cap:
  assumes "gc_allocated g + rs_size s < 2 ^ 64"
  shows "try_credit_global s g =
    (if rs_size s \<noteq> 0 \<and> gc_allocated g + rs_size s > gc_ceiling g
     then (Inl (GlobalCeilingExceeded (gc_allocated g) (gc_ceiling g) (rs_size s)), s, g)
     else (Inr (), credit_global_unchecked s g))"
  using assms by (auto simp: try_credit_global_def credit_global_unchecked_def Let_def)

text \<open>The layers are independent.\<close>

lemma release_commute:
  "drop_arcs d t (release_global n g) = release_global n (drop_arcs d t g)"
  "drop_arcs None t (release_database d n g) = release_database d n (drop_arcs None t g)"
  "drop_arcs d t g = drop_arcs d None (drop_arcs None t g)"
  by (auto simp: drop_arcs_def release_global_def release_database_def split: option.splits prod.splits)

lemma release_budgets:
  "drop_arcs d t (g\<lparr>mg_budgets := B\<rparr>) = (drop_arcs d t g)\<lparr>mg_budgets := B\<rparr>"
  "release_global n (g\<lparr>mg_budgets := B\<rparr>) = (release_global n g)\<lparr>mg_budgets := B\<rparr>"
  "release_database d n (g\<lparr>mg_budgets := B\<rparr>) = (release_database d n g)\<lparr>mg_budgets := B\<rparr>"
  "release_tenant t n (g\<lparr>mg_budgets := B\<rparr>) = (release_tenant t n g)\<lparr>mg_budgets := B\<rparr>"
  by (auto simp: drop_arcs_def release_global_def release_database_def release_tenant_def split: option.splits prod.splits)

text \<open>The layers of one charge, in order, with what each leaves alone.\<close>

lemma charge_layers:
  assumes fits: "reserve_fits db t e sz g" and c1: "credit_global_unchecked (scope_new sz) g = (s1, g1)"
    and c2: "charge_database db s1 g1 = (s2, g2)" and c3: "charge_tenant db t s2 g2 = (s3, g3)"
  shows "scope_drop s1 g1 = g" and "scope_drop s2 g2 = g" and "scope_drop s3 (g3\<lparr>mg_budgets := B\<rparr>) = g\<lparr>mg_budgets := B\<rparr>"
    and "rs_size s1 = sz" and "rs_size s2 = sz" and "rs_size s3 = sz" and "rs_global_credited s3"
    and "mg_databases g1 = mg_databases g" and "mg_tenants g2 = mg_tenants g" and "mg_budgets g3 = mg_budgets g"
proof -
  have 1: "s1 = (scope_new sz)\<lparr>rs_global_credited := True\<rparr>" "g1 = g\<lparr>gc_allocated := gc_allocated g + sz\<rparr>"
    using c1 fits by (auto simp: credit_global_unchecked_def scope_new_def reserve_fits_def)
  then have n1: "rs_database s1 = None" "rs_tenant s1 = None" "rs_engine s1 = None" "rs_size s1 = sz" "rs_global_credited s1" by (simp_all add: scope_new_def)
  have f2: "scoped_value db (mg_databases g1) + rs_size s1 < 2 ^ 64" using fits by (simp add: 1 reserve_fits_def scope_new_def)
  note 2 = charge_database_undo [OF f2 c2 n1(1)]
  have f3: "scoped_value (db, t) (mg_tenants g2) + rs_size s2 < 2 ^ 64" using fits 2(2,3) n1(4) by (simp add: 1(2) reserve_fits_def)
  have n2: "rs_tenant s2 = None" "rs_engine s2 = None" "rs_size s2 = sz" "rs_global_credited s2" using 2(2) n1 by simp_all
  note 3 = charge_tenant_undo [OF f3 c3 n2(1)]
  have n3: "rs_engine s3 = None" "rs_size s3 = sz" "rs_global_credited s3" "rs_database s3 = rs_database s2"
    using 3(2) n2 by simp_all
  have g: "release_global sz g1 = g" by (simp add: 1 release_global_def release_layer_clean)
  show "scope_drop s1 g1 = g" using n1 g by (simp add: scope_drop_def release_engine_def release_tenant_def release_database_def drop_arcs_def 1)
  have d2: "scope_drop s2 g2' = (if sz = 0 then drop_arcs (rs_database s2) None g2' else release_global sz (drop_arcs (rs_database s2) None (release_database (rs_database s2) sz g2')))" for g2'
    using n2 by (simp add: scope_drop_def release_engine_def release_tenant_def release_commute(1))
  then show s2: "scope_drop s2 g2 = g" using 2(1) n1(4) g 1(2) by (cases "sz = 0") simp_all
  have "scope_drop s3 g3 = scope_drop s2 (drop_arcs None (rs_tenant s3) (if sz = 0 then g3 else release_tenant (rs_tenant s3) sz g3))"
    unfolding d2 using n3 release_commute(3) [of "rs_database s2" "rs_tenant s3"] by (simp add: scope_drop_def release_engine_def release_commute(1,2))
  then have "scope_drop s3 g3 = g" unfolding 3(1) [unfolded n2(3)] s2 .
  moreover have "scope_drop s3 (g3\<lparr>mg_budgets := B\<rparr>) = (scope_drop s3 g3)\<lparr>mg_budgets := B\<rparr>"
    using n3 by (simp add: scope_drop_def release_engine_def release_budgets)
  ultimately show "scope_drop s3 (g3\<lparr>mg_budgets := B\<rparr>) = g\<lparr>mg_budgets := B\<rparr>" by simp
  show "rs_size s1 = sz" "rs_size s2 = sz" "rs_size s3 = sz" "rs_global_credited s3" by (fact n1 n2 n3)+
  show "mg_databases g1 = mg_databases g" "mg_tenants g2 = mg_tenants g" "mg_budgets g3 = mg_budgets g" using 2(3) 3(3) by (simp_all add: 1(2))
qed

definition peak_raised :: "engine_id \<Rightarrow> nat \<Rightarrow> governor \<Rightarrow> governor" where
  "peak_raised e sz g = g\<lparr>mg_budgets := (mg_budgets g)(e := raise_peak (bg_allocated (mg_budgets g e) + sz) (mg_budgets g e))\<rparr>"

definition rejection_counted :: "engine_id \<Rightarrow> governor \<Rightarrow> governor" where
  "rejection_counted e g =
     g\<lparr>mg_budgets := (mg_budgets g)(e := (mg_budgets g e)\<lparr>bg_rejections := wrapping_add (bg_rejections (mg_budgets g e)) 1\<rparr>)\<rparr>"

lemma charge_undone:
  assumes fits: "reserve_fits db t e sz g" and c: "charge db t e sz g = (tok, g')"
  shows "token_drop tok g' = peak_raised e sz g"
proof -
  obtain s1 g1 where c1: "credit_global_unchecked (scope_new sz) g = (s1, g1)" by fastforce
  obtain s2 g2 where c2: "charge_database db s1 g1 = (s2, g2)" by fastforce
  obtain s3 g3 where c3: "charge_tenant db t s2 g2 = (s3, g3)" by fastforce
  note l = charge_layers [OF fits c1 c2 c3]
  define b where "b = mg_budgets g e"
  have n: "bg_allocated b + sz < 2 ^ 64" using fits by (simp add: reserve_fits_def b_def)
  have t: "tok = token_from_layers (s3\<lparr>rs_engine := Some e\<rparr>) db t e" "g' = g3\<lparr>mg_budgets := (mg_budgets g)(e := credit_arc sz b)\<rparr>"
    using c by (simp_all add: charge_def c1 c2 c3 charge_engine_def l(6,10) b_def)
  have "(credit_arc sz b)\<lparr>bg_allocated := bg_allocated b\<rparr> = raise_peak (bg_allocated b + sz) b" "bg_allocated (credit_arc sz b) = bg_allocated b + sz"
    using n by (simp_all add: credit_arc_def raise_peak_def Let_def)
  then have r: "release_engine (Some e) sz g' = g3\<lparr>mg_budgets := (mg_budgets g)(e := raise_peak (bg_allocated b + sz) b)\<rparr>"
    and z: "sz = 0 \<Longrightarrow> g' = g3\<lparr>mg_budgets := (mg_budgets g)(e := raise_peak (bg_allocated b + sz) b)\<rparr>"
    using n by (simp_all add: t(2) release_engine_def release_layer_clean credit_arc_def)
  have "scope_drop s3 = (\<lambda>g. drop_arcs (rs_database s3) (rs_tenant s3) (if sz = 0 then g
      else release_global sz (release_database (rs_database s3) sz (release_tenant (rs_tenant s3) sz g))))" if "rs_engine s3 = None"
    using l(6,7) that by (simp add: fun_eq_iff scope_drop_def release_engine_def)
  moreover have "rs_engine s3 = None" using c1 c2 c3
    by (auto simp: credit_global_unchecked_def scope_new_def charge_database_def charge_tenant_def split: option.splits prod.splits)
  ultimately have "token_drop tok g' = scope_drop s3 (g3\<lparr>mg_budgets := (mg_budgets g)(e := raise_peak (bg_allocated b + sz) b)\<rparr>)"
    using r z l(6) by (cases "sz = 0") (simp_all add: token_drop_def t(1) token_from_layers_def)
  then show ?thesis by (simp add: l(3) peak_raised_def b_def)
qed

lemma try_reserve_outcome:
  assumes fits: "reserve_fits db t e sz g"
  shows "try_reserve db t e sz g =
    (if sz \<noteq> 0 \<and> gc_allocated g + sz > gc_ceiling g
     then (Inl (GlobalCeilingExceeded (gc_allocated g) (gc_ceiling g) sz), g)
     else case over_cap db sz (mg_databases g) of Some (a, l) \<Rightarrow> (Inl (DatabaseBudgetExhausted db sz a l), g)
     | None \<Rightarrow> (case over_cap (db, t) sz (mg_tenants g) of Some (a, l) \<Rightarrow> (Inl (TenantBudgetExhausted db t sz a l), g)
     | None \<Rightarrow> if bg_allocated (mg_budgets g e) + sz > bg_limit (mg_budgets g e)
       then (Inl (BudgetExhausted e sz (budget_available (mg_budgets g e)) (bg_limit (mg_budgets g e))), rejection_counted e g)
       else (Inr (fst (charge db t e sz g)), snd (charge db t e sz g))))"
proof -
  obtain s1 g1 where c1: "credit_global_unchecked (scope_new sz) g = (s1, g1)" by fastforce
  obtain s2 g2 where c2: "charge_database db s1 g1 = (s2, g2)" by fastforce
  obtain s3 g3 where c3: "charge_tenant db t s2 g2 = (s3, g3)" by fastforce
  note l = charge_layers [OF fits c1 c2 c3]
  have f: "gc_allocated g + rs_size (scope_new sz) < 2 ^ 64" "scoped_value db (mg_databases g1) + rs_size s1 < 2 ^ 64"
    "scoped_value (db, t) (mg_tenants g2) + rs_size s2 < 2 ^ 64" "bg_allocated (mg_budgets g3 e) + rs_size s3 < 2 ^ 64"
    using fits l(4-6,8-10) by (simp_all add: reserve_fits_def scope_new_def)
  have s0: "rs_size (scope_new sz) = sz" "scope_drop (scope_new sz) g = g"
    by (simp_all add: scope_new_def scope_drop_def drop_arcs_def release_engine_def release_tenant_def release_database_def)
  define ch where "ch = charge db t e sz g"
  have ch: "ch = (token_from_layers (s3\<lparr>rs_engine := Some e\<rparr>) db t e, snd (charge_engine e s3 g3))"
    by (simp add: ch_def charge_def c1 c2 c3 charge_engine_def)
  show ?thesis
    unfolding try_reserve_def try_credit_global_cap [OF f(1)] c1 s0(1) ch_def [symmetric]
    using reserve_database_cap [OF f(2)] reserve_tenant_cap [OF f(3)] reserve_engine_cap [OF f(4)] l s0(2)
    by (simp add: c2 c3 ch charge_engine_def rejection_counted_def split: option.split)
qed

text \<open>
  The sums are not checked. A request that takes the counters past \<open>usize::MAX\<close> wraps, passes every limit
  and resets the counters.
\<close>

lemma reserve_wraps:
  assumes "gc_allocated g = a" and "0 < a" and "a < 2 ^ 64" and "bg_allocated (mg_budgets g e) = a"
    and "map_of (sm_entries (mg_databases g)) db = None" and "map_of (sm_entries (mg_tenants g)) (db, t) = None"
  shows "\<exists>tok g'. try_reserve db t e (2 ^ 64 - a) g = (Inr tok, g') \<and> rt_size tok = 2 ^ 64 - a \<and>
    gc_allocated g' = 0 \<and> bg_allocated (mg_budgets g' e) = 0"
proof -
  have "wrapping_add a (2 ^ 64 - a) = 0" using assms(3) by (simp add: wrapping_add_def)
  then show ?thesis using assms
    by (simp add: try_reserve_def try_credit_global_def scope_new_def reserve_database_def reserve_tenant_def reserve_engine_def
        budget_try_reserve_def token_from_layers_def raise_peak_def Let_def)
qed

end
