(* ===== verification/Mem_Sharing.thy ===== *)
theory Mem_Sharing
  imports Mem_Governor
begin

text \<open>
  Reservations that share the governor. A task is one call with the token it returns; it advances one
  atomic access at a time, through the layers, to the token, and back through the release. Tasks of
  any number interleave in any order with each other and with quota changes.
\<close>

section \<open>Tasks\<close>

datatype stage = AtGlobal | AtDatabase | AtTenant | AtEngine | Held
  | DropEngine | DropTenant | DropDatabase | DropGlobal | DropArcs | Gone

text \<open>The scope also stands for the token made of it.\<close>

record task =
  tk_stage :: stage
  tk_scope :: reserve_scope
  tk_db :: u64
  tk_tenant :: u64
  tk_engine :: engine_id
  tk_charged :: bool

definition task_new :: "bool \<Rightarrow> u64 \<Rightarrow> u64 \<Rightarrow> engine_id \<Rightarrow> nat \<Rightarrow> task" where
  "task_new charged db tenant engine sz =
     \<lparr>tk_stage = AtGlobal, tk_scope = scope_new sz, tk_db = db, tk_tenant = tenant, tk_engine = engine, tk_charged = charged\<rparr>"

abbreviation task_size :: "task \<Rightarrow> nat" where
  "task_size t \<equiv> rs_size (tk_scope t)"

definition drop_start :: "task \<Rightarrow> task" where
  "drop_start t = t\<lparr>tk_stage := (if task_size t = 0 then DropArcs else DropEngine)\<rparr>"

text \<open>After a layer: on to the next, or back.\<close>

definition layer_done :: "stage \<Rightarrow> task \<Rightarrow> (mem_error + unit) \<times> reserve_scope \<times> governor \<Rightarrow> task \<times> governor" where
  "layer_done st t r = (case r of
     (Inr _, s, g) \<Rightarrow> (t\<lparr>tk_scope := s, tk_stage := st\<rparr>, g)
   | (Inl _, s, g) \<Rightarrow> (drop_start (t\<lparr>tk_scope := s\<rparr>), g))"

definition task_step :: "task \<Rightarrow> governor \<Rightarrow> task \<times> governor" where
  "task_step t g =
     (let s = tk_scope t; db = tk_db t; tenant = tk_tenant t; e = tk_engine t; sz = rs_size s
      in case tk_stage t of
           AtGlobal \<Rightarrow> layer_done AtDatabase t (if tk_charged t then (Inr (), credit_global_unchecked s g) else try_credit_global s g)
         | AtDatabase \<Rightarrow> layer_done AtTenant t (if tk_charged t then (Inr (), charge_database db s g) else reserve_database db s g)
         | AtTenant \<Rightarrow> layer_done AtEngine t (if tk_charged t then (Inr (), charge_tenant db tenant s g) else reserve_tenant db tenant s g)
         | AtEngine \<Rightarrow> layer_done Held t (if tk_charged t then (Inr (), charge_engine e s g) else reserve_engine e s g)
         | Held \<Rightarrow> (drop_start t, g)
         | DropEngine \<Rightarrow> (t\<lparr>tk_stage := DropTenant\<rparr>, release_engine (rs_engine s) sz g)
         | DropTenant \<Rightarrow> (t\<lparr>tk_stage := DropDatabase\<rparr>, release_tenant (rs_tenant s) sz g)
         | DropDatabase \<Rightarrow> (t\<lparr>tk_stage := DropGlobal\<rparr>, release_database (rs_database s) sz g)
         | DropGlobal \<Rightarrow> (t\<lparr>tk_stage := DropArcs\<rparr>, if rs_global_credited s then release_global sz g else g)
         | DropArcs \<Rightarrow> (t\<lparr>tk_stage := Gone\<rparr>, drop_arcs (rs_database s) (rs_tenant s) g)
         | Gone \<Rightarrow> (t, g))"

fun alone :: "nat \<Rightarrow> task \<times> governor \<Rightarrow> task \<times> governor" where
  "alone 0 x = x"
| "alone (Suc n) x = alone n (task_step (fst x) (snd x))"

record memory =
  mm_governor :: governor
  mm_tasks :: "task list"

datatype event =
    Begin bool u64 u64 engine_id nat
  | Advance nat
  | SetDatabase u64 nat
  | ClearDatabase u64
  | SetTenant u64 u64 nat
  | ClearTenant u64 u64
  | DropDatabaseScope u64
  | DropTenantScope u64
  | SetThresholds pressure_thresholds

fun mem_event :: "event \<Rightarrow> memory \<Rightarrow> memory" where
  "mem_event (Begin charged db tenant engine sz) x = x\<lparr>mm_tasks := mm_tasks x @ [task_new charged db tenant engine sz]\<rparr>"
| "mem_event (Advance i) x =
     (if i < length (mm_tasks x)
      then (case task_step (mm_tasks x ! i) (mm_governor x) of (t, g) \<Rightarrow> x\<lparr>mm_governor := g, mm_tasks := (mm_tasks x)[i := t]\<rparr>)
      else x)"
| "mem_event (SetDatabase db n) x = x\<lparr>mm_governor := set_database_budget db n (mm_governor x)\<rparr>"
| "mem_event (ClearDatabase db) x = x\<lparr>mm_governor := clear_database_budget db (mm_governor x)\<rparr>"
| "mem_event (SetTenant db tenant n) x = x\<lparr>mm_governor := set_tenant_budget db tenant n (mm_governor x)\<rparr>"
| "mem_event (ClearTenant db tenant) x = x\<lparr>mm_governor := clear_tenant_budget db tenant (mm_governor x)\<rparr>"
| "mem_event (DropDatabaseScope db) x = x\<lparr>mm_governor := clear_database_scope db (mm_governor x)\<rparr>"
| "mem_event (DropTenantScope tenant) x = x\<lparr>mm_governor := clear_tenant_scope tenant (mm_governor x)\<rparr>"
| "mem_event (SetThresholds th) x = x\<lparr>mm_governor := set_thresholds th (mm_governor x)\<rparr>"

section \<open>What is owed to each counter\<close>

definition owes_global :: "task \<Rightarrow> nat" where
  "owes_global t = (if rs_global_credited (tk_scope t) \<and> tk_stage t \<notin> {DropArcs, Gone} then task_size t else 0)"

definition owes_engine :: "engine_id \<Rightarrow> task \<Rightarrow> nat" where
  "owes_engine e t = (if rs_engine (tk_scope t) = Some e \<and> tk_stage t \<notin> {DropTenant, DropDatabase, DropGlobal, DropArcs, Gone}
     then task_size t else 0)"

definition owes_database :: "nat \<Rightarrow> task \<Rightarrow> nat" where
  "owes_database c t = (if rs_database (tk_scope t) = Some c \<and> tk_stage t \<notin> {DropGlobal, DropArcs, Gone} then task_size t else 0)"

definition owes_tenant :: "nat \<Rightarrow> task \<Rightarrow> nat" where
  "owes_tenant c t = (if rs_tenant (tk_scope t) = Some c \<and> tk_stage t \<notin> {DropDatabase, DropGlobal, DropArcs, Gone} then task_size t else 0)"

definition refs_database :: "nat \<Rightarrow> task \<Rightarrow> nat" where
  "refs_database c t = (if rs_database (tk_scope t) = Some c \<and> tk_stage t \<noteq> Gone then 1 else 0)"

definition refs_tenant :: "nat \<Rightarrow> task \<Rightarrow> nat" where
  "refs_tenant c t = (if rs_tenant (tk_scope t) = Some c \<and> tk_stage t \<noteq> Gone then 1 else 0)"

abbreviation owed :: "(task \<Rightarrow> nat) \<Rightarrow> task list \<Rightarrow> nat" where
  "owed f ts \<equiv> sum_list (map f ts)"

definition in_use :: "task \<Rightarrow> nat" where
  "in_use t = (if tk_stage t = Gone then 0 else task_size t)"

text \<open>The part of a debt that went through the limits.\<close>

definition admitted :: "(task \<Rightarrow> nat) \<Rightarrow> task \<Rightarrow> nat" where
  "admitted f t = (if tk_charged t then 0 else f t)"

section \<open>The map of a scope\<close>

definition entry_counters :: "'k scoped_map \<Rightarrow> nat list" where
  "entry_counters m = map (sb_counter \<circ> snd) (sm_entries m)"

definition scoped_ok :: "'k scoped_map \<Rightarrow> (nat \<Rightarrow> nat) \<Rightarrow> (nat \<Rightarrow> nat) \<Rightarrow> bool" where
  "scoped_ok m w r \<longleftrightarrow> distinct (map fst (sm_entries m)) \<and> distinct (entry_counters m) \<and>
     (\<forall>c\<in>set (entry_counters m). c < sm_next m) \<and>
     (\<forall>c. ct_value (sm_counters m c) = w c) \<and>
     (\<forall>c. ct_strong (sm_counters m c) = r c + (if c \<in> set (entry_counters m) then 1 else 0)) \<and>
     (\<forall>c. sm_next m \<le> c \<longrightarrow> w c = 0 \<and> r c = 0)"

lemma scoped_okD:
  assumes "scoped_ok m w r"
  shows "distinct (map fst (sm_entries m))" and "distinct (entry_counters m)" and "\<And>c. c \<in> set (entry_counters m) \<Longrightarrow> c < sm_next m"
    and "\<And>c. ct_value (sm_counters m c) = w c"
    and "\<And>c. ct_strong (sm_counters m c) = r c + (if c \<in> set (entry_counters m) then 1 else 0)"
    and "\<And>c. sm_next m \<le> c \<Longrightarrow> w c = 0 \<and> r c = 0"
  using assms by (simp_all add: scoped_ok_def)

lemma scoped_ok_new: "scoped_ok scoped_map_new (\<lambda>_. 0) (\<lambda>_. 0)"
  by (simp add: scoped_ok_def scoped_map_new_def entry_counters_def)

lemma entry_counter_in: "map_of (sm_entries m) k = Some b \<Longrightarrow> sb_counter b \<in> set (entry_counters m)"
  by (force simp: entry_counters_def dest: map_of_SomeD)

lemma update_same_counter:
  "map_of es k = Some b \<Longrightarrow> sb_counter b' = sb_counter b \<Longrightarrow> map (sb_counter \<circ> snd) (AList.update k b' es) = map (sb_counter \<circ> snd) es"
  by (induction es) (auto split: if_splits)

lemma update_new_counter: "map_of es k = None \<Longrightarrow> AList.update k b es = es @ [(k, b)]"
  by (induction es) auto

lemma scoped_ok_set: "scoped_ok m w r \<Longrightarrow> scoped_ok (set_scoped_limit k n m) w r"
proof -
  assume o: "scoped_ok m w r"
  note d = scoped_okD [OF o]
  show ?thesis
  proof (cases "map_of (sm_entries m) k")
    case None
    then have e: "sm_entries (set_scoped_limit k n m) = sm_entries m @ [(k, \<lparr>sb_limit = Some n, sb_counter = sm_next m\<rparr>)]"
      by (simp add: set_scoped_limit_def update_new_counter)
    have "k \<notin> fst ` set (sm_entries m)" using None by (simp add: map_of_eq_None_iff)
    moreover have "sm_next m \<notin> set (entry_counters m)" using d(3) by auto
    moreover have "entry_counters (set_scoped_limit k n m) = entry_counters m @ [sm_next m]" by (simp add: entry_counters_def e)
    moreover have "sm_next (set_scoped_limit k n m) = Suc (sm_next m)"
      "sm_counters (set_scoped_limit k n m) = (sm_counters m)(sm_next m := \<lparr>ct_value = 0, ct_strong = 1\<rparr>)"
      using None by (simp_all add: set_scoped_limit_def)
    ultimately show ?thesis using d e by (simp add: scoped_ok_def less_SucI)
  next
    case (Some b)
    then have "set_scoped_limit k n m = m\<lparr>sm_entries := AList.update k (b\<lparr>sb_limit := Some n\<rparr>) (sm_entries m)\<rparr>"
      by (simp add: set_scoped_limit_def)
    then show ?thesis using o update_same_counter [OF Some, of "b\<lparr>sb_limit := Some n\<rparr>"]
      by (simp add: scoped_ok_def entry_counters_def distinct_update)
  qed
qed

lemma delete_counters:
  assumes "distinct (map fst es)" and "distinct (map (sb_counter \<circ> snd) es)" and "map_of es k = Some b"
  shows "distinct (map (sb_counter \<circ> snd) (AList.delete k es))"
    and "set (map (sb_counter \<circ> snd) (AList.delete k es)) = set (map (sb_counter \<circ> snd) es) - {sb_counter b}"
proof -
  show "distinct (map (sb_counter \<circ> snd) (AList.delete k es))" using assms(2) by (simp add: AList.delete_eq distinct_map_filter)
  have "(k', b') \<in> set es \<Longrightarrow> sb_counter b' = sb_counter b \<longleftrightarrow> k' = k" for k' b'
    using assms(1,2) map_of_SomeD [OF assms(3)] unfolding distinct_map inj_on_def comp_def by (metis fst_conv snd_conv)
  then show "set (map (sb_counter \<circ> snd) (AList.delete k es)) = set (map (sb_counter \<circ> snd) es) - {sb_counter b}"
    by (force simp: AList.delete_eq image_iff)
qed

lemma scoped_ok_clear: "scoped_ok m w r \<Longrightarrow> scoped_ok (clear_scoped_limit k m) w r"
proof -
  assume o: "scoped_ok m w r"
  note d = scoped_okD [OF o]
  show ?thesis
  proof (cases "map_of (sm_entries m) k")
    case None
    then show ?thesis using o by (simp add: clear_scoped_limit_def)
  next
    case (Some b)
    let ?c = "sb_counter b"
    have c: "?c \<in> set (entry_counters m)" by (rule entry_counter_in [OF Some])
    show ?thesis
    proof (cases "ct_strong (sm_counters m ?c) = 1")
      case True
      define m' where "m' = clear_scoped_limit k m"
      have m': "m' = arc_drop ?c (m\<lparr>sm_entries := AList.delete k (sm_entries m)\<rparr>)" using True Some by (simp add: m'_def clear_scoped_limit_def)
      have s: "distinct (entry_counters m')" "set (entry_counters m') = set (entry_counters m) - {?c}"
        using delete_counters [OF d(1) d(2) [unfolded entry_counters_def] Some] by (simp_all add: m' entry_counters_def arc_drop_def)
      have f: "sm_next m' = sm_next m" "sm_entries m' = AList.delete k (sm_entries m)" "ct_value (sm_counters m' x) = ct_value (sm_counters m x)"
        "ct_strong (sm_counters m' x) = (if x = ?c then 0 else ct_strong (sm_counters m x))" for x
        using True by (simp_all add: m' arc_drop_def)
      have "r ?c = 0" using d(5) [of ?c] True c by simp
      then have "scoped_ok m' w r" using d s unfolding scoped_ok_def f by (simp add: distinct_delete)
      then show ?thesis by (simp add: m'_def)
    next
      case False
      then have "clear_scoped_limit k m = m\<lparr>sm_entries := AList.update k (b\<lparr>sb_limit := None\<rparr>) (sm_entries m)\<rparr>"
        using Some by (simp add: clear_scoped_limit_def)
      then show ?thesis using o update_same_counter [OF Some, of "b\<lparr>sb_limit := None\<rparr>"]
        by (simp add: scoped_ok_def entry_counters_def distinct_update)
    qed
  qed
qed

lemma fold_arc_drop:
  fixes m :: "'k scoped_map" and es :: "('k \<times> scoped_budget) list"
  assumes "distinct (map (sb_counter \<circ> snd) es)"
  defines "m' \<equiv> fold (\<lambda>(_, b). arc_drop (sb_counter b)) es m"
  shows "sm_entries m' = sm_entries m" and "sm_next m' = sm_next m" and "ct_value (sm_counters m' c) = ct_value (sm_counters m c)"
    and "ct_strong (sm_counters m' c) = ct_strong (sm_counters m c) - (if c \<in> set (map (sb_counter \<circ> snd) es) then 1 else 0)"
  using assms(1) unfolding m'_def by (induction es arbitrary: m) (auto simp: arc_drop_def image_iff)

lemma scoped_ok_retain: "scoped_ok m w r \<Longrightarrow> scoped_ok (scoped_retain P m) w r"
proof -
  assume "scoped_ok m w r"
  note d = scoped_okD [OF this]
  define gone kept where "gone = filter (\<lambda>(k, _). \<not> P k) (sm_entries m)" and "kept = filter (\<lambda>(k, _). P k) (sm_entries m)"
  define m' where "m' = scoped_retain P m"
  have g: "distinct (map (sb_counter \<circ> snd) gone)" using d(2) by (simp add: gone_def entry_counters_def distinct_map_filter)
  note f = fold_arc_drop [OF g, of "m\<lparr>sm_entries := kept\<rparr>"]
  have m': "m' = fold (\<lambda>(_, b). arc_drop (sb_counter b)) gone (m\<lparr>sm_entries := kept\<rparr>)" by (simp add: m'_def scoped_retain_def gone_def kept_def)
  have e: "entry_counters m' = map (sb_counter \<circ> snd) kept" by (simp add: entry_counters_def m' f(1))
  have "set (entry_counters m) = set (map (sb_counter \<circ> snd) gone) \<union> set (map (sb_counter \<circ> snd) kept)"
    by (force simp: entry_counters_def gone_def kept_def)
  moreover have "set (map (sb_counter \<circ> snd) gone) \<inter> set (map (sb_counter \<circ> snd) kept) = {}"
    using d(2) by (force simp: entry_counters_def gone_def kept_def distinct_map inj_on_def)
  ultimately have s: "c \<in> set (entry_counters m) \<longleftrightarrow> c \<in> set (map (sb_counter \<circ> snd) gone) \<or> c \<in> set (entry_counters m')"
    "\<not> (c \<in> set (map (sb_counter \<circ> snd) gone) \<and> c \<in> set (entry_counters m'))" for c unfolding e by blast+
  have "distinct (map fst (sm_entries m'))" using d(1) by (simp add: m' f(1)) (simp add: kept_def distinct_map_filter)
  moreover have "distinct (entry_counters m')" using d(2) unfolding e by (simp add: kept_def entry_counters_def distinct_map_filter)
  moreover have "ct_strong (sm_counters m' c) = r c + (if c \<in> set (entry_counters m') then 1 else 0)" for c
    using f(4) [of c] d(5) [of c] s [of c] by (auto simp: m')
  ultimately have "scoped_ok m' w r" using d(3,4,6) s(1) by (simp add: scoped_ok_def m' f(2,3))
  then show ?thesis by (simp add: m'_def)
qed

lemma scoped_ok_credit:
  assumes o: "scoped_ok m w r" and b: "map_of (sm_entries m) k = Some b" and f: "w (sb_counter b) + sz < 2 ^ 64"
    and c: "scoped_credit sz b m = (c, m')"
  shows "c = sb_counter b" and "sm_entries m' = sm_entries m"
    and "scoped_ok m' (\<lambda>x. w x + (if x = c then sz else 0)) (\<lambda>x. r x + (if x = c then 1 else 0))"
proof -
  note d = scoped_okD [OF o]
  show cb: "c = sb_counter b" using c by (simp add: scoped_credit_def Let_def)
  have m': "m' = arc_clone c (counter_set c (w c + sz) m)" using c f d(4) [of c] cb by (simp add: scoped_credit_def Let_def)
  then show "sm_entries m' = sm_entries m" by (simp add: arc_clone_def counter_set_def)
  have "c < sm_next m" using d(3) entry_counter_in [OF b] cb by simp
  then show "scoped_ok m' (\<lambda>x. w x + (if x = c then sz else 0)) (\<lambda>x. r x + (if x = c then 1 else 0))"
    using o by (auto simp: scoped_ok_def m' arc_clone_def counter_set_def entry_counters_def)
qed

lemma scoped_ok_release: "scoped_ok m w r \<Longrightarrow> scoped_ok (counter_set c (w c - sz) m) (\<lambda>x. if x = c then w x - sz else w x) r"
  by (auto simp: scoped_ok_def counter_set_def entry_counters_def)

lemma scoped_ok_drop: "scoped_ok m w r \<Longrightarrow> 0 < r c \<Longrightarrow> scoped_ok (arc_drop c m) w (\<lambda>x. if x = c then r x - 1 else r x)"
  by (auto simp: scoped_ok_def arc_drop_def entry_counters_def)

section \<open>One step of one task\<close>

definition task_ok :: "task \<Rightarrow> bool" where
  "task_ok t \<longleftrightarrow> (case tk_stage t of
     AtGlobal \<Rightarrow> \<not> rs_global_credited (tk_scope t) \<and> rs_database (tk_scope t) = None \<and> rs_tenant (tk_scope t) = None \<and> rs_engine (tk_scope t) = None
   | AtDatabase \<Rightarrow> rs_global_credited (tk_scope t) \<and> rs_database (tk_scope t) = None \<and> rs_tenant (tk_scope t) = None \<and> rs_engine (tk_scope t) = None
   | AtTenant \<Rightarrow> rs_global_credited (tk_scope t) \<and> rs_tenant (tk_scope t) = None \<and> rs_engine (tk_scope t) = None
   | AtEngine \<Rightarrow> rs_global_credited (tk_scope t) \<and> rs_engine (tk_scope t) = None
   | Held \<Rightarrow> rs_global_credited (tk_scope t) \<and> rs_engine (tk_scope t) = Some (tk_engine t)
   | _ \<Rightarrow> True)"

text \<open>The counters hold the debt of the other tasks, given by the first arguments, and that of \<open>t\<close>.\<close>

definition gov_ok ::
  "nat \<Rightarrow> (engine_id \<Rightarrow> nat) \<Rightarrow> (nat \<Rightarrow> nat) \<Rightarrow> (nat \<Rightarrow> nat) \<Rightarrow> (nat \<Rightarrow> nat) \<Rightarrow> (nat \<Rightarrow> nat) \<Rightarrow> task \<Rightarrow> governor \<Rightarrow> bool" where
  "gov_ok G E DW DR TW TR t g \<longleftrightarrow> gc_allocated g = G + owes_global t \<and>
     (\<forall>e. bg_allocated (mg_budgets g e) = E e + owes_engine e t) \<and>
     scoped_ok (mg_databases g) (\<lambda>c. DW c + owes_database c t) (\<lambda>c. DR c + refs_database c t) \<and>
     scoped_ok (mg_tenants g) (\<lambda>c. TW c + owes_tenant c t) (\<lambda>c. TR c + refs_tenant c t) \<and>
     gc_over g = over_release_new"

lemmas owes_defs = owes_global_def owes_engine_def owes_database_def owes_tenant_def refs_database_def refs_tenant_def

lemma gov_ok_cong:
  assumes "gov_ok G E DW DR TW TR t g" and "owes_global t' = owes_global t" and "\<And>e. owes_engine e t' = owes_engine e t"
    and "\<And>c. owes_database c t' = owes_database c t" and "\<And>c. refs_database c t' = refs_database c t"
    and "\<And>c. owes_tenant c t' = owes_tenant c t" and "\<And>c. refs_tenant c t' = refs_tenant c t"
  shows "gov_ok G E DW DR TW TR t' g"
  using assms by (simp add: gov_ok_def)

lemma gov_ok_start:
  assumes "gov_ok G E DW DR TW TR t g" and "tk_stage t \<in> {AtGlobal, AtDatabase, AtTenant, AtEngine, Held}"
  shows "gov_ok G E DW DR TW TR (drop_start t) g"
  by (rule gov_ok_cong [OF assms(1)]) (use assms(2) in \<open>auto simp: owes_defs drop_start_def\<close>)

lemma gov_ok_rejection:
  "gov_ok G E DW DR TW TR t g \<Longrightarrow>
   gov_ok G E DW DR TW TR t (g\<lparr>mg_budgets := (mg_budgets g)(e := (mg_budgets g e)\<lparr>bg_rejections := n\<rparr>)\<rparr>)"
  by (simp add: gov_ok_def)

lemma step_global:
  assumes ok: "gov_ok G E DW DR TW TR t g" and t: "task_ok t" "tk_stage t = AtGlobal" and f: "G + task_size t < 2 ^ 64"
    and c: "credit_global_unchecked (tk_scope t) g = (s, g')"
  shows "gov_ok G E DW DR TW TR (t\<lparr>tk_scope := s, tk_stage := AtDatabase\<rparr>) g'"
proof -
  have o: "owes_global t = 0" using t by (simp add: owes_defs task_ok_def)
  then have s: "s = (tk_scope t)\<lparr>rs_global_credited := True\<rparr>" "g' = g\<lparr>gc_allocated := G + task_size t\<rparr>"
    using c ok f by (auto simp: credit_global_unchecked_def gov_ok_def)
  define t' where "t' = t\<lparr>tk_scope := s, tk_stage := AtDatabase\<rparr>"
  have "owes_global t' = task_size t" "owes_database x t' = owes_database x t" "refs_database x t' = refs_database x t"
    "owes_tenant x t' = owes_tenant x t" "refs_tenant x t' = refs_tenant x t" "owes_engine e t' = owes_engine e t" for e x
    using t by (simp_all add: owes_defs t'_def s)
  then show ?thesis using ok unfolding t'_def [symmetric] by (simp add: gov_ok_def s(2))
qed

lemma step_database:
  assumes ok: "gov_ok G E DW DR TW TR t g" and t: "task_ok t" "tk_stage t = AtDatabase" and f: "\<And>c. DW c + task_size t < 2 ^ 64"
    and c: "charge_database (tk_db t) (tk_scope t) g = (s, g')"
  shows "gov_ok G E DW DR TW TR (t\<lparr>tk_scope := s, tk_stage := AtTenant\<rparr>) g'"
proof (cases "map_of (sm_entries (mg_databases g)) (tk_db t)")
  case None
  then have s: "s = tk_scope t" "g' = g" using c by (simp_all add: charge_database_def)
  show ?thesis unfolding s by (rule gov_ok_cong [OF ok]) (use t in \<open>simp_all add: owes_defs\<close>)
next
  case (Some b)
  obtain a m where cr: "scoped_credit (task_size t) b (mg_databases g) = (a, m)" by fastforce
  have n: "owes_database x t = 0" "refs_database x t = 0" for x using t by (simp_all add: owes_defs task_ok_def)
  have o: "scoped_ok (mg_databases g) (\<lambda>c. DW c + owes_database c t) (\<lambda>c. DR c + refs_database c t)" using ok by (simp add: gov_ok_def)
  have s: "s = (tk_scope t)\<lparr>rs_database := Some a\<rparr>" "g' = g\<lparr>mg_databases := m\<rparr>" using c cr Some by (simp_all add: charge_database_def)
  define t' where "t' = t\<lparr>tk_scope := s, tk_stage := AtTenant\<rparr>"
  have "(\<lambda>x. DW x + owes_database x t + (if x = a then task_size t else 0)) = (\<lambda>x. DW x + owes_database x t')"
    "(\<lambda>x. DR x + refs_database x t + (if x = a then 1 else 0)) = (\<lambda>x. DR x + refs_database x t')"
    unfolding n by (auto simp: fun_eq_iff owes_defs s t'_def)
  with scoped_ok_credit(3) [OF o Some _ cr] f n have "scoped_ok m (\<lambda>x. DW x + owes_database x t') (\<lambda>x. DR x + refs_database x t')" by simp
  moreover have "owes_global t' = owes_global t" "owes_engine e t' = owes_engine e t" "owes_tenant x t' = owes_tenant x t" "refs_tenant x t' = refs_tenant x t" for e x
    using t by (simp_all add: owes_defs t'_def s)
  ultimately show ?thesis using ok unfolding t'_def [symmetric] by (simp add: gov_ok_def s(2))
qed

lemma step_tenant:
  assumes ok: "gov_ok G E DW DR TW TR t g" and t: "task_ok t" "tk_stage t = AtTenant" and f: "\<And>c. TW c + task_size t < 2 ^ 64"
    and c: "charge_tenant (tk_db t) (tk_tenant t) (tk_scope t) g = (s, g')"
  shows "gov_ok G E DW DR TW TR (t\<lparr>tk_scope := s, tk_stage := AtEngine\<rparr>) g'"
proof (cases "map_of (sm_entries (mg_tenants g)) (tk_db t, tk_tenant t)")
  case None
  then have s: "s = tk_scope t" "g' = g" using c by (simp_all add: charge_tenant_def)
  show ?thesis unfolding s by (rule gov_ok_cong [OF ok]) (use t in \<open>simp_all add: owes_defs\<close>)
next
  case (Some b)
  obtain a m where cr: "scoped_credit (task_size t) b (mg_tenants g) = (a, m)" by fastforce
  have n: "owes_tenant x t = 0" "refs_tenant x t = 0" for x using t by (simp_all add: owes_defs task_ok_def)
  have o: "scoped_ok (mg_tenants g) (\<lambda>c. TW c + owes_tenant c t) (\<lambda>c. TR c + refs_tenant c t)" using ok by (simp add: gov_ok_def)
  have s: "s = (tk_scope t)\<lparr>rs_tenant := Some a\<rparr>" "g' = g\<lparr>mg_tenants := m\<rparr>" using c cr Some by (simp_all add: charge_tenant_def)
  define t' where "t' = t\<lparr>tk_scope := s, tk_stage := AtEngine\<rparr>"
  have "(\<lambda>x. TW x + owes_tenant x t + (if x = a then task_size t else 0)) = (\<lambda>x. TW x + owes_tenant x t')"
    "(\<lambda>x. TR x + refs_tenant x t + (if x = a then 1 else 0)) = (\<lambda>x. TR x + refs_tenant x t')"
    unfolding n by (auto simp: fun_eq_iff owes_defs s t'_def)
  with scoped_ok_credit(3) [OF o Some _ cr] f n have "scoped_ok m (\<lambda>x. TW x + owes_tenant x t') (\<lambda>x. TR x + refs_tenant x t')" by simp
  moreover have "owes_global t' = owes_global t" "owes_engine e t' = owes_engine e t" "owes_database x t' = owes_database x t" "refs_database x t' = refs_database x t" for e x
    using t by (simp_all add: owes_defs t'_def s)
  ultimately show ?thesis using ok unfolding t'_def [symmetric] by (simp add: gov_ok_def s(2))
qed

lemma step_engine:
  assumes ok: "gov_ok G E DW DR TW TR t g" and t: "task_ok t" "tk_stage t = AtEngine" and f: "\<And>e. E e + task_size t < 2 ^ 64"
    and c: "charge_engine (tk_engine t) (tk_scope t) g = (s, g')"
  shows "gov_ok G E DW DR TW TR (t\<lparr>tk_scope := s, tk_stage := Held\<rparr>) g'"
proof -
  have "owes_engine e t = 0" for e using t by (simp add: owes_defs task_ok_def)
  then have b: "bg_allocated (credit_arc (task_size t) (mg_budgets g (tk_engine t))) = E (tk_engine t) + task_size t"
    "bg_allocated (mg_budgets g e) = E e" for e
    using ok f [of "tk_engine t"] by (simp_all add: gov_ok_def credit_arc_def raise_peak_def Let_def)
  have s: "s = (tk_scope t)\<lparr>rs_engine := Some (tk_engine t)\<rparr>"
    "g' = g\<lparr>mg_budgets := (mg_budgets g)(tk_engine t := credit_arc (task_size t) (mg_budgets g (tk_engine t)))\<rparr>"
    using c by (simp_all add: charge_engine_def)
  define t' where "t' = t\<lparr>tk_scope := s, tk_stage := Held\<rparr>"
  have "owes_global t' = owes_global t" "owes_database x t' = owes_database x t" "refs_database x t' = refs_database x t"
    "owes_tenant x t' = owes_tenant x t" "refs_tenant x t' = refs_tenant x t" "owes_engine e t' = (if e = tk_engine t then task_size t else 0)" for e x
    using t by (simp_all add: owes_defs t'_def s)
  then show ?thesis using ok b unfolding t'_def [symmetric] by (simp add: gov_ok_def s(2))
qed

lemma step_release_engine:
  assumes ok: "gov_ok G E DW DR TW TR t g" and t: "tk_stage t = DropEngine"
  shows "gov_ok G E DW DR TW TR (t\<lparr>tk_stage := DropTenant\<rparr>) (release_engine (rs_engine (tk_scope t)) (task_size t) g)"
proof -
  define t' where "t' = t\<lparr>tk_stage := DropTenant\<rparr>"
  have u: "owes_global t' = owes_global t" "owes_database x t' = owes_database x t" "refs_database x t' = refs_database x t"
    "owes_tenant x t' = owes_tenant x t" "refs_tenant x t' = refs_tenant x t" "owes_engine e t' = 0"
    "owes_engine e t = (if rs_engine (tk_scope t) = Some e then task_size t else 0)" for e x
    using t by (simp_all add: owes_defs t'_def)
  show ?thesis unfolding t'_def [symmetric]
  proof (cases "rs_engine (tk_scope t)")
    case None
    then show "gov_ok G E DW DR TW TR t' (release_engine (rs_engine (tk_scope t)) (task_size t) g)"
      using ok by (simp add: gov_ok_def u release_engine_def)
  next
    case (Some e)
    then have "bg_allocated (mg_budgets g x) = E x + (if x = e then task_size t else 0)" for x using ok by (simp add: gov_ok_def u)
    then show "gov_ok G E DW DR TW TR t' (release_engine (rs_engine (tk_scope t)) (task_size t) g)"
      using ok by (simp add: gov_ok_def u Some release_engine_def release_layer_clean)
  qed
qed

lemma step_release_tenant:
  assumes ok: "gov_ok G E DW DR TW TR t g" and t: "tk_stage t = DropTenant"
  shows "gov_ok G E DW DR TW TR (t\<lparr>tk_stage := DropDatabase\<rparr>) (release_tenant (rs_tenant (tk_scope t)) (task_size t) g)"
proof -
  define t' where "t' = t\<lparr>tk_stage := DropDatabase\<rparr>"
  have u: "owes_global t' = owes_global t" "owes_database x t' = owes_database x t" "refs_database x t' = refs_database x t"
    "owes_engine e t' = owes_engine e t" "refs_tenant x t' = refs_tenant x t" "owes_tenant x t' = 0"
    "owes_tenant x t = (if rs_tenant (tk_scope t) = Some x then task_size t else 0)" for e x
    using t by (simp_all add: owes_defs t'_def)
  show ?thesis unfolding t'_def [symmetric]
  proof (cases "rs_tenant (tk_scope t)")
    case None
    then show "gov_ok G E DW DR TW TR t' (release_tenant (rs_tenant (tk_scope t)) (task_size t) g)"
      using ok by (simp add: gov_ok_def u release_tenant_def)
  next
    case (Some c)
    let ?w = "\<lambda>x. TW x + owes_tenant x t"
    have o: "scoped_ok (mg_tenants g) ?w (\<lambda>x. TR x + refs_tenant x t)" using ok by (simp add: gov_ok_def)
    have "(\<lambda>x. if x = c then ?w x - task_size t else ?w x) = TW" "?w c = TW c + task_size t" by (auto simp: u Some)
    then show "gov_ok G E DW DR TW TR t' (release_tenant (rs_tenant (tk_scope t)) (task_size t) g)"
      using ok scoped_ok_release [OF o, of c "task_size t"] scoped_okD(4) [OF o, of c]
      by (simp add: gov_ok_def u Some release_tenant_def release_layer_clean)
  qed
qed

lemma step_release_database:
  assumes ok: "gov_ok G E DW DR TW TR t g" and t: "tk_stage t = DropDatabase"
  shows "gov_ok G E DW DR TW TR (t\<lparr>tk_stage := DropGlobal\<rparr>) (release_database (rs_database (tk_scope t)) (task_size t) g)"
proof -
  define t' where "t' = t\<lparr>tk_stage := DropGlobal\<rparr>"
  have u: "owes_global t' = owes_global t" "owes_tenant x t' = owes_tenant x t" "refs_tenant x t' = refs_tenant x t"
    "owes_engine e t' = owes_engine e t" "refs_database x t' = refs_database x t" "owes_database x t' = 0"
    "owes_database x t = (if rs_database (tk_scope t) = Some x then task_size t else 0)" for e x
    using t by (simp_all add: owes_defs t'_def)
  show ?thesis unfolding t'_def [symmetric]
  proof (cases "rs_database (tk_scope t)")
    case None
    then show "gov_ok G E DW DR TW TR t' (release_database (rs_database (tk_scope t)) (task_size t) g)"
      using ok by (simp add: gov_ok_def u release_database_def)
  next
    case (Some c)
    let ?w = "\<lambda>x. DW x + owes_database x t"
    have o: "scoped_ok (mg_databases g) ?w (\<lambda>x. DR x + refs_database x t)" using ok by (simp add: gov_ok_def)
    have "(\<lambda>x. if x = c then ?w x - task_size t else ?w x) = DW" "?w c = DW c + task_size t" by (auto simp: u Some)
    then show "gov_ok G E DW DR TW TR t' (release_database (rs_database (tk_scope t)) (task_size t) g)"
      using ok scoped_ok_release [OF o, of c "task_size t"] scoped_okD(4) [OF o, of c]
      by (simp add: gov_ok_def u Some release_database_def release_layer_clean)
  qed
qed

lemma step_release_global:
  assumes ok: "gov_ok G E DW DR TW TR t g" and t: "tk_stage t = DropGlobal"
  shows "gov_ok G E DW DR TW TR (t\<lparr>tk_stage := DropArcs\<rparr>) (if rs_global_credited (tk_scope t) then release_global (task_size t) g else g)"
proof -
  define t' where "t' = t\<lparr>tk_stage := DropArcs\<rparr>"
  have "owes_global t' = 0" "owes_database x t' = owes_database x t" "refs_database x t' = refs_database x t"
    "owes_tenant x t' = owes_tenant x t" "refs_tenant x t' = refs_tenant x t" "owes_engine e t' = owes_engine e t"
    "owes_global t = (if rs_global_credited (tk_scope t) then task_size t else 0)" for e x
    using t by (simp_all add: owes_defs t'_def)
  then show ?thesis using ok unfolding t'_def [symmetric] by (simp add: gov_ok_def release_global_def release_layer_clean)
qed

lemma scoped_ok_unref:
  assumes "scoped_ok m w (\<lambda>x. R x + (if co = Some x then 1 else 0))"
  shows "scoped_ok (case co of None \<Rightarrow> m | Some c \<Rightarrow> arc_drop c m) w R"
proof (cases co)
  case (Some c)
  have "(\<lambda>x. if x = c then (R x + (if co = Some x then 1 else 0)) - 1 else R x + (if co = Some x then 1 else 0)) = R"
    by (auto simp: Some)
  then show ?thesis using scoped_ok_drop [OF assms, of c] by (simp add: Some)
qed (use assms in simp)

lemma step_drop_arcs:
  assumes ok: "gov_ok G E DW DR TW TR t g" and t: "tk_stage t = DropArcs"
  shows "gov_ok G E DW DR TW TR (t\<lparr>tk_stage := Gone\<rparr>) (drop_arcs (rs_database (tk_scope t)) (rs_tenant (tk_scope t)) g)"
proof -
  define t' where "t' = t\<lparr>tk_stage := Gone\<rparr>"
  have u: "owes_global t' = owes_global t" "owes_database x t' = owes_database x t" "refs_database x t' = 0" "owes_tenant x t' = owes_tenant x t"
    "refs_tenant x t' = 0" "owes_engine e t' = owes_engine e t" for e x using t by (simp_all add: owes_defs t'_def)
  have r: "(\<lambda>x. DR x + refs_database x t) = (\<lambda>x. DR x + (if rs_database (tk_scope t) = Some x then 1 else 0))"
    "(\<lambda>x. TR x + refs_tenant x t) = (\<lambda>x. TR x + (if rs_tenant (tk_scope t) = Some x then 1 else 0))"
    using t by (simp_all add: owes_defs)
  have "scoped_ok (mg_databases (drop_arcs (rs_database (tk_scope t)) (rs_tenant (tk_scope t)) g)) (\<lambda>c. DW c + owes_database c t) DR"
    "scoped_ok (mg_tenants (drop_arcs (rs_database (tk_scope t)) (rs_tenant (tk_scope t)) g)) (\<lambda>c. TW c + owes_tenant c t) TR"
    using ok scoped_ok_unref unfolding gov_ok_def r by (auto simp: drop_arcs_def)
  then show ?thesis using ok unfolding t'_def [symmetric] by (simp add: gov_ok_def u) (simp add: drop_arcs_def)
qed

text \<open>A layer is credited as a charge credits it, or refused.\<close>

definition fits :: "nat \<Rightarrow> (engine_id \<Rightarrow> nat) \<Rightarrow> (nat \<Rightarrow> nat) \<Rightarrow> (nat \<Rightarrow> nat) \<Rightarrow> nat \<Rightarrow> bool" where
  "fits G E DW TW sz \<longleftrightarrow> G + sz < 2 ^ 64 \<and> (\<forall>e. E e + sz < 2 ^ 64) \<and> (\<forall>c. DW c + sz < 2 ^ 64) \<and> (\<forall>c. TW c + sz < 2 ^ 64)"

lemma scoped_value_lt:
  assumes "scoped_ok m w r" and "\<And>c. w c + sz < 2 ^ 64"
  shows "scoped_value k m + sz < 2 ^ 64"
proof -
  have "sz < 2 ^ 64" by (rule le_less_trans [OF _ assms(2) [of 0]]) simp
  then show ?thesis using assms(2) scoped_okD(4) [OF assms(1)] by (simp add: scoped_value_def split: option.split)
qed

lemma scope_same [simp]: "t\<lparr>tk_scope := tk_scope t\<rparr> = t"
  by simp

lemma at_global:
  assumes "tk_stage t = AtGlobal" and "gov_ok G E DW DR TW TR t g" and "fits G E DW TW (task_size t)" and "task_ok t"
  shows "task_step t g = (drop_start t, g) \<or> (\<exists>s g'. credit_global_unchecked (tk_scope t) g = (s, g') \<and>
    task_step t g = (t\<lparr>tk_scope := s, tk_stage := AtDatabase\<rparr>, g') \<and> (tk_charged t \<or> task_size t = 0 \<or> G + task_size t \<le> gc_ceiling g))"
proof -
  have a: "gc_allocated g = G" using assms by (simp add: gov_ok_def owes_defs task_ok_def)
  then have "gc_allocated g + task_size t < 2 ^ 64" using assms(3) by (simp add: fits_def)
  then show ?thesis using assms(1) a try_credit_global_cap [of g "tk_scope t"]
    by (cases "credit_global_unchecked (tk_scope t) g"; cases "tk_charged t"; cases "task_size t \<noteq> 0 \<and> G + task_size t > gc_ceiling g")
      (auto simp: task_step_def layer_done_def Let_def)
qed

lemma at_database:
  assumes "tk_stage t = AtDatabase" and "gov_ok G E DW DR TW TR t g" and "fits G E DW TW (task_size t)" and "task_ok t"
  shows "task_step t g = (drop_start t, g) \<or> (\<exists>s g'. charge_database (tk_db t) (tk_scope t) g = (s, g') \<and>
    task_step t g = (t\<lparr>tk_scope := s, tk_stage := AtTenant\<rparr>, g'))"
proof -
  have "owes_database c t = 0" for c using assms(1,4) by (simp add: owes_defs task_ok_def)
  then have "scoped_value (tk_db t) (mg_databases g) + task_size t < 2 ^ 64"
    using assms(2,3) by (intro scoped_value_lt [of "mg_databases g" DW "\<lambda>c. DR c + refs_database c t"]) (simp_all add: gov_ok_def fits_def)
  then show ?thesis using assms(1) reserve_database_cap [of "tk_db t" g "tk_scope t"]
    by (cases "charge_database (tk_db t) (tk_scope t) g"; cases "tk_charged t") (auto simp: task_step_def layer_done_def Let_def split: option.splits)
qed

lemma at_tenant:
  assumes "tk_stage t = AtTenant" and "gov_ok G E DW DR TW TR t g" and "fits G E DW TW (task_size t)" and "task_ok t"
  shows "task_step t g = (drop_start t, g) \<or> (\<exists>s g'. charge_tenant (tk_db t) (tk_tenant t) (tk_scope t) g = (s, g') \<and>
    task_step t g = (t\<lparr>tk_scope := s, tk_stage := AtEngine\<rparr>, g'))"
proof -
  have "owes_tenant c t = 0" for c using assms(1,4) by (simp add: owes_defs task_ok_def)
  then have "scoped_value (tk_db t, tk_tenant t) (mg_tenants g) + task_size t < 2 ^ 64"
    using assms(2,3) by (intro scoped_value_lt [of "mg_tenants g" TW "\<lambda>c. TR c + refs_tenant c t"]) (simp_all add: gov_ok_def fits_def)
  then show ?thesis using assms(1) reserve_tenant_cap [of "tk_db t" "tk_tenant t" g "tk_scope t"]
    by (cases "charge_tenant (tk_db t) (tk_tenant t) (tk_scope t) g"; cases "tk_charged t") (auto simp: task_step_def layer_done_def Let_def split: option.splits)
qed

lemma at_engine:
  assumes "tk_stage t = AtEngine" and "gov_ok G E DW DR TW TR t g" and "fits G E DW TW (task_size t)" and "task_ok t"
  shows "(\<exists>n. task_step t g = (drop_start t, g\<lparr>mg_budgets := (mg_budgets g)(tk_engine t := (mg_budgets g (tk_engine t))\<lparr>bg_rejections := n\<rparr>)\<rparr>)) \<or>
    (\<exists>s g'. charge_engine (tk_engine t) (tk_scope t) g = (s, g') \<and> task_step t g = (t\<lparr>tk_scope := s, tk_stage := Held\<rparr>, g') \<and>
      (tk_charged t \<or> E (tk_engine t) + task_size t \<le> bg_limit (mg_budgets g (tk_engine t))))"
proof -
  have a: "bg_allocated (mg_budgets g (tk_engine t)) = E (tk_engine t)" using assms by (simp add: gov_ok_def owes_defs task_ok_def)
  then have "bg_allocated (mg_budgets g (tk_engine t)) + task_size t < 2 ^ 64" using assms(3) by (simp add: fits_def)
  then show ?thesis using assms(1) a reserve_engine_cap [of g "tk_engine t" "tk_scope t"]
    by (cases "charge_engine (tk_engine t) (tk_scope t) g"; cases "tk_charged t";
        cases "E (tk_engine t) + task_size t > bg_limit (mg_budgets g (tk_engine t))") (auto simp: task_step_def layer_done_def Let_def)
qed

text \<open>What a step keeps of the task and of the limits.\<close>

definition same_call :: "task \<Rightarrow> governor \<Rightarrow> task \<Rightarrow> governor \<Rightarrow> bool" where
  "same_call t g t' g' \<longleftrightarrow> task_size t' = task_size t \<and> tk_charged t' = tk_charged t \<and> tk_db t' = tk_db t \<and> tk_tenant t' = tk_tenant t \<and>
     tk_engine t' = tk_engine t \<and> gc_ceiling g' = gc_ceiling g \<and> (\<forall>e. bg_limit (mg_budgets g' e) = bg_limit (mg_budgets g e))"

lemma release_frame:
  "gc_ceiling (release_engine eo n g) = gc_ceiling g" "bg_limit (mg_budgets (release_engine eo n g) e) = bg_limit (mg_budgets g e)"
  "gc_ceiling (release_tenant co n g) = gc_ceiling g" "mg_budgets (release_tenant co n g) = mg_budgets g"
  "gc_ceiling (release_database co n g) = gc_ceiling g" "mg_budgets (release_database co n g) = mg_budgets g"
  "gc_ceiling (release_global n g) = gc_ceiling g" "mg_budgets (release_global n g) = mg_budgets g"
  "gc_ceiling (drop_arcs co d g) = gc_ceiling g" "mg_budgets (drop_arcs co d g) = mg_budgets g"
  by (auto simp: release_engine_def release_tenant_def release_database_def release_global_def drop_arcs_def
      split: option.split prod.split)

lemma charge_frame:
  "credit_global_unchecked s g = (s', g') \<Longrightarrow> rs_size s' = rs_size s \<and> gc_ceiling g' = gc_ceiling g \<and> mg_budgets g' = mg_budgets g"
  "charge_database db s g = (s', g') \<Longrightarrow> rs_size s' = rs_size s \<and> gc_ceiling g' = gc_ceiling g \<and> mg_budgets g' = mg_budgets g"
  "charge_tenant db tn s g = (s', g') \<Longrightarrow> rs_size s' = rs_size s \<and> gc_ceiling g' = gc_ceiling g \<and> mg_budgets g' = mg_budgets g"
  "charge_engine e s g = (s', g') \<Longrightarrow> rs_size s' = rs_size s \<and> gc_ceiling g' = gc_ceiling g \<and> bg_limit (mg_budgets g' x) = bg_limit (mg_budgets g x)"
  by (auto simp: credit_global_unchecked_def charge_database_def charge_tenant_def charge_engine_def credit_arc_def raise_peak_def Let_def
      split: option.splits prod.splits)

lemma step_same_call:
  assumes "gov_ok G E DW DR TW TR t g" and "fits G E DW TW (task_size t)" and "task_ok t" and "task_step t g = (t', g')"
  shows "same_call t g t' g'"
proof (cases "tk_stage t")
  case AtGlobal
  from at_global [OF this assms(1-3)] charge_frame(1) show ?thesis using assms(4) by (fastforce simp: same_call_def drop_start_def)
next
  case AtDatabase
  from at_database [OF this assms(1-3)] charge_frame(2) show ?thesis using assms(4) by (fastforce simp: same_call_def drop_start_def)
next
  case AtTenant
  from at_tenant [OF this assms(1-3)] charge_frame(3) show ?thesis using assms(4) by (fastforce simp: same_call_def drop_start_def)
next
  case AtEngine
  from at_engine [OF this assms(1-3)] charge_frame(4) show ?thesis using assms(4) by (fastforce simp: same_call_def drop_start_def)
qed (use assms(4) in \<open>auto simp: task_step_def same_call_def drop_start_def release_frame Let_def\<close>)

lemma task_ok_start: "task_ok (drop_start t)"
  by (simp add: task_ok_def drop_start_def)

lemma step_ok:
  assumes ok: "gov_ok G E DW DR TW TR t g" and f: "fits G E DW TW (task_size t)" and t: "task_ok t" and st: "task_step t g = (t', g')"
  shows "gov_ok G E DW DR TW TR t' g' \<and> task_ok t'"
proof (cases "tk_stage t")
  case AtGlobal
  have a: "task_ok (t\<lparr>tk_scope := s, tk_stage := AtDatabase\<rparr>)" if "credit_global_unchecked (tk_scope t) g = (s, h)" for s h
    using that t AtGlobal by (auto simp: credit_global_unchecked_def task_ok_def)
  from at_global [OF AtGlobal ok f t] show ?thesis
    using st a step_global [OF ok t AtGlobal] f gov_ok_start [OF ok] AtGlobal task_ok_start by (auto simp: fits_def)
next
  case AtDatabase
  have a: "task_ok (t\<lparr>tk_scope := s, tk_stage := AtTenant\<rparr>)" if "charge_database (tk_db t) (tk_scope t) g = (s, h)" for s h
    using that t AtDatabase by (auto simp: charge_database_def task_ok_def split: option.splits prod.splits)
  from at_database [OF AtDatabase ok f t] show ?thesis
    using st a step_database [OF ok t AtDatabase] f gov_ok_start [OF ok] AtDatabase task_ok_start by (auto simp: fits_def)
next
  case AtTenant
  have a: "task_ok (t\<lparr>tk_scope := s, tk_stage := AtEngine\<rparr>)" if "charge_tenant (tk_db t) (tk_tenant t) (tk_scope t) g = (s, h)" for s h
    using that t AtTenant by (auto simp: charge_tenant_def task_ok_def split: option.splits prod.splits)
  from at_tenant [OF AtTenant ok f t] show ?thesis
    using st a step_tenant [OF ok t AtTenant] f gov_ok_start [OF ok] AtTenant task_ok_start by (auto simp: fits_def)
next
  case AtEngine
  have a: "task_ok (t\<lparr>tk_scope := s, tk_stage := Held\<rparr>)" if "charge_engine (tk_engine t) (tk_scope t) g = (s, h)" for s h
    using that t AtEngine by (auto simp: charge_engine_def task_ok_def)
  from at_engine [OF AtEngine ok f t] show ?thesis
    using st a step_engine [OF ok t AtEngine] f gov_ok_start [OF ok] AtEngine task_ok_start by (auto simp: fits_def gov_ok_rejection)
next
  case Held
  then show ?thesis using st gov_ok_start [OF ok] task_ok_start by (auto simp: task_step_def Let_def)
next
  case DropEngine
  then show ?thesis using st step_release_engine [OF ok] by (auto simp: task_step_def Let_def task_ok_def)
next
  case DropTenant
  then show ?thesis using st step_release_tenant [OF ok] by (auto simp: task_step_def Let_def task_ok_def)
next
  case DropDatabase
  then show ?thesis using st step_release_database [OF ok] by (auto simp: task_step_def Let_def task_ok_def)
next
  case DropGlobal
  then show ?thesis using st step_release_global [OF ok] by (auto simp: task_step_def Let_def task_ok_def)
next
  case DropArcs
  then show ?thesis using st step_drop_arcs [OF ok] by (auto simp: task_step_def Let_def task_ok_def)
next
  case Gone
  then show ?thesis using st ok t by (auto simp: task_step_def Let_def)
qed

text \<open>Only a checked credit raises an admitted debt, and it stays within the limit.\<close>

lemma step_admits_global:
  assumes ok: "gov_ok G E DW DR TW TR t g" and f: "fits G E DW TW (task_size t)" and t: "task_ok t" and st: "task_step t g = (t', g')"
  shows "admitted owes_global t' \<le> admitted owes_global t \<or> G + admitted owes_global t' \<le> gc_ceiling g"
proof -
  note c = step_same_call [OF ok f t st]
  have le: "owes_global x \<le> task_size x" for x by (simp add: owes_defs)
  consider "tk_stage t = AtGlobal" | "tk_stage t \<in> {AtDatabase, AtTenant, AtEngine, Held}"
    | "tk_stage t \<in> {DropEngine, DropTenant, DropDatabase, DropGlobal, DropArcs, Gone}" by (cases "tk_stage t") simp_all
  then have "owes_global t' \<le> owes_global t \<or> tk_charged t \<or> G + task_size t \<le> gc_ceiling g"
  proof cases
    case 1
    then have "task_step t g = (drop_start t, g) \<or> tk_charged t \<or> task_size t = 0 \<or> G + task_size t \<le> gc_ceiling g"
      using at_global [OF _ ok f t] by blast
    moreover have "owes_global (drop_start t) = 0" using t 1 by (simp add: owes_defs drop_start_def task_ok_def)
    ultimately show ?thesis using st le [of t'] c by (auto simp: same_call_def)
  next
    case 2
    then have "owes_global t = task_size t" using t by (auto simp: owes_defs task_ok_def)
    then show ?thesis using le [of t'] c by (simp add: same_call_def)
  next
    case 3
    then have "tk_scope t' = tk_scope t" "tk_stage t \<in> {DropArcs, Gone} \<Longrightarrow> tk_stage t' = Gone" using st
      by (cases "tk_stage t"; auto simp: task_step_def Let_def)+
    then show ?thesis by (auto simp: owes_global_def)
  qed
  then show ?thesis using le [of t'] c by (auto simp: admitted_def same_call_def)
qed

lemma step_admits_engine:
  assumes ok: "gov_ok G E DW DR TW TR t g" and f: "fits G E DW TW (task_size t)" and t: "task_ok t" and st: "task_step t g = (t', g')"
  shows "admitted (owes_engine e) t' \<le> admitted (owes_engine e) t \<or> E e + admitted (owes_engine e) t' \<le> bg_limit (mg_budgets g e)"
proof -
  note c = step_same_call [OF ok f t st]
  have le: "owes_engine e x \<le> task_size x" for x by (simp add: owes_defs)
  consider "tk_stage t = AtEngine" | "tk_stage t \<in> {AtGlobal, AtDatabase, AtTenant}"
    | "tk_stage t \<in> {Held, DropEngine, DropTenant, DropDatabase, DropGlobal, DropArcs, Gone}" by (cases "tk_stage t") simp_all
  then have "owes_engine e t' \<le> owes_engine e t \<or> tk_charged t \<or> E e + task_size t \<le> bg_limit (mg_budgets g e)"
  proof cases
    case 1
    from at_engine [OF this ok f t] show ?thesis using st t 1 le [of t'] c
      by (cases "tk_engine t = e") (auto simp: owes_defs drop_start_def task_ok_def same_call_def charge_engine_def)
  next
    case 2
    then have "rs_engine (tk_scope t') = rs_engine (tk_scope t)"
      using at_global [OF _ ok f t] at_database [OF _ ok f t] at_tenant [OF _ ok f t] st
      by (auto simp: credit_global_unchecked_def charge_database_def charge_tenant_def drop_start_def split: option.splits prod.splits)
    moreover have "rs_engine (tk_scope t) = None" using 2 t by (auto simp: task_ok_def)
    ultimately show ?thesis by (simp add: owes_engine_def)
  next
    case 3
    then have "tk_scope t' = tk_scope t" "tk_stage t \<in> {DropTenant, DropDatabase, DropGlobal, DropArcs, Gone} \<Longrightarrow>
        tk_stage t' \<in> {DropTenant, DropDatabase, DropGlobal, DropArcs, Gone}"
      using st by (cases "tk_stage t"; auto simp: task_step_def Let_def drop_start_def)+
    then show ?thesis by (auto simp: owes_engine_def)
  qed
  then show ?thesis using le [of t'] c by (auto simp: admitted_def same_call_def)
qed

section \<open>All tasks\<close>

text \<open>Every counter is the sum of the debts to it, no release ever fell short, and what passed the checks fits the limits.\<close>

definition mem_inv :: "memory \<Rightarrow> bool" where
  "mem_inv x \<longleftrightarrow> (\<forall>t\<in>set (mm_tasks x). task_ok t) \<and>
     gc_allocated (mm_governor x) = owed owes_global (mm_tasks x) \<and>
     (\<forall>e. bg_allocated (mg_budgets (mm_governor x) e) = owed (owes_engine e) (mm_tasks x)) \<and>
     scoped_ok (mg_databases (mm_governor x)) (\<lambda>c. owed (owes_database c) (mm_tasks x)) (\<lambda>c. owed (refs_database c) (mm_tasks x)) \<and>
     scoped_ok (mg_tenants (mm_governor x)) (\<lambda>c. owed (owes_tenant c) (mm_tasks x)) (\<lambda>c. owed (refs_tenant c) (mm_tasks x)) \<and>
     gc_over (mm_governor x) = over_release_new \<and>
     owed (admitted owes_global) (mm_tasks x) \<le> gc_ceiling (mm_governor x) \<and>
     (\<forall>e. owed (admitted (owes_engine e)) (mm_tasks x) \<le> bg_limit (mg_budgets (mm_governor x) e))"

definition memory_fits :: "memory \<Rightarrow> bool" where
  "memory_fits x \<longleftrightarrow> owed in_use (mm_tasks x) < 2 ^ 64"

lemma owed_split: "i < length ts \<Longrightarrow> owed f ts = owed f (take i ts @ drop (Suc i) ts) + f (ts ! i)"
  by (subst (1) id_take_nth_drop [of i ts]) (simp_all only: map_append sum_list_append list.map sum_list.Cons ac_simps)

lemma owed_update: "i < length ts \<Longrightarrow> owed f (ts[i := t]) = owed f (take i ts @ drop (Suc i) ts) + f t"
  by (simp add: upd_conv_take_nth_drop)

lemma owed_le: "(\<And>t. f t \<le> h t) \<Longrightarrow> owed f ts \<le> owed h ts"
  by (induction ts) (simp_all add: add_mono)

lemma owes_in_use: "owes_global t \<le> in_use t" "owes_engine e t \<le> in_use t" "owes_database c t \<le> in_use t" "owes_tenant c t \<le> in_use t"
  by (auto simp: owes_defs in_use_def)

lemma admitted_le: "admitted f t \<le> f t"
  by (simp add: admitted_def)

lemma mem_inv_advance:
  assumes inv: "mem_inv x" and b: "memory_fits x" and i: "i < length (mm_tasks x)" and st: "task_step (mm_tasks x ! i) (mm_governor x) = (t', g')"
  shows "mem_inv (x\<lparr>mm_governor := g', mm_tasks := (mm_tasks x)[i := t']\<rparr>)"
proof -
  define t us where "t = mm_tasks x ! i" and "us = take i (mm_tasks x) @ drop (Suc i) (mm_tasks x)"
  have sp: "owed f (mm_tasks x) = owed f us + f t" "owed f ((mm_tasks x)[i := t']) = owed f us + f t'" for f
    using owed_split [OF i, of f] owed_update [OF i, of f t'] by (simp_all only: t_def us_def)
  let ?G = "owed owes_global us" and ?E = "\<lambda>e. owed (owes_engine e) us" and ?DW = "\<lambda>c. owed (owes_database c) us"
    and ?DR = "\<lambda>c. owed (refs_database c) us" and ?TW = "\<lambda>c. owed (owes_tenant c) us" and ?TR = "\<lambda>c. owed (refs_tenant c) us"
  have ok: "gov_ok ?G ?E ?DW ?DR ?TW ?TR t (mm_governor x)" and t: "task_ok t"
    using inv i by (simp_all add: mem_inv_def gov_ok_def sp) (simp add: t_def)
  show ?thesis
  proof (cases "tk_stage t = Gone")
    case True
    then have "t' = t" "g' = mm_governor x" using st by (simp_all add: t_def [symmetric] task_step_def Let_def)
    then show ?thesis using inv by (simp add: t_def)
  next
    case False
    then have "in_use t = task_size t" by (simp add: in_use_def)
    then have "owed in_use us + task_size t < 2 ^ 64" using b by (simp add: memory_fits_def sp)
    then have f: "fits ?G ?E ?DW ?TW (task_size t)"
      using owed_le [of _ in_use us] owes_in_use unfolding fits_def by (meson add_le_mono1 le_less_trans)
    note st' = st [folded t_def]
    note n = step_ok [OF ok f t st'] and c = step_same_call [OF ok f t st'] and ad = step_admits_global [OF ok f t st'] step_admits_engine [OF ok f t st']
    have "owed (admitted owes_global) us + admitted owes_global t' \<le> gc_ceiling g'"
      using ad(1) c inv owed_le [of "admitted owes_global" owes_global us, OF admitted_le] by (auto simp: mem_inv_def sp same_call_def)
    moreover have "owed (admitted (owes_engine e)) us + admitted (owes_engine e) t' \<le> bg_limit (mg_budgets g' e)" for e
    proof -
      have "owed (admitted (owes_engine e)) us + admitted (owes_engine e) t \<le> bg_limit (mg_budgets (mm_governor x) e)" using inv by (simp add: mem_inv_def sp)
      then show ?thesis using ad(2) [of e] c owed_le [of "admitted (owes_engine e)" "owes_engine e" us, OF admitted_le] by (auto simp: same_call_def)
    qed
    moreover have "\<forall>u\<in>set ((mm_tasks x)[i := t']). task_ok u" using inv n by (auto simp: mem_inv_def dest: set_update_subset_insert [THEN subsetD])
    ultimately show ?thesis using n by (simp add: mem_inv_def sp gov_ok_def)
  qed
qed

lemma mem_inv_event: "mem_inv x \<Longrightarrow> memory_fits x \<Longrightarrow> mem_inv (mem_event ev x)"
proof (cases ev)
  case (Begin charged db tenant engine sz)
  assume "mem_inv x"
  moreover have "owes_global (task_new charged db tenant engine sz) = 0" "owes_engine e (task_new charged db tenant engine sz) = 0"
    "owes_database c (task_new charged db tenant engine sz) = 0" "refs_database c (task_new charged db tenant engine sz) = 0"
    "owes_tenant c (task_new charged db tenant engine sz) = 0" "refs_tenant c (task_new charged db tenant engine sz) = 0"
    "task_ok (task_new charged db tenant engine sz)" for e c
    by (simp_all add: task_new_def scope_new_def owes_defs task_ok_def)
  ultimately show ?thesis by (simp add: mem_inv_def Begin admitted_def)
next
  case (Advance i)
  assume "mem_inv x" "memory_fits x"
  then show ?thesis using mem_inv_advance [of x i] by (auto simp: Advance split: prod.split)
qed (simp_all add: mem_inv_def set_database_budget_def clear_database_budget_def set_tenant_budget_def clear_tenant_budget_def
    clear_database_scope_def clear_tenant_scope_def set_thresholds_def scoped_ok_set scoped_ok_clear scoped_ok_retain)

section \<open>The call as a task run alone\<close>

lemma alone_add: "alone (m + n) x = alone n (alone m x)"
  by (induction m arbitrary: x) simp_all

lemma alone_gone: "tk_stage t = Gone \<Longrightarrow> alone n (t, g) = (t, g)"
  by (induction n) (simp_all add: task_step_def Let_def)

lemma alone_drop: "alone 5 (drop_start t, g) = (t\<lparr>tk_stage := Gone\<rparr>, scope_drop (tk_scope t) g)"
proof (cases "task_size t = 0")
  case True
  have "alone 1 (drop_start t, g) = (t\<lparr>tk_stage := Gone\<rparr>, scope_drop (tk_scope t) g)"
    using True by (simp add: drop_start_def task_step_def Let_def scope_drop_def)
  then show ?thesis using alone_add [of 1 4 "(drop_start t, g)"] alone_gone by simp
next
  case False
  then show ?thesis by (simp add: eval_nat_numeral drop_start_def task_step_def Let_def scope_drop_def)
qed

lemma alone_refused: "alone m x = (drop_start t, g) \<Longrightarrow> m + 5 \<le> n \<Longrightarrow> alone n x = (t\<lparr>tk_stage := Gone\<rparr>, scope_drop (tk_scope t) g)"
  using alone_add [of m "n - m" x] alone_add [of 5 "n - m - 5" "(drop_start t, g)"] by (simp add: alone_drop alone_gone)

lemma layer_steps:
  "tk_stage t = AtGlobal \<Longrightarrow> \<not> tk_charged t \<Longrightarrow> task_step t g = layer_done AtDatabase t (try_credit_global (tk_scope t) g)"
  "tk_stage t = AtDatabase \<Longrightarrow> \<not> tk_charged t \<Longrightarrow> task_step t g = layer_done AtTenant t (reserve_database (tk_db t) (tk_scope t) g)"
  "tk_stage t = AtTenant \<Longrightarrow> \<not> tk_charged t \<Longrightarrow> task_step t g = layer_done AtEngine t (reserve_tenant (tk_db t) (tk_tenant t) (tk_scope t) g)"
  "tk_stage t = AtEngine \<Longrightarrow> \<not> tk_charged t \<Longrightarrow> task_step t g = layer_done Held t (reserve_engine (tk_engine t) (tk_scope t) g)"
  by (simp_all add: task_step_def Let_def)

text \<open>Run alone, the task comes to the result of the call: after \<open>n\<close> steps it holds the token, or after the rollback it is gone.\<close>

definition ends_as :: "task \<times> governor \<Rightarrow> nat \<Rightarrow> (mem_error + reservation_token) \<times> governor \<Rightarrow> bool" where
  "ends_as x n r \<longleftrightarrow> (case r of
     (Inr tok, g') \<Rightarrow> \<exists>t. alone n x = (t, g') \<and> tk_stage t = Held \<and> token_from_layers (tk_scope t) (tk_db t) (tk_tenant t) (tk_engine t) = tok
   | (Inl err, g') \<Rightarrow> \<exists>t. alone (n + 5) x = (t, g') \<and> tk_stage t = Gone)"

lemma ends_step: "ends_as (task_step t g) n r \<Longrightarrow> ends_as (t, g) (Suc n) r"
  by (simp only: ends_as_def add_Suc alone.simps fst_conv snd_conv)

lemma ends_layer:
  assumes "task_step t g = layer_done st t (res, s, h)" and "\<And>u. res = Inr u \<Longrightarrow> ends_as (t\<lparr>tk_scope := s, tk_stage := st\<rparr>, h) n (k u)"
  shows "ends_as (t, g) (Suc n) (case res of Inl e \<Rightarrow> (Inl e, scope_drop s h) | Inr u \<Rightarrow> k u)"
proof (rule ends_step, cases res)
  case (Inl e)
  then have "task_step t g = (drop_start (t\<lparr>tk_scope := s\<rparr>), h)" using assms(1) by (simp add: layer_done_def)
  then show "ends_as (task_step t g) n (case res of Inl e \<Rightarrow> (Inl e, scope_drop s h) | Inr u \<Rightarrow> k u)"
    using alone_refused [of 0 "(drop_start (t\<lparr>tk_scope := s\<rparr>), h)" "t\<lparr>tk_scope := s\<rparr>" h "n + 5"] by (simp add: ends_as_def Inl)
next
  case (Inr u)
  then show "ends_as (task_step t g) n (case res of Inl e \<Rightarrow> (Inl e, scope_drop s h) | Inr u \<Rightarrow> k u)"
    using assms by (simp add: layer_done_def)
qed

lemma reserve_alone: "ends_as (task_new False db tn e sz, g) 4 (try_reserve db tn e sz g)"
proof -
  define T where "T st s = \<lparr>tk_stage = st, tk_scope = s, tk_db = db, tk_tenant = tn, tk_engine = e, tk_charged = False\<rparr>" for st s
  obtain r1 s1 g1 where c1: "try_credit_global (scope_new sz) g = (r1, s1, g1)" by (metis prod_cases3)
  obtain r2 s2 g2 where c2: "reserve_database db s1 g1 = (r2, s2, g2)" by (metis prod_cases3)
  obtain r3 s3 g3 where c3: "reserve_tenant db tn s2 g2 = (r3, s3, g3)" by (metis prod_cases3)
  obtain r4 s4 g4 where c4: "reserve_engine e s3 g3 = (r4, s4, g4)" by (metis prod_cases3)
  define k4 where "k4 = (Inr (token_from_layers s4 db tn e) :: mem_error + reservation_token, g4)"
  define k3 where "k3 = (case r4 of Inl err \<Rightarrow> (Inl err, scope_drop s4 g4) | Inr _ \<Rightarrow> k4)"
  define k2 where "k2 = (case r3 of Inl err \<Rightarrow> (Inl err, scope_drop s3 g3) | Inr _ \<Rightarrow> k3)"
  define k1 where "k1 = (case r2 of Inl err \<Rightarrow> (Inl err, scope_drop s2 g2) | Inr _ \<Rightarrow> k2)"
  have "ends_as (T Held s4, g4) 0 k4" by (simp add: ends_as_def T_def k4_def)
  then have "ends_as (T AtEngine s3, g3) (Suc 0) k3" unfolding k3_def
    by (intro ends_layer [where st = Held]) (simp_all add: T_def layer_steps c4)
  then have "ends_as (T AtTenant s2, g2) (Suc (Suc 0)) k2" unfolding k2_def
    by (intro ends_layer [where st = AtEngine]) (simp_all add: T_def layer_steps c3)
  then have "ends_as (T AtDatabase s1, g1) (Suc (Suc (Suc 0))) k1" unfolding k1_def
    by (intro ends_layer [where st = AtTenant]) (simp_all add: T_def layer_steps c2)
  then have "ends_as (T AtGlobal (scope_new sz), g) (Suc (Suc (Suc (Suc 0)))) (case r1 of Inl err \<Rightarrow> (Inl err, scope_drop s1 g1) | Inr _ \<Rightarrow> k1)"
    by (intro ends_layer [where st = AtDatabase]) (simp_all add: T_def layer_steps c1)
  moreover have "try_reserve db tn e sz g = (case r1 of Inl err \<Rightarrow> (Inl err, scope_drop s1 g1) | Inr _ \<Rightarrow> k1)"
    by (simp add: try_reserve_def c1 c2 c3 c4 k1_def k2_def k3_def k4_def split: sum.split)
  ultimately show ?thesis by (simp add: T_def task_new_def eval_nat_numeral)
qed

section \<open>Counters stay with their scope\<close>

definition anchored_at :: "'k scoped_map \<Rightarrow> 'k \<Rightarrow> nat option \<Rightarrow> bool" where
  "anchored_at m k co \<longleftrightarrow> (case co of None \<Rightarrow> True | Some c \<Rightarrow> map_option sb_counter (map_of (sm_entries m) k) = Some c)"

definition anchored :: "governor \<Rightarrow> task \<Rightarrow> bool" where
  "anchored g t \<longleftrightarrow> tk_stage t = Gone \<or> anchored_at (mg_databases g) (tk_db t) (rs_database (tk_scope t)) \<and>
     anchored_at (mg_tenants g) (tk_db t, tk_tenant t) (rs_tenant (tk_scope t))"

definition teardown :: "event \<Rightarrow> bool" where
  "teardown ev = (case ev of DropDatabaseScope _ \<Rightarrow> True | DropTenantScope _ \<Rightarrow> True | _ \<Rightarrow> False)"

lemma anchored_set: "anchored_at m k co \<Longrightarrow> anchored_at (set_scoped_limit k' n m) k co"
  by (auto simp: anchored_at_def set_scoped_limit_def update_conv' split: option.splits)

lemma anchored_clear:
  assumes "anchored_at m k co" and "scoped_ok m w r" and "\<And>c. co = Some c \<Longrightarrow> 0 < r c"
  shows "anchored_at (clear_scoped_limit k' m) k co"
proof (cases co)
  case (Some c)
  with assms(1) obtain b where b: "map_of (sm_entries m) k = Some b" "sb_counter b = c" by (auto simp: anchored_at_def)
  have "ct_strong (sm_counters m c) \<noteq> 1"
    using scoped_okD(5) [OF assms(2), of c] assms(3) [OF Some] entry_counter_in [OF b(1)] b(2) by auto
  then show ?thesis using b Some
    by (cases "k' = k") (auto simp: anchored_at_def clear_scoped_limit_def arc_drop_def update_conv' delete_conv' split: option.split)
qed (simp add: anchored_at_def)

lemma refs_positive:
  assumes "t \<in> set ts" and "tk_stage t \<noteq> Gone"
  shows "rs_database (tk_scope t) = Some c \<Longrightarrow> 0 < owed (refs_database c) ts" and "rs_tenant (tk_scope t) = Some d \<Longrightarrow> 0 < owed (refs_tenant d) ts"
  using assms member_le_sum_list [of "refs_database c t" "map (refs_database c) ts"] member_le_sum_list [of "refs_tenant d t" "map (refs_tenant d) ts"]
  by (auto simp: refs_database_def refs_tenant_def)

lemma release_entries:
  "sm_entries (mg_databases (release_engine eo n g)) = sm_entries (mg_databases g)" "sm_entries (mg_tenants (release_engine eo n g)) = sm_entries (mg_tenants g)"
  "sm_entries (mg_databases (release_tenant co n g)) = sm_entries (mg_databases g)" "sm_entries (mg_tenants (release_tenant co n g)) = sm_entries (mg_tenants g)"
  "sm_entries (mg_databases (release_database co n g)) = sm_entries (mg_databases g)" "sm_entries (mg_tenants (release_database co n g)) = sm_entries (mg_tenants g)"
  "sm_entries (mg_databases (release_global n g)) = sm_entries (mg_databases g)" "sm_entries (mg_tenants (release_global n g)) = sm_entries (mg_tenants g)"
  "sm_entries (mg_databases (drop_arcs d co g)) = sm_entries (mg_databases g)" "sm_entries (mg_tenants (drop_arcs d co g)) = sm_entries (mg_tenants g)"
  by (auto simp: release_engine_def release_tenant_def release_database_def release_global_def drop_arcs_def counter_set_def arc_drop_def
      split: option.split prod.split)

lemma layer_entries:
  "try_credit_global s g = (res, s', g') \<Longrightarrow> mg_databases g' = mg_databases g \<and> mg_tenants g' = mg_tenants g \<and> rs_database s' = rs_database s \<and> rs_tenant s' = rs_tenant s"
  "reserve_database db s g = (res, s', g') \<Longrightarrow> sm_entries (mg_databases g') = sm_entries (mg_databases g) \<and> mg_tenants g' = mg_tenants g \<and>
     (rs_database s' = rs_database s \<or> anchored_at (mg_databases g) db (rs_database s')) \<and> rs_tenant s' = rs_tenant s"
  "reserve_tenant db tn s g = (res, s', g') \<Longrightarrow> sm_entries (mg_tenants g') = sm_entries (mg_tenants g) \<and> mg_databases g' = mg_databases g \<and>
     (rs_tenant s' = rs_tenant s \<or> anchored_at (mg_tenants g) (db, tn) (rs_tenant s')) \<and> rs_database s' = rs_database s"
  "reserve_engine e s g = (res, s', g') \<Longrightarrow> mg_databases g' = mg_databases g \<and> mg_tenants g' = mg_tenants g \<and> rs_database s' = rs_database s \<and> rs_tenant s' = rs_tenant s"
  by (auto simp: try_credit_global_def reserve_database_def reserve_tenant_def reserve_engine_def scoped_try_reserve_def arc_clone_def
      counter_set_def anchored_at_def Let_def split: option.splits prod.splits sum.splits if_splits bool.splits)

lemma charge_entries:
  "credit_global_unchecked s g = (s', g') \<Longrightarrow> mg_databases g' = mg_databases g \<and> mg_tenants g' = mg_tenants g \<and> rs_database s' = rs_database s \<and> rs_tenant s' = rs_tenant s"
  "charge_database db s g = (s', g') \<Longrightarrow> sm_entries (mg_databases g') = sm_entries (mg_databases g) \<and> mg_tenants g' = mg_tenants g \<and>
     (rs_database s' = rs_database s \<or> anchored_at (mg_databases g) db (rs_database s')) \<and> rs_tenant s' = rs_tenant s"
  "charge_tenant db tn s g = (s', g') \<Longrightarrow> sm_entries (mg_tenants g') = sm_entries (mg_tenants g) \<and> mg_databases g' = mg_databases g \<and>
     (rs_tenant s' = rs_tenant s \<or> anchored_at (mg_tenants g) (db, tn) (rs_tenant s')) \<and> rs_database s' = rs_database s"
  "charge_engine e s g = (s', g') \<Longrightarrow> mg_databases g' = mg_databases g \<and> mg_tenants g' = mg_tenants g \<and> rs_database s' = rs_database s \<and> rs_tenant s' = rs_tenant s"
  by (auto simp: credit_global_unchecked_def charge_database_def charge_tenant_def charge_engine_def scoped_credit_def arc_clone_def
      counter_set_def anchored_at_def Let_def split: option.splits prod.splits)

text \<open>A step changes no entry, and the counter it takes is that of the entry.\<close>

lemma step_anchored:
  assumes "task_step t g = (t', g')"
  shows "sm_entries (mg_databases g') = sm_entries (mg_databases g) \<and> sm_entries (mg_tenants g') = sm_entries (mg_tenants g)"
    and "anchored g t \<Longrightarrow> anchored g' t'"
proof -
  have l: "sm_entries (mg_databases g') = sm_entries (mg_databases g) \<and> sm_entries (mg_tenants g') = sm_entries (mg_tenants g) \<and>
      tk_db t' = tk_db t \<and> tk_tenant t' = tk_tenant t \<and>
      (rs_database (tk_scope t') = rs_database (tk_scope t) \<or> anchored_at (mg_databases g) (tk_db t) (rs_database (tk_scope t'))) \<and>
      (rs_tenant (tk_scope t') = rs_tenant (tk_scope t) \<or> anchored_at (mg_tenants g) (tk_db t, tk_tenant t) (rs_tenant (tk_scope t')))"
    if "layer_done st t r = (t', g')" "r \<in> {(Inr (), credit_global_unchecked (tk_scope t) g), try_credit_global (tk_scope t) g,
        (Inr (), charge_database (tk_db t) (tk_scope t) g), reserve_database (tk_db t) (tk_scope t) g,
        (Inr (), charge_tenant (tk_db t) (tk_tenant t) (tk_scope t) g), reserve_tenant (tk_db t) (tk_tenant t) (tk_scope t) g,
        (Inr (), charge_engine (tk_engine t) (tk_scope t) g), reserve_engine (tk_engine t) (tk_scope t) g}" for st r
  proof -
    obtain res s h where r: "r = (res, s, h)" by (metis prod_cases3)
    have e: "sm_entries (mg_databases h) = sm_entries (mg_databases g) \<and> sm_entries (mg_tenants h) = sm_entries (mg_tenants g) \<and>
      (rs_database s = rs_database (tk_scope t) \<or> anchored_at (mg_databases g) (tk_db t) (rs_database s)) \<and>
      (rs_tenant s = rs_tenant (tk_scope t) \<or> anchored_at (mg_tenants g) (tk_db t, tk_tenant t) (rs_tenant s))"
      using that(2) unfolding r
      by - (elim insertE emptyE; drule sym; (drule layer_entries | (simp only: prod.inject, elim conjE, drule charge_entries)); simp)
    have "tk_scope t' = s" "g' = h" "tk_db t' = tk_db t" "tk_tenant t' = tk_tenant t"
      using that(1) unfolding r by (auto simp: layer_done_def drop_start_def split: sum.splits)
    with e show ?thesis by simp
  qed
  have all: "sm_entries (mg_databases g') = sm_entries (mg_databases g) \<and> sm_entries (mg_tenants g') = sm_entries (mg_tenants g) \<and>
      tk_db t' = tk_db t \<and> tk_tenant t' = tk_tenant t \<and>
      (rs_database (tk_scope t') = rs_database (tk_scope t) \<or> anchored_at (mg_databases g) (tk_db t) (rs_database (tk_scope t'))) \<and>
      (rs_tenant (tk_scope t') = rs_tenant (tk_scope t) \<or> anchored_at (mg_tenants g) (tk_db t, tk_tenant t) (rs_tenant (tk_scope t')))"
    using assms l by (cases "tk_stage t") (auto simp: task_step_def Let_def drop_start_def release_entries split: if_splits)
  then show "sm_entries (mg_databases g') = sm_entries (mg_databases g) \<and> sm_entries (mg_tenants g') = sm_entries (mg_tenants g)" by blast
  have "tk_stage t = Gone \<Longrightarrow> tk_stage t' = Gone" using assms by (simp add: task_step_def Let_def)
  then show "anchored g t \<Longrightarrow> anchored g' t'" using all by (auto simp: anchored_def anchored_at_def split: option.splits)
qed

definition all_anchored :: "memory \<Rightarrow> bool" where
  "all_anchored x \<longleftrightarrow> (\<forall>t\<in>set (mm_tasks x). anchored (mm_governor x) t)"

lemma anchored_cong:
  "anchored g t \<Longrightarrow> sm_entries (mg_databases g') = sm_entries (mg_databases g) \<Longrightarrow> sm_entries (mg_tenants g') = sm_entries (mg_tenants g) \<Longrightarrow> anchored g' t"
  by (auto simp: anchored_def anchored_at_def split: option.splits)

lemma all_anchored_event:
  assumes "mem_inv x" and "all_anchored x" and "\<not> teardown ev"
  shows "all_anchored (mem_event ev x)"
proof -
  have ok: "scoped_ok (mg_databases (mm_governor x)) (\<lambda>c. owed (owes_database c) (mm_tasks x)) (\<lambda>c. owed (refs_database c) (mm_tasks x))"
    "scoped_ok (mg_tenants (mm_governor x)) (\<lambda>c. owed (owes_tenant c) (mm_tasks x)) (\<lambda>c. owed (refs_tenant c) (mm_tasks x))"
    using assms(1) by (simp_all add: mem_inv_def)
  have an: "anchored (mm_governor x) t" if "t \<in> set (mm_tasks x)" for t using assms(2) that by (simp add: all_anchored_def)
  show ?thesis
  proof (cases ev)
    case (Begin charged db tenant engine sz)
    then show ?thesis using assms(2) by (auto simp: all_anchored_def task_new_def scope_new_def anchored_def anchored_at_def)
  next
    case (Advance i)
    obtain t' g' where st: "task_step (mm_tasks x ! i) (mm_governor x) = (t', g')" by fastforce
    note e = step_anchored [OF st]
    have "anchored g' t" if "t \<in> set ((mm_tasks x)[i := t'])" "i < length (mm_tasks x)" for t
      using that e an [of t] an [of "mm_tasks x ! i"] anchored_cong [of "mm_governor x" t g'] set_update_subset_insert [of "mm_tasks x" i t'] by auto
    then show ?thesis using assms(2) by (simp add: Advance st all_anchored_def)
  next
    case (SetDatabase db n)
    have "anchored (set_database_budget db n (mm_governor x)) t" if "t \<in> set (mm_tasks x)" for t
      using an [OF that] by (auto simp: set_database_budget_def anchored_def anchored_set)
    then show ?thesis by (simp add: all_anchored_def SetDatabase)
  next
    case (SetTenant db tn n)
    have "anchored (set_tenant_budget db tn n (mm_governor x)) t" if "t \<in> set (mm_tasks x)" for t
      using an [OF that] by (auto simp: set_tenant_budget_def anchored_def anchored_set)
    then show ?thesis by (simp add: all_anchored_def SetTenant)
  next
    case (ClearDatabase db)
    have "anchored (clear_database_budget db (mm_governor x)) t" if "t \<in> set (mm_tasks x)" for t
      using an [OF that] refs_positive(1) [OF that] anchored_clear [OF _ ok(1)] by (auto simp: clear_database_budget_def anchored_def)
    then show ?thesis by (simp add: all_anchored_def ClearDatabase)
  next
    case (ClearTenant db tn)
    have "anchored (clear_tenant_budget db tn (mm_governor x)) t" if "t \<in> set (mm_tasks x)" for t
      using an [OF that] refs_positive(2) [OF that] anchored_clear [OF _ ok(2)] by (auto simp: clear_tenant_budget_def anchored_def)
    then show ?thesis by (simp add: all_anchored_def ClearTenant)
  next
    case (SetThresholds th)
    then show ?thesis using assms(2) by (simp add: all_anchored_def set_thresholds_def anchored_def)
  qed (use assms(3) in \<open>simp_all add: teardown_def\<close>)
qed

section \<open>Runs\<close>

definition memory_new :: "governor \<Rightarrow> memory" where
  "memory_new g = \<lparr>mm_governor = g, mm_tasks = []\<rparr>"

definition limits_are :: "nat \<Rightarrow> (engine_id \<Rightarrow> nat) \<Rightarrow> governor \<Rightarrow> bool" where
  "limits_are ceiling l g \<longleftrightarrow> gc_ceiling g = ceiling \<and> (\<forall>e. bg_limit (mg_budgets g e) = l e)"

lemma limits_event:
  assumes "mem_inv x" and "memory_fits x" and "limits_are ceiling l (mm_governor x)"
  shows "limits_are ceiling l (mm_governor (mem_event ev x))"
proof (cases ev)
  case (Advance i)
  have lim: "gc_ceiling g' = gc_ceiling g \<and> bg_limit (mg_budgets g' e) = bg_limit (mg_budgets g e)" if "task_step t g = (t', g')" for t t' g g' e
    using that
    by (auto simp: task_step_def Let_def layer_done_def release_frame try_credit_global_def reserve_database_def reserve_tenant_def reserve_engine_def
        budget_try_reserve_def raise_peak_def dest!: charge_frame split: stage.splits if_splits prod.splits sum.splits option.splits bool.splits)
  then show ?thesis using assms(3) by (auto simp: Advance limits_are_def split: prod.split)
qed (use assms(3) in \<open>simp_all add: limits_are_def set_database_budget_def clear_database_budget_def set_tenant_budget_def
    clear_tenant_budget_def clear_database_scope_def clear_tenant_scope_def set_thresholds_def\<close>)

lemma mem_run:
  assumes new: "governor_new ceiling l = Inr g" and fits: "\<And>n. memory_fits (fold mem_event (take n es) (memory_new g))"
  defines "x \<equiv> fold mem_event es (memory_new g)"
  shows "mem_inv x" and "limits_are ceiling l (mm_governor x)" and "(\<And>ev. ev \<in> set es \<Longrightarrow> \<not> teardown ev) \<Longrightarrow> all_anchored x"
proof -
  have "mem_inv y \<and> limits_are ceiling l (mm_governor y) \<and> ((\<forall>ev\<in>set (take n es). \<not> teardown ev) \<longrightarrow> all_anchored y)"
    if "y = fold mem_event (take n es) (memory_new g)" for n y
    using that
  proof (induction n arbitrary: y)
    case 0
    then show ?case using new
      by (auto simp: scoped_ok_new mem_inv_def memory_new_def governor_new_def budget_new_def over_release_new_def limits_are_def all_anchored_def split: sum.splits)
  next
    case (Suc n)
    let ?z = "fold mem_event (take n es) (memory_new g)"
    note z = Suc.IH [OF refl] fits [of n]
    show ?case
    proof (cases "n < length es")
      case True
      then have "y = mem_event (es ! n) ?z" "set (take (Suc n) es) = insert (es ! n) (set (take n es))"
        using Suc.prems by (simp_all add: take_Suc_conv_app_nth)
      then show ?thesis using z mem_inv_event limits_event all_anchored_event by auto
    next
      case False
      then show ?thesis using z Suc.prems by simp
    qed
  qed
  from this [of x "length es"] show "mem_inv x" "limits_are ceiling l (mm_governor x)"
    "(\<And>ev. ev \<in> set es \<Longrightarrow> \<not> teardown ev) \<Longrightarrow> all_anchored x" by (simp_all add: x_def)
qed

text \<open>It is enough that all requests of the run together stay below \<open>usize::MAX\<close>.\<close>

definition requested :: "event \<Rightarrow> nat" where
  "requested ev = (case ev of Begin _ _ _ _ sz \<Rightarrow> sz | _ \<Rightarrow> 0)"

lemma step_in_use: "task_step t g = (t', g') \<Longrightarrow> in_use t' \<le> in_use t"
proof (cases "tk_stage t")
  case Gone
  then show "task_step t g = (t', g') \<Longrightarrow> in_use t' \<le> in_use t" by (simp add: task_step_def Let_def)
qed (auto simp: in_use_def task_step_def Let_def layer_done_def drop_start_def try_credit_global_def reserve_database_def reserve_tenant_def
    reserve_engine_def dest!: charge_frame split: if_splits prod.splits sum.splits option.splits bool.splits)

lemma event_in_use: "owed in_use (mm_tasks (mem_event ev x)) \<le> owed in_use (mm_tasks x) + requested ev"
proof (cases ev)
  case (Begin charged db tenant engine sz)
  then show ?thesis by (simp add: requested_def in_use_def task_new_def scope_new_def)
next
  case (Advance i)
  obtain t' g' where st: "task_step (mm_tasks x ! i) (mm_governor x) = (t', g')" by fastforce
  show ?thesis
  proof (cases "i < length (mm_tasks x)")
    case True
    then have "owed in_use (mm_tasks (mem_event ev x)) = owed in_use ((mm_tasks x)[i := t'])" by (simp add: Advance st)
    then show ?thesis using step_in_use [OF st] unfolding owed_update [OF True] owed_split [OF True, of in_use] by simp
  qed (simp add: Advance)
qed (simp_all add: requested_def)

lemma run_in_use: "owed in_use (mm_tasks (fold mem_event es x)) \<le> owed in_use (mm_tasks x) + sum_list (map requested es)"
proof (induction es arbitrary: x)
  case (Cons ev es)
  show ?case using Cons [of "mem_event ev x"] event_in_use [of ev x] by simp
qed simp

lemma fits_small: "sum_list (map requested es) < 2 ^ 64 \<Longrightarrow> memory_fits (fold mem_event (take n es) (memory_new g))"
proof -
  assume "sum_list (map requested es) < 2 ^ 64"
  moreover have "sum_list (map requested (take n es)) \<le> sum_list (map requested es)"
    by (metis append_take_drop_id le_add1 map_append sum_list_append)
  ultimately show ?thesis using run_in_use [of "take n es" "memory_new g"] by (simp add: memory_fits_def memory_new_def)
qed

end
