(* ===== verification/Mem_Properties.thy ===== *)
theory Mem_Properties
  imports Mem_Sharing
begin

text \<open>
  Properties of the memory governor: what one reservation does, and what all of them together owe to the
  counters under every interleaving.
\<close>

section \<open>Accounting\<close>

text \<open>The debt of a task to the budget of a database or a tenant, named by the scope.\<close>

definition database_debt :: "u64 \<Rightarrow> task \<Rightarrow> nat" where
  "database_debt db t = (if tk_db t = db \<and> rs_database (tk_scope t) \<noteq> None \<and> tk_stage t \<notin> {DropGlobal, DropArcs, Gone} then task_size t else 0)"

definition tenant_debt :: "u64 \<Rightarrow> u64 \<Rightarrow> task \<Rightarrow> nat" where
  "tenant_debt db tn t = (if tk_db t = db \<and> tk_tenant t = tn \<and> rs_tenant (tk_scope t) \<noteq> None \<and>
     tk_stage t \<notin> {DropDatabase, DropGlobal, DropArcs, Gone} then task_size t else 0)"

lemma entries_inj:
  assumes "scoped_ok m w r" and "map_of (sm_entries m) k = Some b" and "map_of (sm_entries m) k' = Some b'" and "sb_counter b = sb_counter b'"
  shows "k = k'"
proof -
  have "(k, b) \<in> set (sm_entries m)" "(k', b') \<in> set (sm_entries m)" using assms(2,3) by (auto dest: map_of_SomeD)
  then show ?thesis using scoped_okD(2) [OF assms(1)] assms(4) unfolding entry_counters_def distinct_map inj_on_def comp_def by (metis snd_conv fst_conv)
qed

lemma anchored_at_iff:
  assumes "scoped_ok m w r" and "map_of (sm_entries m) k = Some b" and "anchored_at m k' co"
  shows "co = Some (sb_counter b) \<longleftrightarrow> k' = k \<and> co \<noteq> None"
proof (cases co)
  case (Some c)
  with assms(3) obtain b' where "map_of (sm_entries m) k' = Some b'" "sb_counter b' = c" by (auto simp: anchored_at_def)
  then show ?thesis using entries_inj [OF assms(1) _ assms(2), of k' b'] assms(2) Some by auto
qed simp

lemma scoped_value_owed:
  assumes "scoped_ok m w r" and "map_of (sm_entries m) k = Some b"
  shows "scoped_value k m = w (sb_counter b)"
  using assms scoped_okD(4) [OF assms(1)] by (simp add: scoped_value_def)

lemma anchored_debt:
  assumes inv: "mem_inv x" and an: "all_anchored x"
  shows "map_of (sm_entries (mg_databases (mm_governor x))) db \<noteq> None \<Longrightarrow>
      scoped_value db (mg_databases (mm_governor x)) = owed (database_debt db) (mm_tasks x)"
    and "map_of (sm_entries (mg_tenants (mm_governor x))) (db, tn) \<noteq> None \<Longrightarrow>
      scoped_value (db, tn) (mg_tenants (mm_governor x)) = owed (tenant_debt db tn) (mm_tasks x)"
proof -
  let ?d = "mg_databases (mm_governor x)" and ?t = "mg_tenants (mm_governor x)"
  have d: "scoped_ok ?d (\<lambda>c. owed (owes_database c) (mm_tasks x)) (\<lambda>c. owed (refs_database c) (mm_tasks x))"
    and t: "scoped_ok ?t (\<lambda>c. owed (owes_tenant c) (mm_tasks x)) (\<lambda>c. owed (refs_tenant c) (mm_tasks x))"
    using inv by (simp_all add: mem_inv_def)
  show "scoped_value db ?d = owed (database_debt db) (mm_tasks x)" if e: "map_of (sm_entries ?d) db \<noteq> None"
  proof -
    obtain b where b: "map_of (sm_entries ?d) db = Some b" using e by blast
    have "owes_database (sb_counter b) s = database_debt db s" if "s \<in> set (mm_tasks x)" for s
    proof -
      have "tk_stage s = Gone \<or> anchored_at ?d (tk_db s) (rs_database (tk_scope s))" using an that by (auto simp: all_anchored_def anchored_def)
      then show ?thesis using anchored_at_iff [OF d b] by (auto simp: owes_database_def database_debt_def)
    qed
    then show ?thesis unfolding scoped_value_owed [OF d b] by (simp cong: map_cong)
  qed
  show "scoped_value (db, tn) ?t = owed (tenant_debt db tn) (mm_tasks x)" if e: "map_of (sm_entries ?t) (db, tn) \<noteq> None"
  proof -
    obtain b where b: "map_of (sm_entries ?t) (db, tn) = Some b" using e by blast
    have "owes_tenant (sb_counter b) s = tenant_debt db tn s" if "s \<in> set (mm_tasks x)" for s
    proof -
      have "tk_stage s = Gone \<or> anchored_at ?t (tk_db s, tk_tenant s) (rs_tenant (tk_scope s))" using an that by (auto simp: all_anchored_def anchored_def)
      then show ?thesis using anchored_at_iff [OF t b] by (auto simp: owes_tenant_def tenant_debt_def)
    qed
    then show ?thesis unfolding scoped_value_owed [OF t b] by (simp cong: map_cong)
  qed
qed

text \<open>
  C35. The governor never loses a byte. Take any interleaving of reservations, charges,
  rollbacks, token drops and quota changes on a new governor, in which the bytes in flight stay below
  \<open>usize::MAX\<close>. The global counter and every engine counter are the sum of what the calls and tokens
  alive still owe them; no release ever falls short; and the bytes admitted by \<open>try_reserve\<close> exceed neither the
  global ceiling nor the limit of any engine. As long as no scope is torn down, the same
  holds of the budget of a database and of a tenant, however often its cap is set and
  cleared meanwhile.
\<close>

theorem governor_accounting:
  assumes "governor_new ceiling l = Inr g" and "\<And>n. memory_fits (fold mem_event (take n es) (memory_new g))"
    and "x = fold mem_event es (memory_new g)"
  shows "gc_allocated (mm_governor x) = owed owes_global (mm_tasks x) \<and>
    (\<forall>e. bg_allocated (mg_budgets (mm_governor x) e) = owed (owes_engine e) (mm_tasks x)) \<and>
    gc_over (mm_governor x) = over_release_new \<and>
    owed (admitted owes_global) (mm_tasks x) \<le> ceiling \<and>
    (\<forall>e. owed (admitted (owes_engine e)) (mm_tasks x) \<le> l e) \<and>
    ((\<forall>ev\<in>set es. \<not> teardown ev) \<longrightarrow>
      (\<forall>db. map_of (sm_entries (mg_databases (mm_governor x))) db \<noteq> None \<longrightarrow>
         scoped_value db (mg_databases (mm_governor x)) = owed (database_debt db) (mm_tasks x)) \<and>
      (\<forall>db tn. map_of (sm_entries (mg_tenants (mm_governor x))) (db, tn) \<noteq> None \<longrightarrow>
         scoped_value (db, tn) (mg_tenants (mm_governor x)) = owed (tenant_debt db tn) (mm_tasks x)))"
proof -
  note r = mem_run [OF assms(1,2), folded assms(3)]
  have "(\<forall>ev\<in>set es. \<not> teardown ev) \<Longrightarrow> all_anchored x" using r(3) by blast
  note d = anchored_debt [OF r(1) this]
  show ?thesis using r(1,2) d by (auto simp: mem_inv_def limits_are_def)
qed

text \<open>
  C36. One reservation, with sums below \<open>usize::MAX\<close>. It is refused by the first of the global
  ceiling, the database cap, the tenant cap and the engine limit that it would pass, naming that layer, and a refused
  reservation leaves the governor exactly as it was but for the count of rejections of the engine. Otherwise it
  does what an unconditional charge does, and dropping the token takes all of it back but for the engine's peak.
  The interleaved task, run alone, ends in the same state.
\<close>

theorem reserve_outcome:
  assumes "reserve_fits db tn e sz g" and "try_reserve db tn e sz g = (res, g')"
  shows "(res, g') =
      (if sz \<noteq> 0 \<and> gc_allocated g + sz > gc_ceiling g
       then (Inl (GlobalCeilingExceeded (gc_allocated g) (gc_ceiling g) sz), g)
       else case over_cap db sz (mg_databases g) of Some (a, c) \<Rightarrow> (Inl (DatabaseBudgetExhausted db sz a c), g)
       | None \<Rightarrow> (case over_cap (db, tn) sz (mg_tenants g) of Some (a, c) \<Rightarrow> (Inl (TenantBudgetExhausted db tn sz a c), g)
       | None \<Rightarrow> if bg_allocated (mg_budgets g e) + sz > bg_limit (mg_budgets g e)
         then (Inl (BudgetExhausted e sz (budget_available (mg_budgets g e)) (bg_limit (mg_budgets g e))), rejection_counted e g)
         else (Inr (fst (charge db tn e sz g)), snd (charge db tn e sz g)))) \<and>
    token_drop (fst (charge db tn e sz g)) (snd (charge db tn e sz g)) = peak_raised e sz g \<and>
    ends_as (task_new False db tn e sz, g) 4 (res, g')"
  using try_reserve_outcome [OF assms(1)] assms(2) charge_undone [OF assms(1), of "fst (charge db tn e sz g)" "snd (charge db tn e sz g)"]
    reserve_alone [of db tn e sz g] by simp

section \<open>Witnesses\<close>

text \<open>Two reservations of a database whose cap is cleared between their steps.\<close>

definition limits1 :: "engine_id \<Rightarrow> nat" where
  "limits1 e = (if e = Kv then 60 else 0)"

definition governor1 :: governor where
  "governor1 = \<lparr>mg_budgets = (\<lambda>e. budget_new (limits1 e)), gc_allocated = 0, gc_ceiling = 100, gc_over = over_release_new,
     mg_ceiling = 100, mg_thresholds = thresholds_default, mg_databases = scoped_map_new, mg_tenants = scoped_map_new\<rparr>"

definition events1 :: "event list" where
  "events1 = [SetDatabase 1 40, Begin False 1 7 Kv 30, Advance 0, Advance 0, Begin False 1 8 Kv 20, Advance 1, ClearDatabase 1, Advance 1]"

lemma governor1_new: "governor_new 100 limits1 = Inr governor1"
  by (simp add: governor_new_def validate_def limits_total_def engine_all_def limits1_def governor1_def wrapping_add_def)

lemma events1_entry: "map_of (sm_entries (mg_databases (mm_governor (fold mem_event events1 (memory_new governor1))))) 1 \<noteq> None"
  "gc_allocated (mm_governor (fold mem_event events1 (memory_new governor1))) = 50"
  by (simp_all add: events1_def memory_new_def governor1_def task_new_def scope_new_def task_step_def layer_done_def
      try_credit_global_def reserve_database_def scoped_try_reserve_def set_database_budget_def clear_database_budget_def set_scoped_limit_def
      clear_scoped_limit_def scoped_map_new_def arc_clone_def counter_set_def wrapping_add_def Let_def)

theorem governor_accounting_witness:
  "\<exists>x. x = fold mem_event events1 (memory_new governor1) \<and> gc_allocated (mm_governor x) = 50 \<and> owed owes_global (mm_tasks x) = 50 \<and>
     gc_over (mm_governor x) = over_release_new \<and> owed (admitted owes_global) (mm_tasks x) \<le> 100 \<and>
     scoped_value 1 (mg_databases (mm_governor x)) = owed (database_debt 1) (mm_tasks x)"
proof -
  have f: "memory_fits (fold mem_event (take n events1) (memory_new governor1))" for n
    by (rule fits_small) (simp add: events1_def requested_def)
  have "\<forall>ev\<in>set events1. \<not> teardown ev" by (simp add: events1_def teardown_def)
  then show ?thesis using governor_accounting [OF governor1_new f refl] events1_entry by (simp del: One_nat_def)
qed

theorem reserve_outcome_witness:
  "\<exists>tok g'. try_reserve 1 7 Kv 30 governor1 = (Inr tok, g') \<and> fst (try_reserve 1 7 Kv 70 governor1) = Inl (BudgetExhausted Kv 70 60 60) \<and>
     (\<exists>t. alone 4 (task_new False 1 7 Kv 30, governor1) = (t, g') \<and> tk_stage t = Held) \<and>
     token_drop (fst (charge 1 7 Kv 30 governor1)) (snd (charge 1 7 Kv 30 governor1)) = peak_raised Kv 30 governor1"
proof -
  have f: "reserve_fits 1 7 Kv 30 governor1" "reserve_fits 1 7 Kv 70 governor1"
    by (simp_all add: reserve_fits_def governor1_def scoped_value_def scoped_map_new_def budget_new_def)
  obtain r1 g1 r2 g2 where c: "try_reserve 1 7 Kv 30 governor1 = (r1, g1)" "try_reserve 1 7 Kv 70 governor1 = (r2, g2)" by fastforce
  have v: "over_cap 1 sz (mg_databases governor1) = None" "over_cap (1, 7) sz (mg_tenants governor1) = None" "gc_allocated governor1 = 0"
    "gc_ceiling governor1 = 100" "bg_allocated (mg_budgets governor1 Kv) = 0" "bg_limit (mg_budgets governor1 Kv) = 60"
    "budget_available (mg_budgets governor1 Kv) = 60" for sz
    by (simp_all add: governor1_def over_cap_def scoped_map_new_def budget_new_def limits1_def budget_available_def)
  note o = reserve_outcome [OF f(1) c(1)]
  have r: "r1 = Inr (fst (charge 1 7 Kv 30 governor1))" "r2 = Inl (BudgetExhausted Kv 70 60 60)"
    using o reserve_outcome [OF f(2) c(2)] by (simp_all add: v del: One_nat_def)
  from o have "\<exists>t. alone 4 (task_new False 1 7 Kv 30, governor1) = (t, g1) \<and> tk_stage t = Held" by (auto simp: r(1) ends_as_def)
  moreover from o have "token_drop (fst (charge 1 7 Kv 30 governor1)) (snd (charge 1 7 Kv 30 governor1)) = peak_raised Kv 30 governor1"
    by (elim conjE)
  ultimately show ?thesis unfolding c r by (intro exI [of _ "fst (charge 1 7 Kv 30 governor1)"] exI [of _ g1] conjI) (simp_all only: fst_conv)
qed

end
