(* ===== verification/Spec2Isabelle.thy ===== *)
theory Spec2Isabelle
  imports Log_Properties Node_Properties Lease_Properties Snapshot_Properties Replication_Properties
    Membership_Properties Apply_Properties Snapshot_Framing Codec_Delta System_Properties Bridge_Properties Mem_Properties
begin

text \<open>
  The consensus core of NodeDB and three parts around it. The crate \<open>nodedb-raft\<close> and the parts of
  \<open>nodedb-cluster\<close> and \<open>nodedb\<close> that drive it: a Raft group replicates a log, every server keeps one
  \<open>RaftNode\<close> per group, and the driver ticks the node, delivers RPCs to it, persists its hard state, sends
  the messages of \<open>Ready\<close>, and hands committed entries to the state machine. The bridge
  \<open>nodedb-bridge\<close>, which carries requests from the control plane to a data-plane core and back. The memory
  governor \<open>nodedb-mem\<close>, which every reservation of an engine passes. The wire formats of snapshots
  (\<open>nodedb-raft\<close>) and of delta columns (\<open>nodedb-codec\<close>).

  \<^bold>\<open>Theories of one Raft node.\<close>
  \<^item> \<open>Prelude\<close>: integer widths, association lists, searches, and the quorum interface with
    majorities as its instance.
  \<^item> \<open>Raft_Types\<close>: \<open>message.rs\<close>, \<open>error.rs\<close>, \<open>node/config.rs\<close> and the plain types of \<open>state.rs\<close>.
  \<^item> \<open>Raft_Storage\<close>: the trait \<open>LogStorage\<close> as a record of operations, its contract as the locale
    \<open>log_storage\<close>, and \<open>MemStorage\<close>, which interprets the locale. \<open>Storage_Faults\<close>: a storage whose
    writes fail by plan and become durable late; it interprets the locale too and serves the witnesses.
  \<^item> \<open>Raft_Log\<close>: \<open>log.rs\<close>. \<open>Raft_Leader_State\<close>: \<open>LeaderState\<close> and \<open>ObserverState\<close> of \<open>state.rs\<close>.
    \<open>Raft_Lease\<close>: \<open>LeaseState\<close> of \<open>node/leader_lease.rs\<close>.
  \<^item> \<open>Raft_Node\<close>: the record \<open>RaftNode\<close> (\<open>node/core.rs\<close>), \<open>node/internal.rs\<close>,
    \<open>node/durability.rs\<close>, \<open>node/quorum_contact.rs\<close>, \<open>node/peer_contact.rs\<close>, \<open>node/staleness.rs\<close>.
  \<^item> \<open>Raft_Handlers\<close>: \<open>node/election.rs\<close>, \<open>node/rpc/\<close>, \<open>node/membership.rs\<close>,
    \<open>node/snapshot_debt.rs\<close>, \<open>node/read_index.rs\<close>, \<open>RaftNode::tick\<close> and \<open>RaftNode::propose\<close>.
  \<^item> \<open>Raft_Step\<close>: every public operation as a \<open>node_event\<close>, \<open>exec\<close> for one event, \<open>run\<close> for a
    sequence, and the tick of one group (\<open>multi_raft/core.rs\<close>). It proves that watermarks only move
    forward, and hard state too while the term is below \<open>u64::MAX\<close>.
  \<^item> \<open>Raft_Invariant\<close>: the node invariant and that every event keeps it and every committed entry.
    \<open>Raft_Tracking\<close>: leader state against role and configuration.
  \<^item> \<open>Raft_Apply\<close>: the apply path, \<open>raft_loop/tick/apply_committed.rs\<close> and
    \<open>control/distributed_applier/applier.rs\<close>, as a step relation of one data group.
  \<^item> \<open>Log_Properties\<close> (the log), \<open>Node_Properties\<close> (votes, commit rule, \<open>AppendEntries\<close>,
    proposals), \<open>Lease_Properties\<close> (check-quorum, lease, read index), \<open>Snapshot_Properties\<close>
    (compaction and boundaries), \<open>Replication_Properties\<close> (back-off and tracking),
    \<open>Membership_Properties\<close> (voter changes and transfer), \<open>Apply_Properties\<close> (accepted and refused
    batches): the properties of one part each. This theory holds the ones that span parts.
    \<open>Raft_Examples\<close> holds the concrete logs, nodes and runs that the witnesses evaluate.

  \<^bold>\<open>Theories of a whole group.\<close>
  \<^item> \<open>Raft_Election\<close>, \<open>Raft_Durable\<close>, \<open>Raft_Cluster\<close>: what an event asks of other voters, what
    is on disk, and the voters as a step relation with message loss, repetition, failed writes and
    restarts; election safety.
  \<^item> \<open>Raft_Spec\<close>: an abstract specification of elections, acknowledgements and logs, and its safety
    argument over any quorums that meet.
  \<^item> \<open>Raft_Replication\<close>, \<open>Raft_Group\<close>: what an event changes of log, commit index and requests; the
    group that elects, replicates, commits and restarts, with the request service of
    \<open>raft_loop/handle_rpc/consensus.rs\<close>.
  \<^item> \<open>Raft_Simulation\<close>, \<open>Raft_Refinement\<close>, \<open>Raft_Safety\<close>: every step of the group is matched by steps
    of the specification, inside the locale \<open>log_storage\<close>, and what that gives. \<open>Raft_Run\<close> is a concrete
    run with a failed append and a durability lag. \<open>System_Properties\<close> states refinement, state
    machine safety, durability, leader completeness and log matching.

  \<^bold>\<open>Theories of the other parts.\<close>
  \<^item> \<open>Byte_Codec\<close>, \<open>Snapshot_Framing\<close>: the contract of a wire format as the locale \<open>exact_codec\<close>,
    and \<open>snapshot_framing.rs\<close>, which interprets it for every checksum function. \<open>Codec_Bounds\<close>,
    \<open>Codec_Delta\<close>: the delta codec of \<open>nodedb-codec\<close>; its decoder accepts exactly what its encoder writes.
  \<^item> \<open>Bridge_Ring\<close>, \<open>Bridge_Channel\<close>, \<open>Bridge_Wfq\<close>, \<open>Bridge_Properties\<close>: the lock-free ring under every
    interleaving of its atomic accesses, the two-way channel with backpressure, and the weighted-fair
    queue; order, conservation and the bound on waiting.
  \<^item> \<open>Mem_Governor\<close>, \<open>Mem_Sharing\<close>, \<open>Mem_Properties\<close>: budgets, quotas and tokens, and reservations that
    interleave; the accounting is exact.

  \<^bold>\<open>How the model corresponds to the code.\<close> A struct is a record, an enum a datatype, with the
  field names of the source, prefixed where two records share one. A method that mutates \<open>self\<close>
  returns the new state. A fallible method returns \<open>raft_error + 'a\<close>, paired with the state, since
  the source keeps the mutations made before the error. In the Raft theories \<open>u64\<close> is \<open>nat\<close>. The additions to
  a term wrap, as \<open>+\<close> does in a release build (\<open>wrap_add_u64\<close>); \<open>sat_add_u64\<close> and \<open>sat_add_u32\<close>
  are \<open>saturating_add\<close>; log indices, which count entries, are taken not to reach the width. The ring counters
  and the column codec are words, the governor writes the wrap-around of its sums out. A byte is
  \<open>8 word\<close>. \<open>Instant\<close> and \<open>Duration\<close> are \<open>nat\<close>. \<open>Instant::now()\<close> and the random election timeout come from
  \<open>step_env\<close>, fixed for one call. \<open>HashSet\<close> is a set, \<open>HashMap\<close> a map, and a vector of pairs an
  association list. The storage is the record of operations that each definition takes first.
  \<open>Duration::mul_f64\<close> of the drift ratio is the parameter \<open>drift\<close>.

  \<^bold>\<open>What the group claims assume.\<close> The storage meets \<open>log_storage\<close>: a write that fails changes nothing a
  later load sees, and one that succeeds is there at the next load; any write may fail and
  \<open>stable_through\<close> may answer anything. The voter set is fixed, and has at least two members for the
  claims of \<open>System_Properties\<close>; those also exclude compaction and snapshots. No voter has reached term
  \<open>u64::MAX\<close>, where the next election wraps the term to zero (\<open>election_wraps\<close>). The claims about one
  node that depend on its leader take \<open>event_ok\<close>: batches are consecutive and do not contradict what is
  committed. The bound on bytes in flight of the governor claims is in their statements.

  \<^bold>\<open>Bounds.\<close> No definition uses fuel. The loops of the source run over a list or an index range, or their
  recursion comes with a termination proof.

  \<^bold>\<open>Not modelled.\<close> Serialisation of Raft messages, transport and logging; failpoints, which are compiled
  out; asynchronous disk tickets, which the model collapses into the persist call; the background task
  that executes the entries handed over; the other column codecs; the rest of the server, cluster runtime,
  engines and SQL front end.
\<close>

section \<open>A cluster of voters\<close>

text \<open>
  C1. Election safety. Take a group with a fixed voter set on any storage that meets the contract
  \<open>log_storage\<close>, started from disks without votes, and any run of it in which no voter has reached term
  \<open>u64::MAX\<close>. Two leaders of the same term are the same node. The steps are the ticks of each group with
  their hard-state persist, vote requests delivered in any order, late, more than once or never, persists
  that fail, every other node event with arbitrary arguments except a change of the voter set, and
  restarts from disk at any point. At term \<open>u64::MAX\<close> the next election wraps the term to zero.
\<close>

theorem election_safety:
  assumes "log_storage ops held" and "cluster_start ops V c" and "cluster_run ops V c d" and "i \<in> V" and "j \<in> V"
    and "role (cl_node d i) = Leader" and "role (cl_node d j) = Leader"
    and "term_of (cl_node d i) = term_of (cl_node d j)"
  shows "i = j"
  by (rule log_storage.election_safety_storage [OF assms])

theorem election_safety_witness:
  "role (cl_node trio7 1) = Leader \<and>
   \<not> (role (cl_node trio7 2) = Leader \<and> term_of (cl_node trio7 2) = 1) \<and>
   \<not> (role (cl_node trio7 3) = Leader \<and> term_of (cl_node trio7 3) = 1)"
proof -
  have "(1::nat) \<in> trio" "(2::nat) \<in> trio" "(3::nat) \<in> trio" by (simp_all add: trio_def)
  then show ?thesis
    using election_safety [OF faulty.log_storage_axioms trio_start trio_reached [unfolded trio0_def], of 1] trio_leader by fastforce
qed

section \<open>Runs of one node\<close>

text \<open>
  C11. Over any sequence of events whose calls find the term below \<open>u64::MAX\<close>, the term never decreases,
  and within a term a vote once cast is neither withdrawn nor given to another candidate. This needs
  nothing of the storage and nothing else of the messages: it holds across failed writes and hostile
  requests. A message may carry term \<open>u64::MAX\<close>; an election after it wraps the term to zero.
\<close>

theorem vote_binding:
  assumes "run_ok (\<lambda>_. term_fits) ops evs n"
  shows "hard_le (hard n) (hard (run ops evs n))"
  by (rule hard_le_run [OF assms])

text \<open>The leader of term 1, which voted for itself, asked for its vote by voter 3 in term 1.\<close>

definition rival_ask :: "(step_env \<times> node_event) list" where
  "rival_ask = [(at_time 5000, RecvVote (ask2\<lparr>rv_candidate_id := 3, rv_last_log_index := 9, rv_last_log_term := 1\<rparr>))]"

theorem vote_binding_witness:
  "vote_of leader3 = 1 \<and> term_of leader3 = 1 \<and> hard_le (hard leader3) (hard (run mem_ops rival_ask leader3)) \<and>
   term_of (run mem_ops rival_ask leader3) = 1 \<and> vote_of (run mem_ops rival_ask leader3) = 1"
proof -
  have "term_of leader3 = 1" "vote_of leader3 = 1" "term_of (run mem_ops rival_ask leader3) = 1" by code_simp+
  moreover from this(1) have "run_ok (\<lambda>_. term_fits) mem_ops rival_ask leader3"
    by (simp add: rival_ask_def term_fits_def u64_max_def)
  from vote_binding [OF this] have "hard_le (hard leader3) (hard (run mem_ops rival_ask leader3))" .
  ultimately show ?thesis by (auto simp: hard_le_def)
qed

text \<open>
  C12. Over any sequence of events the commit index, the applied index, the durable applied
  index, the replicated floor and the snapshot boundary never move back.
\<close>

theorem watermarks_advance: "marks_le n (run ops evs n)"
  by (rule marks_le_run)

text \<open>
  C2. A committed entry is final. Over any run in which the batches of the leader agree with
  what this node has committed, the log stays contiguous, reaches the commit index, every
  committed entry above the snapshot boundary stays the entry it was, and the queue of entries to
  apply holds committed log entries in order with no gap above the applied index.
\<close>

theorem committed_entries_final:
  assumes "node_inv n" and "run_ok event_ok ops evs n"
  shows "committed_kept n (run ops evs n) \<and> node_inv (run ops evs n)"
proof -
  have "safe_step n (run ops evs n)"
    by (rule run_ok_invariant [where P = "safe_step n", OF _ assms(2) safe_step_refl [OF assms(1)]])
      (blast intro: safe_step_trans safe_exec safe_step_inv)
  then show ?thesis by (simp add: safe_step_def)
qed

text \<open>The follower of the example after its first commits, before the compaction.\<close>

definition follower_mid :: "mem_storage raft_node" where
  "follower_mid = run mem_ops (take 5 follower_run) (boot 1 [2, 3])"

theorem committed_entries_final_witness:
  "commit_of follower_mid = 3 \<and> entry_at (rlog follower_mid) 3 = Some (entry 2 3) \<and>
   committed_kept follower_mid (run mem_ops (drop 5 follower_run) follower_mid) \<and>
   node_inv (run mem_ops (drop 5 follower_run) follower_mid)"
proof -
  have "node_inv (boot 1 [2, 3])" unfolding boot_def by (rule node_inv_new)
  moreover have "run_ok event_ok mem_ops (take 5 follower_run) (boot 1 [2, 3])" by code_simp
  ultimately have mid: "node_inv follower_mid"
    unfolding follower_mid_def using committed_entries_final by blast
  have "run_ok event_ok mem_ops (drop 5 follower_run) follower_mid" by code_simp
  moreover have "commit_of follower_mid = 3" "entry_at (rlog follower_mid) 3 = Some (entry 2 3)" by code_simp+
  ultimately show ?thesis using committed_entries_final [OF mid] by blast
qed

section \<open>Delivery to the state machine\<close>

text \<open>
  C8. What a data group hands its state machine. In every state the group reaches from boot, with
  node calls between the tick and the apply step, a deferred apply gate, unsaved membership
  changes, a full apply window and a full channel, the entries handed over so far have strictly
  ascending indices (none twice, none out of order), each is committed, none is above the applied
  index, and each one the log still holds is the log's entry. The node calls are arbitrary under the side
  condition \<open>event_ok\<close>: the entries of an append request have consecutive indices after its previous
  index, and none of them contradicts an entry this node has committed. A leader of a group that keeps to
  the safety claims sends only such requests; the code does not check it.
\<close>

theorem delivery_in_order:
  assumes "(group_step event_ok ops g)\<^sup>*\<^sup>* (group_new env cfg s) d"
  defines "h \<equiv> handed g (dg_applier d)"
  shows "sorted_wrt (<) (map le_index h) \<and>
     (\<forall>e\<in>set h. le_index e \<le> applied_of (dg_node d) \<and> le_index e \<le> commit_of (dg_node d) \<and>
        (snapshot_index (rlog (dg_node d)) < le_index e \<longrightarrow> entry_at (rlog (dg_node d)) (le_index e) = Some e))"
  using group_inv_reachable [OF assms(1) group_inv_new] unfolding h_def by (simp add: group_inv_def batch_inv_def)

theorem delivery_in_order_witness:
  "handed 7 (dg_applier solo2) = [entry 1 1] \<and> applied_of (dg_node solo2) = 1 \<and>
   1 \<le> commit_of (dg_node solo2) \<and> entry_at (rlog (dg_node solo2)) 1 = Some (entry 1 1)"
proof -
  have h: "handed 7 (dg_applier solo2) = [entry 1 1]" "applied_of (dg_node solo2) = 1"
    "snapshot_index (rlog (dg_node solo2)) = 0" by code_simp+
  then show ?thesis using delivery_in_order [OF solo_steps [unfolded solo0_def]] by (simp add: entry_def)
qed

section \<open>Crash and restart\<close>

lemma mem_restore_ok: "\<exists>n'. node_restore mem_ops env n = (Inr (), n')"
  by (simp add: node_restore_def raft_log_restore_def mem_ops_def mem_load_hard_state_def mem_load_applied_index_def
      mem_load_entries_after_def mem_snapshot_metadata_def Let_def)

text \<open>
  C9. A restart loses nothing the node may have acted on. After any run from boot that persists the
  hard state before it takes \<open>Ready\<close>, a crash with no hard state waiting to be saved is
  recoverable: a new node over the same storage restores, and it has the same term and vote, the
  same log with the same boundary, and the same durable applied index, from which its commit and
  applied indices resume.
\<close>

theorem crash_restart:
  assumes "run_ok driver_ok mem_ops evs (node_new env cfg mem_storage_new)"
    and "n = run mem_ops evs (node_new env cfg mem_storage_new)"
    and "unsaved n = None"
  shows "\<exists>n'. node_restore mem_ops env2 (node_new env1 cfg' (rl_storage (rlog n))) = (Inr (), n') \<and>
     hard n' = hard n \<and> rlog n' = rlog n \<and> durable_applied n' = durable_applied n \<and>
     volatile n' = volatile_state_restored (durable_applied n)"
proof -
  have "stored mem_ops ms_entries (node_new env cfg mem_storage_new)"
    by (rule mem.stored_new) (simp_all add: mem_ops_def mem_storage_new_def mem_snapshot_metadata_def
        mem_load_hard_state_def mem_load_applied_index_def)
  then have "stored mem_ops ms_entries n"
    unfolding assms(2) using assms(1)
    by (auto intro: run_ok_invariant [where P = "stored mem_ops ms_entries"] mem.stored_exec)
  then show ?thesis using mem_restore_ok mem.restore_stored [OF _ assms(3)] by metis
qed

theorem crash_restart_witness:
  "\<exists>n'. node_restore mem_ops (at_time 90) (node_new (at_time 90) (config_of 1 [2, 3]) (rl_storage (rlog follower3))) =
       (Inr (), n') \<and>
     hard n' = hard follower3 \<and> rlog n' = rlog follower3 \<and> durable_applied n' = durable_applied follower3 \<and>
     volatile n' = volatile_state_restored (durable_applied follower3)"
proof (rule crash_restart)
  show "run_ok driver_ok mem_ops follower_run (node_new (at_time 0) (config_of 1 [2, 3]) mem_storage_new)"
    by code_simp
  show "follower3 = run mem_ops follower_run (node_new (at_time 0) (config_of 1 [2, 3]) mem_storage_new)"
    by (simp add: follower3_def boot_def)
  show "unsaved follower3 = None" by code_simp
qed

end
